(* ===== verification/Prelude.thy ===== *)
theory Prelude
  imports Main
begin

text \<open>
  What every component of the development shares: Go errors as values, the
  request context as a sequence of observations, the state that the code reads and writes
  outside its own values (clock, identifiers, Prometheus collectors and one component of
  type \<open>'r\<close> for the systems the service talks to), and the generic list lemmas.

  Conventions. A Go \<open>string\<close> is a sequence of bytes, which is what \<open>string\<close>
  (a list of 8-bit \<open>char\<close>s) is. A function that returns a value and an
  \<open>error\<close> returns a sum, \<open>Inl\<close> for the error. A function with effects takes the
  world and returns it. A nil slice and an empty one are the same list; a map that can be nil
  is an \<open>option\<close>.
\<close>

named_theorems world_simps \<open>effects on the world, field by field\<close>
named_theorems res_simps \<open>propagation of errors\<close>

section \<open>Errors\<close>

text \<open>The two errors of a finished context (\<open>ctx.Err()\<close>).\<close>

datatype ctx_error = Canceled | DeadlineExceeded

text \<open>
  An error is one that the code makes from a fixed text (\<open>errors.New\<close>), from a format and its
  arguments or around another error (\<open>fmt.Errorf\<close>), the error of a context, or one that some other
  package made, with its text. \<open>NoReturn\<close> is not an error of the program: it marks the places
  where a model has to say what happens when an index is out of range, a loop does not end or
  fuel runs out, and the development proves that no operation yields it.
\<close>

datatype gerror =
    Errorf string
  | ErrFmt string "string list"
  | ErrWrap string "string list" gerror
  | CtxErr ctx_error
  | ExtErr string
  | NoReturn

text \<open>
  \<open>err.Error()\<close>; \<open>sprintf\<close> is the formatting of the package \<open>fmt\<close>, with the text of a wrapped error as
  its last argument.
\<close>

fun error_text :: "(string \<Rightarrow> string list \<Rightarrow> string) \<Rightarrow> gerror \<Rightarrow> string" where
  "error_text sprintf (Errorf m) = m"
| "error_text sprintf (ErrFmt f args) = sprintf f args"
| "error_text sprintf (ErrWrap f args e) = sprintf f (args @ [error_text sprintf e])"
| "error_text sprintf (CtxErr Canceled) = ''context canceled''"
| "error_text sprintf (CtxErr DeadlineExceeded) = ''context deadline exceeded''"
| "error_text sprintf (ExtErr m) = m"
| "error_text sprintf NoReturn = []"

text \<open>A loop over a slice whose body may return an error and updates an accumulator.\<close>

fun foldE :: "('a \<Rightarrow> 's \<Rightarrow> 'e + 's) \<Rightarrow> 'a list \<Rightarrow> 's \<Rightarrow> 'e + 's" where
  "foldE f [] s = Inr s"
| "foldE f (x # xs) s = (case f x s of Inl e \<Rightarrow> Inl e | Inr s' \<Rightarrow> foldE f xs s')"

lemma foldE_append [res_simps]:
  "foldE f (xs @ ys) s = (case foldE f xs s of Inl e \<Rightarrow> Inl e | Inr s' \<Rightarrow> foldE f ys s')"
  by (induction xs arbitrary: s) (auto split: sum.splits)

lemma foldE_Inl:
  "foldE f xs s = Inl e \<Longrightarrow> \<exists>pre x post s1. xs = pre @ x # post \<and> foldE f pre s = Inr s1 \<and> f x s1 = Inl e"
proof (induction xs arbitrary: s)
  case Nil
  then show ?case by simp
next
  case (Cons x xs)
  show ?case
  proof (cases "f x s")
    case (Inl e')
    with Cons.prems show ?thesis by (intro exI [of _ "[]"]) auto
  next
    case (Inr s1)
    with Cons.prems have "foldE f xs s1 = Inl e" by simp
    from Cons.IH [OF this] obtain pre y post s2
      where "xs = pre @ y # post" "foldE f pre s1 = Inr s2" "f y s2 = Inl e" by blast
    with Inr show ?thesis by (intro exI [of _ "x # pre"]) auto
  qed
qed

lemma foldE_invariant:
  assumes "foldE f xs s = Inr s'" and "P s"
    and "\<And>x s s'. x \<in> set xs \<Longrightarrow> P s \<Longrightarrow> f x s = Inr s' \<Longrightarrow> P s'"
  shows "P s'"
  using assms
proof (induction xs arbitrary: s)
  case Nil
  then show ?case by simp
next
  case (Cons x xs)
  from Cons.prems(1) obtain s1 where s1: "f x s = Inr s1" and rest: "foldE f xs s1 = Inr s'"
    by (auto split: sum.splits)
  from Cons.prems(2) s1 have "P s1" by (rule Cons.prems(3) [rotated]) simp
  with rest show ?case using Cons.IH Cons.prems(3) by (meson list.set_intros(2))
qed

section \<open>Integer division\<close>

text \<open>Go's \<open>/\<close> and \<open>%\<close> on signed integers truncate towards zero.\<close>

definition go_div :: "int \<Rightarrow> int \<Rightarrow> int" where
  "go_div a b = sgn a * sgn b * (\<bar>a\<bar> div \<bar>b\<bar>)"

definition go_mod :: "int \<Rightarrow> int \<Rightarrow> int" where
  "go_mod a b = a - go_div a b * b"

lemma go_div_nonneg [simp]: "0 \<le> a \<Longrightarrow> 0 < b \<Longrightarrow> go_div a b = a div b"
  by (cases "a = 0") (simp_all add: go_div_def)

lemma go_mod_nonneg [simp]: "0 \<le> a \<Longrightarrow> 0 < b \<Longrightarrow> go_mod a b = a mod b"
  by (simp add: go_mod_def minus_div_mult_eq_mod)

section \<open>Contexts\<close>

text \<open>
  A context is what its successive observations find: \<open>c n\<close> is the value of \<open>ctx.Err()\<close>
  at the \<open>n\<close>-th observation, \<open>None\<close> while the context is live. A finished context stays
  finished (\<open>ctx_ok\<close>), and a live one was never finished.
\<close>

type_synonym ctx = "nat \<Rightarrow> ctx_error option"

definition ctx_ok :: "ctx \<Rightarrow> bool" where
  "ctx_ok c \<longleftrightarrow> (\<forall>m n. m \<le> n \<longrightarrow> c m \<noteq> None \<longrightarrow> c n = c m)"

definition background :: ctx where
  "background = (\<lambda>_. None)"

lemma background_live [simp]: "background n = None"
  by (simp add: background_def)

section \<open>Collectors\<close>

text \<open>
  The Prometheus collectors of \<open>internal/telemetry/metrics.go\<close>. A counter (vector)
  is a function from its labels to its value; a histogram is the list of the durations
  observed, in nanoseconds, with their labels; a gauge is its value.
\<close>

record telemetry =
  DecisionsTotal :: "string \<times> string \<times> string \<Rightarrow> nat"
  DecisionLatencySeconds :: "(string \<times> int) list"
  RuleEvaluationsTotal :: "string \<times> bool \<Rightarrow> nat"
  RuleEvalErrorsTotal :: "string \<Rightarrow> nat"
  CombinerDepErrorsTotal :: "string \<times> string \<Rightarrow> nat"
  FeatureLookupLatencySeconds :: "int list"
  FeatureLookupDegradedTotal :: nat
  KafkaSinkQueueDepth :: nat
  KafkaSinkDroppedTotal :: nat
  KafkaSinkPublishErrorsTotal :: nat
  AuditWriteErrorsTotal :: nat

definition telemetry_init :: telemetry where
  "telemetry_init = \<lparr>DecisionsTotal = (\<lambda>_. 0), DecisionLatencySeconds = [],
     RuleEvaluationsTotal = (\<lambda>_. 0), RuleEvalErrorsTotal = (\<lambda>_. 0),
     CombinerDepErrorsTotal = (\<lambda>_. 0), FeatureLookupLatencySeconds = [],
     FeatureLookupDegradedTotal = 0, KafkaSinkQueueDepth = 0, KafkaSinkDroppedTotal = 0,
     KafkaSinkPublishErrorsTotal = 0, AuditWriteErrorsTotal = 0\<rparr>"

text \<open>\<open>Inc()\<close> on the counter with the labels \<open>l\<close>.\<close>

definition inc :: "'l \<Rightarrow> ('l \<Rightarrow> nat) \<Rightarrow> 'l \<Rightarrow> nat" where
  "inc l f = f(l := Suc (f l))"

lemma inc_same [simp]: "inc l f l = Suc (f l)"
  by (simp add: inc_def)

lemma inc_apply: "inc l f l' = f l' + (if l = l' then 1 else 0)"
  by (simp add: inc_def)

section \<open>The world\<close>

text \<open>
  \<open>polls\<close> counts the observations of the context, \<open>ticks\<close> the readings of
  the clock and \<open>uuids\<close> the identifiers taken from \<open>uuid_src\<close>; \<open>clock n\<close> is the
  \<open>n\<close>-th reading of \<open>time.Now\<close> in nanoseconds since the epoch. \<open>ext\<close> is the state
  of the systems behind the parameters of the model (Redis, the decision sinks).
\<close>

record 'r world =
  polls :: nat
  clock :: "nat \<Rightarrow> int"
  ticks :: nat
  uuid_src :: "nat \<Rightarrow> string"
  uuids :: nat
  tel :: telemetry
  ext :: 'r

definition poll :: "ctx \<Rightarrow> 'r world \<Rightarrow> ctx_error option \<times> 'r world" where
  "poll c w = (c (polls w), w\<lparr>polls := Suc (polls w)\<rparr>)"

definition time_now :: "'r world \<Rightarrow> int \<times> 'r world" where
  "time_now w = (clock w (ticks w), w\<lparr>ticks := Suc (ticks w)\<rparr>)"

definition time_since :: "int \<Rightarrow> 'r world \<Rightarrow> int \<times> 'r world" where
  "time_since started w = (case time_now w of (t, w') \<Rightarrow> (t - started, w'))"

definition new_uuid :: "'r world \<Rightarrow> string \<times> 'r world" where
  "new_uuid w = (uuid_src w (uuids w), w\<lparr>uuids := Suc (uuids w)\<rparr>)"

definition tel_upd :: "(telemetry \<Rightarrow> telemetry) \<Rightarrow> 'r world \<Rightarrow> 'r world" where
  "tel_upd f w = w\<lparr>tel := f (tel w)\<rparr>"

lemma poll_simps [world_simps]:
  "fst (poll c w) = c (polls w)"
  "tel (snd (poll c w)) = tel w" "ext (snd (poll c w)) = ext w"
  "polls (snd (poll c w)) = Suc (polls w)" "ticks (snd (poll c w)) = ticks w"
  "clock (snd (poll c w)) = clock w" "uuids (snd (poll c w)) = uuids w"
  "uuid_src (snd (poll c w)) = uuid_src w"
  by (simp_all add: poll_def)

lemma tel_upd_simps [world_simps]:
  "tel (tel_upd f w) = f (tel w)" "ext (tel_upd f w) = ext w" "polls (tel_upd f w) = polls w"
  "ticks (tel_upd f w) = ticks w" "clock (tel_upd f w) = clock w"
  "uuids (tel_upd f w) = uuids w" "uuid_src (tel_upd f w) = uuid_src w"
  by (simp_all add: tel_upd_def)

end
