(* ===== verification/Types.thy ===== *)
theory Types
  imports Prelude Complex_Main
begin

text \<open>
  The data of \<open>internal/engine\<close>: the structs of \<open>types.go\<close> and
  \<open>RuleResult\<close> of \<open>combine.go\<close>, field for field. Field names carry a prefix, since
  several structs have fields of the same name. A \<open>Verdict\<close> is a string type in the
  code, so any string is a value of it; the three constants name the ones in use.
\<close>

type_synonym Verdict = string

definition VerdictAllow :: Verdict where "VerdictAllow = ''allow''"
definition VerdictFlag :: Verdict where "VerdictFlag = ''flag''"
definition VerdictBlock :: Verdict where "VerdictBlock = ''block''"

lemma verdict_distinct [simp]:
  "VerdictAllow \<noteq> VerdictFlag" "VerdictFlag \<noteq> VerdictAllow"
  "VerdictAllow \<noteq> VerdictBlock" "VerdictBlock \<noteq> VerdictAllow"
  "VerdictFlag \<noteq> VerdictBlock" "VerdictBlock \<noteq> VerdictFlag"
  by (simp_all add: VerdictAllow_def VerdictFlag_def VerdictBlock_def)

lemma verdict_nonempty [simp]:
  "VerdictAllow \<noteq> []" "VerdictFlag \<noteq> []" "VerdictBlock \<noteq> []"
  by (simp_all add: VerdictAllow_def VerdictFlag_def VerdictBlock_def)

text \<open>
  Values of type \<open>any\<close> as they occur in request contexts, response metadata and
  activations: what \<open>encoding/json\<close> makes of a document, and the Go values the code puts
  there itself or receives from the Redis client (\<open>int\<close>, \<open>int64\<close>, \<open>[]string\<close>, \<open>[]byte\<close>). A float is a rational number.
\<close>

datatype any =
    ANil
  | ABool bool
  | AInt int
  | AFloat rat
  | AString string
  | ABytes string
  | AStrings "string list"
  | AList "any list"
  | AMap "string \<Rightarrow> any option"

record ActionContext =
  ac_Type :: string
  ac_Platform :: string

record ContentContext =
  cc_Title :: string
  cc_Description :: string
  cc_DurationS :: int
  cc_Tags :: "string list"

record DecideRequest =
  dr_ActorID :: string
  dr_Action :: ActionContext
  dr_Content :: ContentContext
  dr_Context :: "(string \<rightharpoonup> any) option"
  dr_ClientID :: string
  dr_RequestID :: string

record ActorFeatures =
  af_ActorID :: string
  af_Publishes5M :: int
  af_Publishes1H :: int
  af_Publishes24H :: int
  af_Blocks24H :: int
  af_Flags7D :: int
  af_CommentBurst1M :: int
  af_AsOf :: string
  af_FromCache :: bool

record EvalState =
  es_Request :: DecideRequest
  es_Features :: ActorFeatures
  es_FeatureDegraded :: bool
  es_DegradedWarnings :: "string list"

record Reason =
  rs_Code :: string
  rs_Rule :: string
  rs_Detail :: string

record DecideResponse =
  dp_DecisionID :: string
  dp_Verdict :: Verdict
  dp_Score :: rat
  dp_Reasons :: "Reason list"
  dp_EvaluatedRules :: "string list"
  dp_RulesVersion :: string
  dp_LatencyMS :: int
  dp_Metadata :: "(string \<rightharpoonup> any) option"

record AuditRecord =
  ar_DecisionID :: string
  ar_ActorID :: string
  ar_ActionType :: string
  ar_Platform :: string
  ar_Verdict :: Verdict
  ar_Score :: rat
  ar_Reasons :: "Reason list"
  ar_EvaluatedRules :: "string list"
  ar_Request :: DecideRequest
  ar_LatencyUS :: int
  ar_RulesVersion :: string
  ar_Client :: string

record RuleResult =
  rr_RuleID :: string
  rr_Matched :: bool
  rr_Verdict :: Verdict
  rr_Reason :: Reason
  rr_Err :: "gerror option"

section \<open>Zero values\<close>

text \<open>What Go gives a field that a composite literal leaves out.\<close>

definition zero_Reason :: Reason where
  "zero_Reason = \<lparr>rs_Code = [], rs_Rule = [], rs_Detail = []\<rparr>"

definition zero_ActorFeatures :: ActorFeatures where
  "zero_ActorFeatures = \<lparr>af_ActorID = [], af_Publishes5M = 0, af_Publishes1H = 0,
     af_Publishes24H = 0, af_Blocks24H = 0, af_Flags7D = 0, af_CommentBurst1M = 0,
     af_AsOf = [], af_FromCache = False\<rparr>"

text \<open>The result of a rule that does not match, the literal the rules share.\<close>

definition unmatched :: "string \<Rightarrow> RuleResult" where
  "unmatched i = \<lparr>rr_RuleID = i, rr_Matched = False, rr_Verdict = VerdictAllow,
     rr_Reason = zero_Reason, rr_Err = None\<rparr>"

text \<open>The result of a rule that matches, with its verdict and the code of its action.\<close>

definition matched :: "string \<Rightarrow> Verdict \<Rightarrow> string \<Rightarrow> RuleResult" where
  "matched i v code = \<lparr>rr_RuleID = i, rr_Matched = True, rr_Verdict = v,
     rr_Reason = \<lparr>rs_Code = code, rs_Rule = i, rs_Detail = []\<rparr>, rr_Err = None\<rparr>"

lemma unmatched_simps [simp]:
  "rr_RuleID (unmatched i) = i" "\<not> rr_Matched (unmatched i)"
  "rr_Verdict (unmatched i) = VerdictAllow" "rr_Err (unmatched i) = None"
  by (simp_all add: unmatched_def)

lemma matched_simps [simp]:
  "rr_RuleID (matched i v k) = i" "rr_Matched (matched i v k)"
  "rr_Verdict (matched i v k) = v" "rr_Err (matched i v k) = None"
  "rs_Code (rr_Reason (matched i v k)) = k" "rs_Rule (rr_Reason (matched i v k)) = i"
  "rs_Detail (rr_Reason (matched i v k)) = []"
  by (simp_all add: matched_def)

end
