(* ===== verification/Combine.thy ===== *)
theory Combine
  imports Types "HOL-Library.Multiset"
begin

text \<open>
  \<open>internal/engine/combine.go\<close>: the loop of \<open>Combine\<close> over the rule results, and
  what it computes: the verdicts of the matched results joined by the precedence
  block, flag, allow.
\<close>

text \<open>The three variables the loop updates.\<close>

record combine_state =
  cs_verdict :: Verdict
  cs_reasons :: "Reason list"
  cs_evaluated :: "string list"

text \<open>One iteration of the loop, its two \<open>continue\<close>s as branches.\<close>

definition combine_step :: "RuleResult \<Rightarrow> combine_state \<Rightarrow> combine_state" where
  "combine_step result s =
     (let s = s\<lparr>cs_evaluated := cs_evaluated s @ [rr_RuleID result]\<rparr> in
      if \<not> rr_Matched result then s
      else
        let s = (if rs_Code (rr_Reason result) \<noteq> []
                 then s\<lparr>cs_reasons := cs_reasons s @ [rr_Reason result]\<rparr> else s) in
        if rr_Verdict result = VerdictBlock then s\<lparr>cs_verdict := VerdictBlock\<rparr>
        else if rr_Verdict result = VerdictFlag \<and> cs_verdict s \<noteq> VerdictBlock
        then s\<lparr>cs_verdict := VerdictFlag\<rparr>
        else s)"

definition combine_init :: combine_state where
  "combine_init = \<lparr>cs_verdict = VerdictAllow, cs_reasons = [], cs_evaluated = []\<rparr>"

definition Combine :: "RuleResult list \<Rightarrow> DecideResponse" where
  "Combine results =
     (let s = fold combine_step results combine_init in
      \<lparr>dp_DecisionID = [], dp_Verdict = cs_verdict s, dp_Score = 0,
       dp_Reasons = cs_reasons s, dp_EvaluatedRules = cs_evaluated s,
       dp_RulesVersion = [], dp_LatencyMS = 0, dp_Metadata = None\<rparr>)"

section \<open>The abstract specification: verdicts as a linear order\<close>

text \<open>The precedence of the README: \<open>block > flag > allow\<close>, any other string as allow.\<close>

definition severity :: "Verdict \<Rightarrow> nat" where
  "severity v = (if v = VerdictBlock then 2 else if v = VerdictFlag then 1 else 0)"

definition matched_severity :: "RuleResult \<Rightarrow> nat" where
  "matched_severity r = (if rr_Matched r then severity (rr_Verdict r) else 0)"

definition spec_severity :: "RuleResult list \<Rightarrow> nat" where
  "spec_severity rs = foldr (\<lambda>r m. max (matched_severity r) m) rs 0"

definition known_verdict :: "Verdict \<Rightarrow> bool" where
  "known_verdict v \<longleftrightarrow> v \<in> {VerdictAllow, VerdictFlag, VerdictBlock}"

lemma severity_simps [simp]:
  "severity VerdictAllow = 0" "severity VerdictFlag = 1" "severity VerdictBlock = 2"
  by (simp_all add: severity_def)

lemma severity_le: "severity v \<le> 2"
  by (simp add: severity_def)

lemma severity_ge [simp]:
  "2 \<le> severity v \<longleftrightarrow> v = VerdictBlock"
  "Suc 0 \<le> severity v \<longleftrightarrow> v = VerdictBlock \<or> v = VerdictFlag"
  by (auto simp: severity_def)

lemma matched_severity_ge:
  "2 \<le> matched_severity r \<longleftrightarrow> rr_Matched r \<and> rr_Verdict r = VerdictBlock"
  "Suc 0 \<le> matched_severity r \<longleftrightarrow>
     rr_Matched r \<and> (rr_Verdict r = VerdictBlock \<or> rr_Verdict r = VerdictFlag)"
  by (auto simp: matched_severity_def)

lemma severity_inj: "known_verdict v \<Longrightarrow> known_verdict v' \<Longrightarrow> severity v = severity v' \<Longrightarrow> v = v'"
  by (auto simp: known_verdict_def)

lemma spec_severity_Cons [simp]:
  "spec_severity (r # rs) = max (matched_severity r) (spec_severity rs)"
  by (simp add: spec_severity_def)

lemma spec_severity_Nil [simp]: "spec_severity [] = 0"
  by (simp add: spec_severity_def)

lemma spec_severity_ge_iff:
  "0 < k \<Longrightarrow> k \<le> spec_severity rs \<longleftrightarrow> (\<exists>r \<in> set rs. k \<le> matched_severity r)"
  by (induction rs) (auto simp: le_max_iff_disj)

section \<open>The loop\<close>

lemma combine_step_evaluated [simp]:
  "cs_evaluated (combine_step r s) = cs_evaluated s @ [rr_RuleID r]"
  by (simp add: combine_step_def Let_def)

lemma combine_step_reasons:
  "cs_reasons (combine_step r s) =
     cs_reasons s @ (if rr_Matched r \<and> rs_Code (rr_Reason r) \<noteq> [] then [rr_Reason r] else [])"
  by (simp add: combine_step_def Let_def)

lemma combine_step_verdict:
  "known_verdict (cs_verdict s) \<Longrightarrow>
     known_verdict (cs_verdict (combine_step r s)) \<and>
     severity (cs_verdict (combine_step r s)) = max (matched_severity r) (severity (cs_verdict s))"
  by (auto simp: combine_step_def Let_def matched_severity_def known_verdict_def severity_def)

lemma fold_combine_evaluated:
  "cs_evaluated (fold combine_step rs s) = cs_evaluated s @ map rr_RuleID rs"
  by (induction rs arbitrary: s) simp_all

lemma fold_combine_reasons:
  "cs_reasons (fold combine_step rs s) =
     cs_reasons s @ map rr_Reason (filter (\<lambda>r. rr_Matched r \<and> rs_Code (rr_Reason r) \<noteq> []) rs)"
  by (induction rs arbitrary: s) (simp_all add: combine_step_reasons)

lemma fold_combine_verdict:
  "known_verdict (cs_verdict s) \<Longrightarrow>
     known_verdict (cs_verdict (fold combine_step rs s)) \<and>
     severity (cs_verdict (fold combine_step rs s)) =
       max (spec_severity rs) (severity (cs_verdict s))"
proof (induction rs arbitrary: s)
  case Nil
  then show ?case by simp
next
  case (Cons r rs)
  from combine_step_verdict [OF Cons.prems, of r] show ?case
    by (simp add: Cons.IH max.assoc max.commute max.left_commute)
qed

lemma Combine_evaluated [simp]: "dp_EvaluatedRules (Combine rs) = map rr_RuleID rs"
  by (simp add: Combine_def Let_def fold_combine_evaluated combine_init_def)

lemma Combine_reasons:
  "dp_Reasons (Combine rs) =
     map rr_Reason (filter (\<lambda>r. rr_Matched r \<and> rs_Code (rr_Reason r) \<noteq> []) rs)"
  by (simp add: Combine_def Let_def fold_combine_reasons combine_init_def)

lemma Combine_severity: "severity (dp_Verdict (Combine rs)) = spec_severity rs"
  using fold_combine_verdict [of combine_init rs]
  by (simp add: Combine_def Let_def combine_init_def known_verdict_def)

lemma Combine_known: "known_verdict (dp_Verdict (Combine rs))"
  using fold_combine_verdict [of combine_init rs]
  by (simp add: Combine_def Let_def combine_init_def known_verdict_def)

lemma Combine_other [simp]:
  "dp_Score (Combine rs) = 0" "dp_Metadata (Combine rs) = None"
  by (simp_all add: Combine_def Let_def)

lemma Combine_block_iff:
  "dp_Verdict (Combine rs) = VerdictBlock \<longleftrightarrow>
     (\<exists>r \<in> set rs. rr_Matched r \<and> rr_Verdict r = VerdictBlock)"
proof -
  have "dp_Verdict (Combine rs) = VerdictBlock \<longleftrightarrow> 2 \<le> spec_severity rs"
    by (simp flip: Combine_severity)
  also have "\<dots> \<longleftrightarrow> (\<exists>r \<in> set rs. rr_Matched r \<and> rr_Verdict r = VerdictBlock)"
    by (simp add: spec_severity_ge_iff matched_severity_ge)
  finally show ?thesis .
qed

lemma Combine_allow_iff:
  "dp_Verdict (Combine rs) = VerdictAllow \<longleftrightarrow>
     \<not> (\<exists>r \<in> set rs. rr_Matched r \<and> rr_Verdict r \<in> {VerdictBlock, VerdictFlag})"
proof -
  have "dp_Verdict (Combine rs) = VerdictAllow \<longleftrightarrow> \<not> Suc 0 \<le> severity (dp_Verdict (Combine rs))"
    using Combine_known [of rs] by (auto simp: known_verdict_def)
  also have "\<dots> \<longleftrightarrow> \<not> (\<exists>r \<in> set rs. rr_Matched r \<and> rr_Verdict r \<in> {VerdictBlock, VerdictFlag})"
    by (simp add: Combine_severity spec_severity_ge_iff matched_severity_ge)
  finally show ?thesis .
qed

text \<open>A result that does not match leaves the verdict alone.\<close>

lemma Combine_skip:
  assumes "\<not> rr_Matched r"
  shows "dp_Verdict (Combine (before @ r # after)) = dp_Verdict (Combine (before @ after))"
proof -
  have "spec_severity (before @ r # after) = spec_severity (before @ after)"
    using assms by (induction before) (simp_all add: matched_severity_def)
  then have "severity (dp_Verdict (Combine (before @ r # after))) =
      severity (dp_Verdict (Combine (before @ after)))" by (simp add: Combine_severity)
  then show ?thesis by (rule severity_inj [OF Combine_known Combine_known])
qed

section \<open>Properties\<close>

text \<open>
  C1. \<open>Combine\<close> implements the precedence block, flag, allow: its verdict is one of the
  three, and its severity is the largest severity of a matched result (allow when there is
  none), so it is block exactly when some matched result blocks and allow exactly when no
  matched result blocks or flags.
\<close>

theorem combine_precedence:
  "dp_Verdict (Combine rs) \<in> {VerdictAllow, VerdictFlag, VerdictBlock} \<and>
   severity (dp_Verdict (Combine rs)) = spec_severity rs \<and>
   (dp_Verdict (Combine rs) = VerdictBlock \<longleftrightarrow>
      (\<exists>r \<in> set rs. rr_Matched r \<and> rr_Verdict r = VerdictBlock)) \<and>
   (dp_Verdict (Combine rs) = VerdictAllow \<longleftrightarrow>
      \<not> (\<exists>r \<in> set rs. rr_Matched r \<and> rr_Verdict r \<in> {VerdictBlock, VerdictFlag}))"
  using Combine_known [of rs] Combine_severity Combine_block_iff Combine_allow_iff
  by (auto simp: known_verdict_def)

end
