(* ===== verification/Engine.thy ===== *)
theory Engine
  imports Combine
begin

text \<open>
  \<open>internal/engine/engine.go\<close>: the interfaces of the package, the bootstrap engine
  and the rule engine. \<open>Evaluate\<close> is one definition per phase (feature lookup, rule loop,
  response and audit), composed as the code composes them. The contract that the four rule
  types keep is \<open>rule_contract\<close>; the locale \<open>rule_constructor\<close> is the interface to their
  constructors, and what the loop makes of rules that keep the contract is the locale \<open>rule_set\<close>.
\<close>

section \<open>The interfaces\<close>

text \<open>
  A value of the interface \<open>Rule\<close> is the record of its methods. The type assertion
  \<open>rule.(ResultAwareRule)\<close> succeeds exactly when \<open>rule_Aware\<close> is present, and then holds
  \<open>Dependencies\<close> and \<open>EvaluateWithResults\<close>; its \<open>prior\<close> map can be nil.
\<close>

type_synonym 'r evaluation = "'r world \<Rightarrow> (gerror + RuleResult) \<times> 'r world"

record 'r rule =
  rule_ID :: string
  rule_Evaluate :: "ctx \<Rightarrow> EvalState \<Rightarrow> 'r evaluation"
  rule_Aware ::
    "(string list \<times> (ctx \<Rightarrow> EvalState \<Rightarrow> (string \<rightharpoonup> RuleResult) option \<Rightarrow> 'r evaluation)) option"

type_synonym 'r FeatureProvider =
  "ctx \<Rightarrow> string \<Rightarrow> 'r world \<Rightarrow> (ActorFeatures \<times> bool) \<times> 'r world"

type_synonym 'r AuditSink = "ctx \<Rightarrow> AuditRecord \<Rightarrow> 'r world \<Rightarrow> 'r world"

type_synonym 'r DecisionEngine =
  "ctx \<Rightarrow> DecideRequest \<Rightarrow> 'r world \<Rightarrow> (gerror + DecideResponse) \<times> 'r world"

text \<open>\<open>Duration.Milliseconds\<close> and \<open>Duration.Microseconds\<close> of a duration in nanoseconds.\<close>

definition milliseconds :: "int \<Rightarrow> int" where "milliseconds d = go_div d 1000000"
definition microseconds :: "int \<Rightarrow> int" where "microseconds d = go_div d 1000"

section \<open>The bootstrap engine\<close>

definition NewAllowEngine :: "string \<Rightarrow> string" where
  "NewAllowEngine rulesVersion = (if rulesVersion = [] then ''bootstrap'' else rulesVersion)"

definition AllowEngine_Evaluate :: "string \<Rightarrow> 'r DecisionEngine" where
  "AllowEngine_Evaluate rulesVersion c req w =
     (case time_now w of (started, w) \<Rightarrow>
      case poll c w of
        (Some e, w) \<Rightarrow> (Inl (CtxErr e), w)
      | (None, w) \<Rightarrow>
          (case new_uuid w of (uuid, w) \<Rightarrow>
           case time_since started w of (latency, w) \<Rightarrow>
           case time_since started w of (observed, w) \<Rightarrow>
             (Inr \<lparr>dp_DecisionID = uuid, dp_Verdict = VerdictAllow, dp_Score = 0,
                   dp_Reasons = [], dp_EvaluatedRules = [], dp_RulesVersion = rulesVersion,
                   dp_LatencyMS = milliseconds latency, dp_Metadata = None\<rparr>,
              tel_upd (\<lambda>t. t\<lparr>
                  DecisionLatencySeconds :=
                    DecisionLatencySeconds t @ [(ac_Type (dr_Action req), observed)],
                  DecisionsTotal :=
                    inc (VerdictAllow, ac_Type (dr_Action req), dr_ClientID req) (DecisionsTotal t)\<rparr>) w)))"

section \<open>The rule engine\<close>

record 'r RuleEngine =
  re_rulesVersion :: string
  re_rules :: "'r rule list"
  re_audit :: "'r AuditSink option"
  re_featureProvider :: "'r FeatureProvider option"

definition NewRuleEngine :: "string \<Rightarrow> 'r rule list \<Rightarrow> 'r RuleEngine" where
  "NewRuleEngine rulesVersion rules =
     \<lparr>re_rulesVersion = (if rulesVersion = [] then ''bootstrap'' else rulesVersion),
      re_rules = rules, re_audit = None, re_featureProvider = None\<rparr>"

definition WithAuditSink :: "'r AuditSink \<Rightarrow> 'r RuleEngine \<Rightarrow> 'r RuleEngine" where
  "WithAuditSink sink e = e\<lparr>re_audit := Some sink\<rparr>"

definition WithFeatureProvider :: "'r FeatureProvider \<Rightarrow> 'r RuleEngine \<Rightarrow> 'r RuleEngine" where
  "WithFeatureProvider provider e = e\<lparr>re_featureProvider := Some provider\<rparr>"

text \<open>The state the rules see: the request and, with a provider, the actor's features.\<close>

definition lookup_features ::
    "'r RuleEngine \<Rightarrow> ctx \<Rightarrow> DecideRequest \<Rightarrow> 'r world \<Rightarrow> EvalState \<times> 'r world" where
  "lookup_features e c req w =
     (let state = \<lparr>es_Request = req, es_Features = zero_ActorFeatures,
                   es_FeatureDegraded = False, es_DegradedWarnings = []\<rparr> in
      case re_featureProvider e of
        None \<Rightarrow> (state, w)
      | Some provider \<Rightarrow>
          (case provider c (dr_ActorID req) w of ((features, degraded), w) \<Rightarrow>
             (state\<lparr>es_Features := features, es_FeatureDegraded := degraded,
                es_DegradedWarnings := es_DegradedWarnings state @
                  (if degraded then [''feature_provider_unavailable''] else [])\<rparr>, w)))"

text \<open>The call of one rule, through the interface it implements.\<close>

definition invoke :: "'r rule \<Rightarrow> ctx \<Rightarrow> EvalState \<Rightarrow> (string \<rightharpoonup> RuleResult) \<Rightarrow> 'r evaluation" where
  "invoke rule c state byID =
     (case rule_Aware rule of
        Some (_, EvaluateWithResults) \<Rightarrow> EvaluateWithResults c state (Some byID)
      | None \<Rightarrow> rule_Evaluate rule c state)"

text \<open>The result recorded for a rule that returned an error.\<close>

definition failed :: "string \<Rightarrow> gerror \<Rightarrow> RuleResult" where
  "failed i e = \<lparr>rr_RuleID = i, rr_Matched = False, rr_Verdict = VerdictAllow,
     rr_Reason = zero_Reason, rr_Err = Some e\<rparr>"

text \<open>The body of the loop after the context check.\<close>

definition eval_one ::
    "ctx \<Rightarrow> EvalState \<Rightarrow> (string \<rightharpoonup> RuleResult) \<Rightarrow> 'r rule \<Rightarrow> 'r world \<Rightarrow> RuleResult \<times> 'r world" where
  "eval_one c state byID rule w =
     (case invoke rule c state byID w of (out, w) \<Rightarrow>
      case (case out of
              Inr result \<Rightarrow> (result, w)
            | Inl err \<Rightarrow>
                (failed (rule_ID rule) err,
                 tel_upd (\<lambda>t. t\<lparr>RuleEvalErrorsTotal := inc (rule_ID rule) (RuleEvalErrorsTotal t)\<rparr>) w))
      of (result, w) \<Rightarrow>
        (result,
         tel_upd (\<lambda>t. t\<lparr>RuleEvaluationsTotal :=
           inc (rule_ID rule, rr_Matched result) (RuleEvaluationsTotal t)\<rparr>) w))"

fun eval_rules ::
    "ctx \<Rightarrow> EvalState \<Rightarrow> 'r rule list \<Rightarrow> RuleResult list \<Rightarrow> (string \<rightharpoonup> RuleResult) \<Rightarrow> 'r world
       \<Rightarrow> (gerror + RuleResult list) \<times> 'r world" where
  "eval_rules c state [] results byID w = (Inr results, w)"
| "eval_rules c state (rule # rules) results byID w =
     (case poll c w of
        (Some e, w) \<Rightarrow> (Inl (CtxErr e), w)
      | (None, w) \<Rightarrow>
          (case eval_one c state byID rule w of (result, w) \<Rightarrow>
             eval_rules c state rules (results @ [result]) (byID(rule_ID rule \<mapsto> result)) w))"

text \<open>The response, the decision metrics and the audit record.\<close>

definition audit_record :: "DecideRequest \<Rightarrow> DecideResponse \<Rightarrow> int \<Rightarrow> AuditRecord" where
  "audit_record req response latency =
     \<lparr>ar_DecisionID = dp_DecisionID response, ar_ActorID = dr_ActorID req,
      ar_ActionType = ac_Type (dr_Action req), ar_Platform = ac_Platform (dr_Action req),
      ar_Verdict = dp_Verdict response, ar_Score = dp_Score response,
      ar_Reasons = dp_Reasons response, ar_EvaluatedRules = dp_EvaluatedRules response,
      ar_Request = req, ar_LatencyUS = microseconds latency,
      ar_RulesVersion = dp_RulesVersion response, ar_Client = dr_ClientID req\<rparr>"

definition respond ::
    "'r RuleEngine \<Rightarrow> ctx \<Rightarrow> DecideRequest \<Rightarrow> EvalState \<Rightarrow> int \<Rightarrow> RuleResult list \<Rightarrow> 'r world
       \<Rightarrow> DecideResponse \<times> 'r world" where
  "respond e c req state started results w =
     (let response = Combine results in
      case time_since started w of (observed, w) \<Rightarrow>
      let w = tel_upd (\<lambda>t. t\<lparr>
                DecisionLatencySeconds :=
                  DecisionLatencySeconds t @ [(ac_Type (dr_Action req), observed)],
                DecisionsTotal :=
                  inc (dp_Verdict response, ac_Type (dr_Action req), dr_ClientID req)
                    (DecisionsTotal t)\<rparr>) w in
      case new_uuid w of (uuid, w) \<Rightarrow>
      case time_since started w of (latency, w) \<Rightarrow>
      let response = response\<lparr>dp_DecisionID := uuid, dp_RulesVersion := re_rulesVersion e,
                       dp_LatencyMS := milliseconds latency\<rparr>;
          response = (if es_DegradedWarnings state \<noteq> []
                      then response\<lparr>dp_Metadata :=
                             Some [''warnings'' \<mapsto> AStrings (es_DegradedWarnings state)]\<rparr>
                      else response) in
      case re_audit e of
        None \<Rightarrow> (response, w)
      | Some sink \<Rightarrow>
          (case time_since started w of (elapsed, w) \<Rightarrow>
             (response, sink c (audit_record req response elapsed) w)))"

definition RuleEngine_Evaluate :: "'r RuleEngine \<Rightarrow> 'r DecisionEngine" where
  "RuleEngine_Evaluate e c req w =
     (case time_now w of (started, w) \<Rightarrow>
      case poll c w of
        (Some ce, w) \<Rightarrow> (Inl (CtxErr ce), w)
      | (None, w) \<Rightarrow>
          (case lookup_features e c req w of (state, w) \<Rightarrow>
           case eval_rules c state (re_rules e) [] Map.empty w of
             (Inl err, w) \<Rightarrow> (Inl err, w)
           | (Inr results, w) \<Rightarrow>
               (case respond e c req state started results w of
                  (response, w) \<Rightarrow> (Inr response, w))))"

section \<open>What the engine promises for any rules\<close>

lemma eval_rules_errors:
  "fst (eval_rules c state rules results byID w) = Inl err \<Longrightarrow> \<exists>n e. c n = Some e \<and> err = CtxErr e"
proof (induction rules arbitrary: results byID w)
  case Nil
  then show ?case by simp
next
  case (Cons rule rules)
  then show ?case
    by (auto simp: poll_def split: option.splits prod.splits)
qed

lemma respond_fields:
  assumes "respond e c req state started results w = (response, w')"
  shows "dp_Verdict response = dp_Verdict (Combine results)"
    and "dp_Reasons response = dp_Reasons (Combine results)"
    and "dp_EvaluatedRules response = map rr_RuleID results"
    and "dp_RulesVersion response = re_rulesVersion e"
    and "dp_Metadata response =
      (if es_DegradedWarnings state \<noteq> []
       then Some [''warnings'' \<mapsto> AStrings (es_DegradedWarnings state)] else None)"
  using assms by (auto simp: respond_def Let_def split: option.splits prod.splits)

text \<open>With a sink the engine does what it does without one, reads the time once more and hands over one record.\<close>

lemma respond_audited:
  "respond (e\<lparr>re_audit := Some sink\<rparr>) c req state started results w =
     (case respond (e\<lparr>re_audit := None\<rparr>) c req state started results w of (response, w1) \<Rightarrow>
      case time_since started w1 of (elapsed, w2) \<Rightarrow>
        (response, sink c (audit_record req response elapsed) w2))"
  by (simp add: respond_def Let_def split_beta)

lemma Evaluate_audited:
  "RuleEngine_Evaluate (WithAuditSink sink e) c req w =
     (case RuleEngine_Evaluate (e\<lparr>re_audit := None\<rparr>) c req w of
        (Inl err, w1) \<Rightarrow> (Inl err, w1)
      | (Inr response, w1) \<Rightarrow>
          (Inr response,
           sink c (audit_record req response (clock w1 (ticks w1) - clock w (ticks w))) (snd (time_now w1))))"
proof -
  have "lookup_features (e\<lparr>re_audit := b\<rparr>) c req w = lookup_features e c req w" for b w
    by (simp add: lookup_features_def Let_def)
  moreover obtain ce w2 where "poll c (snd (time_now w)) = (ce, w2)" by (cases "poll c (snd (time_now w))")
  moreover obtain state w3 where "lookup_features e c req w2 = (state, w3)"
    by (cases "lookup_features e c req w2")
  moreover obtain out w4 where "eval_rules c state (re_rules e) [] Map.empty w3 = (out, w4)"
    by (cases "eval_rules c state (re_rules e) [] Map.empty w3")
  ultimately show ?thesis
    by (simp add: RuleEngine_Evaluate_def WithAuditSink_def respond_audited time_since_def time_now_def
        split_beta split: option.split sum.split)
qed

lemma audited_run:
  assumes "RuleEngine_Evaluate (WithAuditSink sink e) c req w = (Inr response, w')"
  obtains w1 where "RuleEngine_Evaluate (e\<lparr>re_audit := None\<rparr>) c req w = (Inr response, w1)"
    and "w' = sink c (audit_record req response (clock w1 (ticks w1) - clock w (ticks w))) (snd (time_now w1))"
  using assms by (auto simp: Evaluate_audited split: prod.splits sum.splits)

lemma lookup_features_simps:
  "es_Request (fst (lookup_features e c req w)) = req"
  "es_FeatureDegraded (fst (lookup_features e c req w)) =
     (case re_featureProvider e of None \<Rightarrow> False
      | Some provider \<Rightarrow> snd (fst (provider c (dr_ActorID req) w)))"
  "es_DegradedWarnings (fst (lookup_features e c req w)) =
     (if es_FeatureDegraded (fst (lookup_features e c req w))
      then [''feature_provider_unavailable''] else [])"
  by (auto simp: lookup_features_def Let_def split: option.splits prod.splits)

text \<open>The successful run of the engine, phase by phase.\<close>

lemma RuleEngine_Evaluate_cases:
  obtains (cancelled) n ce w' where "c n = Some ce"
      "RuleEngine_Evaluate e c req w = (Inl (CtxErr ce), w')"
  | (decided) started w1 state w2 results w3 response w' where
      "time_now w = (started, w1)" "c (polls w1) = None"
      "lookup_features e c req (snd (poll c w1)) = (state, w2)"
      "eval_rules c state (re_rules e) [] Map.empty w2 = (Inr results, w3)"
      "respond e c req state started results w3 = (response, w')"
      "RuleEngine_Evaluate e c req w = (Inr response, w')"
proof -
  obtain started w1 where t: "time_now w = (started, w1)" by (cases "time_now w")
  obtain state w2 where l: "lookup_features e c req (snd (poll c w1)) = (state, w2)"
    by (cases "lookup_features e c req (snd (poll c w1))")
  obtain out w3 where r: "eval_rules c state (re_rules e) [] Map.empty w2 = (out, w3)"
    by (cases "eval_rules c state (re_rules e) [] Map.empty w2")
  show thesis
  proof (cases "c (polls w1)")
    case (Some ce)
    with t show ?thesis
      by (intro cancelled [of "polls w1" ce "snd (poll c w1)"])
        (simp_all add: RuleEngine_Evaluate_def poll_def)
  next
    case live: None
    show ?thesis
    proof (cases out)
      case (Inl err)
      with r have "fst (eval_rules c state (re_rules e) [] Map.empty w2) = Inl err" by simp
      then obtain n ce where "c n = Some ce" "err = CtxErr ce"
        using eval_rules_errors by blast
      with t live l r Inl show ?thesis
        by (intro cancelled [of n ce w3]) (simp_all add: RuleEngine_Evaluate_def poll_def)
    next
      case (Inr results)
      obtain response w' where "respond e c req state started results w3 = (response, w')"
        by (cases "respond e c req state started results w3")
      with t live l r Inr show ?thesis
        by (intro decided [of started w1 state w2 results w3 response w'])
          (simp_all add: RuleEngine_Evaluate_def poll_def)
    qed
  qed
qed

lemma RuleEngine_Evaluate_live:
  assumes "\<And>n. c n = None"
  shows "\<exists>response w'. RuleEngine_Evaluate e c req w = (Inr response, w')"
  using assms by (cases rule: RuleEngine_Evaluate_cases [of c e req w]) auto

section \<open>The contract of a rule\<close>

text \<open>
  What the four rule types of \<open>internal/rules\<close> promise the engine: a result carries the id of
  its rule and no error of its own, a match has one of the three verdicts and a reason with a
  code and the rule's id, the evaluation returns, and it leaves alone what only the engine writes.
\<close>

definition well_formed :: "string \<Rightarrow> RuleResult \<Rightarrow> bool" where
  "well_formed i r \<longleftrightarrow> rr_RuleID r = i \<and> rr_Err r = None \<and>
     (rr_Matched r \<longrightarrow> known_verdict (rr_Verdict r) \<and> rs_Code (rr_Reason r) \<noteq> [] \<and>
        rs_Rule (rr_Reason r) = i)"

definition engine_frame :: "'r world \<Rightarrow> 'r world \<Rightarrow> bool" where
  "engine_frame w w' \<longleftrightarrow> clock w' = clock w \<and> uuid_src w' = uuid_src w \<and> uuids w' = uuids w \<and>
     DecisionsTotal (tel w') = DecisionsTotal (tel w) \<and>
     DecisionLatencySeconds (tel w') = DecisionLatencySeconds (tel w) \<and>
     RuleEvaluationsTotal (tel w') = RuleEvaluationsTotal (tel w) \<and>
     RuleEvalErrorsTotal (tel w') = RuleEvalErrorsTotal (tel w)"

lemma engine_frame_refl [simp]: "engine_frame w w"
  by (simp add: engine_frame_def)

lemma engine_frame_trans: "engine_frame w w' \<Longrightarrow> engine_frame w' w'' \<Longrightarrow> engine_frame w w''"
  by (simp add: engine_frame_def)

definition rule_contract :: "'r rule \<Rightarrow> bool" where
  "rule_contract rule \<longleftrightarrow>
     (\<forall>c state byID w out w'. invoke rule c state byID w = (out, w') \<longrightarrow>
        (case out of Inl e \<Rightarrow> e \<noteq> NoReturn | Inr r \<Rightarrow> well_formed (rule_ID rule) r) \<and>
        engine_frame w w')"

lemma rule_contractI:
  assumes "\<And>c state byID w out w'. invoke rule c state byID w = (out, w') \<Longrightarrow>
      case out of Inl e \<Rightarrow> e \<noteq> NoReturn | Inr r \<Rightarrow> well_formed (rule_ID rule) r"
    and "\<And>c state byID w out w'. invoke rule c state byID w = (out, w') \<Longrightarrow> engine_frame w w'"
  shows "rule_contract rule"
  using assms unfolding rule_contract_def by blast

lemma rule_contractD:
  assumes "rule_contract rule"
  shows "invoke rule c state byID w = (Inr r, w') \<Longrightarrow> well_formed (rule_ID rule) r"
    and "invoke rule c state byID w = (out, w') \<Longrightarrow> engine_frame w w'"
    and "invoke rule c state byID w = (Inl e, w') \<Longrightarrow> e \<noteq> NoReturn"
  using assms by (force simp: rule_contract_def)+

text \<open>With errors turned into results, every evaluation is accounted for once.\<close>

lemma eval_one_result:
  assumes "rule_contract rule" and "eval_one c state byID rule w = (r, w')"
  shows "rr_RuleID r = rule_ID rule"
    and "rr_Matched r \<Longrightarrow> well_formed (rule_ID rule) r"
    and "rr_Err r \<noteq> None \<longleftrightarrow> (\<exists>e. fst (invoke rule c state byID w) = Inl e)"
proof -
  obtain out w1 where i: "invoke rule c state byID w = (out, w1)"
    by (cases "invoke rule c state byID w")
  show "rr_RuleID r = rule_ID rule"
    and "rr_Matched r \<Longrightarrow> well_formed (rule_ID rule) r"
    and "rr_Err r \<noteq> None \<longleftrightarrow> (\<exists>e. fst (invoke rule c state byID w) = Inl e)"
    using assms(2) i rule_contractD(1) [OF assms(1), of c state byID w]
    by (auto simp: eval_one_def failed_def well_formed_def split: sum.splits)
qed

lemma eval_one_counters:
  assumes "rule_contract rule" and "eval_one c state byID rule w = (r, w')"
  shows "RuleEvaluationsTotal (tel w') =
      inc (rule_ID rule, rr_Matched r) (RuleEvaluationsTotal (tel w))"
    and "RuleEvalErrorsTotal (tel w') =
      (if rr_Err r \<noteq> None then inc (rule_ID rule) (RuleEvalErrorsTotal (tel w))
       else RuleEvalErrorsTotal (tel w))"
    and "DecisionsTotal (tel w') = DecisionsTotal (tel w)"
proof -
  obtain out w1 where i: "invoke rule c state byID w = (out, w1)"
    by (cases "invoke rule c state byID w")
  from rule_contractD(2) [OF assms(1) i] have "engine_frame w w1" .
  then show "RuleEvaluationsTotal (tel w') =
      inc (rule_ID rule, rr_Matched r) (RuleEvaluationsTotal (tel w))"
    and "RuleEvalErrorsTotal (tel w') =
      (if rr_Err r \<noteq> None then inc (rule_ID rule) (RuleEvalErrorsTotal (tel w))
       else RuleEvalErrorsTotal (tel w))"
    and "DecisionsTotal (tel w') = DecisionsTotal (tel w)"
    using assms(2) i rule_contractD(1) [OF assms(1), of c state byID w]
    by (auto simp: eval_one_def engine_frame_def failed_def well_formed_def world_simps
        split: sum.splits)
qed

text \<open>
  What a constructor of \<open>internal/rules\<close> promises the loader: it is the interface between the
  four rule types and the engine. A rule it returns has the id of its configuration, and it keeps
  the contract if the collaborators that the configuration hands over (a clock, a Redis client)
  are \<open>lawful\<close>.
\<close>

locale rule_constructor =
  fixes construct :: "'cfg \<Rightarrow> gerror + 'm"
    and iface :: "'m \<Rightarrow> 'r rule"
    and config_id :: "'cfg \<Rightarrow> string"
    and lawful :: "'cfg \<Rightarrow> bool"
  assumes construct_contract: "construct cfg = Inr m \<Longrightarrow> lawful cfg \<Longrightarrow> rule_contract (iface m)"
    and construct_id: "construct cfg = Inr m \<Longrightarrow> rule_ID (iface m) = config_id cfg"
    and construct_returns: "construct cfg \<noteq> Inl NoReturn"
begin

lemma constructed_result:
  "construct cfg = Inr m \<Longrightarrow> lawful cfg \<Longrightarrow> invoke (iface m) c state byID w = (Inr r, w') \<Longrightarrow>
     well_formed (config_id cfg) r"
  using rule_contractD(1) [OF construct_contract] construct_id by metis

end

section \<open>The loop over rules that keep the contract\<close>

text \<open>
  \<open>evaluations i m rs\<close> and \<open>errors i rs\<close> count the results that the counters count.
\<close>

definition evaluations :: "string \<Rightarrow> bool \<Rightarrow> RuleResult list \<Rightarrow> nat" where
  "evaluations i m rs = length (filter (\<lambda>r. rr_RuleID r = i \<and> rr_Matched r = m) rs)"

definition eval_errors :: "string \<Rightarrow> RuleResult list \<Rightarrow> nat" where
  "eval_errors i rs = length (filter (\<lambda>r. rr_RuleID r = i \<and> rr_Err r \<noteq> None) rs)"

definition loop_post :: "'r rule list \<Rightarrow> 'r world \<Rightarrow> RuleResult list \<Rightarrow> 'r world \<Rightarrow> bool" where
  "loop_post rules w rs w' \<longleftrightarrow>
     map rr_RuleID rs = map rule_ID rules \<and>
     (\<forall>r \<in> set rs. rr_Matched r \<longrightarrow> well_formed (rr_RuleID r) r) \<and>
     (\<forall>i m. RuleEvaluationsTotal (tel w') (i, m) =
        RuleEvaluationsTotal (tel w) (i, m) + evaluations i m rs) \<and>
     (\<forall>i. RuleEvalErrorsTotal (tel w') i = RuleEvalErrorsTotal (tel w) i + eval_errors i rs) \<and>
     DecisionsTotal (tel w') = DecisionsTotal (tel w)"

text \<open>A feature provider and an audit sink that leave alone what only the engine writes.\<close>

definition collaborators_frame :: "'r RuleEngine \<Rightarrow> bool" where
  "collaborators_frame e \<longleftrightarrow>
     (\<forall>provider. re_featureProvider e = Some provider \<longrightarrow> (\<forall>c a w. engine_frame w (snd (provider c a w)))) \<and>
     (\<forall>sink. re_audit e = Some sink \<longrightarrow> (\<forall>c r w. engine_frame w (sink c r w)))"

lemma lookup_features_frame:
  assumes "collaborators_frame e" and "lookup_features e c req w = (state, w')"
  shows "engine_frame w w'"
proof (cases "re_featureProvider e")
  case None
  with assms(2) show ?thesis by (simp add: lookup_features_def)
next
  case (Some provider)
  with assms(1) have "engine_frame w (snd (provider c (dr_ActorID req) w))"
    by (simp add: collaborators_frame_def)
  with Some assms(2) show ?thesis by (auto simp: lookup_features_def Let_def split: prod.splits)
qed

lemma respond_rule_counters:
  assumes "collaborators_frame e" and "respond e c req state started results w = (response, w')"
  shows "RuleEvaluationsTotal (tel w') = RuleEvaluationsTotal (tel w)"
    and "RuleEvalErrorsTotal (tel w') = RuleEvalErrorsTotal (tel w)"
proof -
  have sink: "re_audit e = Some sink \<Longrightarrow> engine_frame w0 (sink c r w0)" for sink r w0
    using assms(1) by (simp add: collaborators_frame_def)
  show "RuleEvaluationsTotal (tel w') = RuleEvaluationsTotal (tel w)"
    "RuleEvalErrorsTotal (tel w') = RuleEvalErrorsTotal (tel w)"
    using assms(2) sink
    by (auto simp: respond_def Let_def time_since_def time_now_def new_uuid_def tel_upd_def engine_frame_def
        split: option.splits)
qed

text \<open>
  The results of the loop, one after the other: each is one evaluation of its rule, with
  the results of the rules before it in the map.
\<close>

fun evaluated_in_order ::
    "ctx \<Rightarrow> EvalState \<Rightarrow> 'r rule list \<Rightarrow> (string \<rightharpoonup> RuleResult) \<Rightarrow> RuleResult list \<Rightarrow> bool" where
  "evaluated_in_order c state [] byID rs \<longleftrightarrow> rs = []"
| "evaluated_in_order c state (rule # rules) byID rs \<longleftrightarrow>
     (\<exists>r rs' w w'. rs = r # rs' \<and> eval_one c state byID rule w = (r, w') \<and>
        evaluated_in_order c state rules (byID(rule_ID rule \<mapsto> r)) rs')"

lemma eval_rules_order:
  "eval_rules c state rules results byID w = (Inr out, w') \<Longrightarrow>
     \<exists>rs. out = results @ rs \<and> evaluated_in_order c state rules byID rs"
proof (induction rules arbitrary: results byID w)
  case Nil
  then show ?case by simp
next
  case (Cons rule rules)
  from Cons.prems obtain r w1 where one: "eval_one c state byID rule (snd (poll c w)) = (r, w1)"
    and rest: "eval_rules c state rules (results @ [r]) (byID(rule_ID rule \<mapsto> r)) w1 = (Inr out, w')"
    by (auto simp: poll_def split: option.splits prod.splits)
  from Cons.IH [OF rest] obtain rs where out: "out = (results @ [r]) @ rs"
    and order: "evaluated_in_order c state rules (byID(rule_ID rule \<mapsto> r)) rs" by blast
  from one order have "evaluated_in_order c state (rule # rules) byID (r # rs)"
    unfolding evaluated_in_order.simps by blast
  with out show ?case by (intro exI [of _ "r # rs"]) simp
qed

lemma eval_rules_in_order:
  "eval_rules c state rules [] byID w = (Inr rs, w') \<Longrightarrow> evaluated_in_order c state rules byID rs"
  using eval_rules_order by fastforce

text \<open>The map that a rule in the middle sees.\<close>

lemma evaluated_in_order_middle:
  "evaluated_in_order c state (pre @ rule # post) byID rs \<Longrightarrow>
     \<exists>pre_rs r post_rs byID' w w'. rs = pre_rs @ r # post_rs \<and> length pre_rs = length pre \<and>
       eval_one c state byID' rule w = (r, w') \<and> dom byID' = dom byID \<union> rule_ID ` set pre"
proof (induction pre arbitrary: byID rs)
  case Nil
  then obtain r rs' w w' where "rs = r # rs'" "eval_one c state byID rule w = (r, w')" by auto
  then show ?case by (intro exI [of _ "[]"] exI [of _ r] exI [of _ rs'] exI [of _ byID]) auto
next
  case (Cons p pre)
  then obtain r0 rs' where rs: "rs = r0 # rs'"
    and rest: "evaluated_in_order c state (pre @ rule # post) (byID(rule_ID p \<mapsto> r0)) rs'" by auto
  from Cons.IH [OF rest] obtain pre_rs r post_rs byID' w w' where
    rs': "rs' = pre_rs @ r # post_rs" and len: "length pre_rs = length pre"
    and one: "eval_one c state byID' rule w = (r, w')"
    and seen: "dom byID' = dom (byID(rule_ID p \<mapsto> r0)) \<union> rule_ID ` set pre" by (elim exE conjE) (rule that)
  have "rs = (r0 # pre_rs) @ r # post_rs" by (simp add: rs rs')
  moreover have "length (r0 # pre_rs) = length (p # pre)" by (simp add: len)
  moreover have "dom byID' = dom byID \<union> rule_ID ` set (p # pre)" by (simp add: seen)
  ultimately show ?case using one by (intro exI conjI)
qed

locale rule_set =
  fixes rules :: "'r rule list"
  assumes lawful: "rule \<in> set rules \<Longrightarrow> rule_contract rule"
begin

lemma eval_rules_post:
  assumes "set rules' \<subseteq> set rules"
    and "eval_rules c state rules' results byID w = (Inr out, w')"
  shows "\<exists>rs. out = results @ rs \<and> loop_post rules' w rs w'"
  using assms
proof (induction rules' arbitrary: results byID w)
  case Nil
  then show ?case by (simp add: loop_post_def evaluations_def eval_errors_def)
next
  case (Cons rule rules')
  then have contract: "rule_contract rule" using lawful by simp
  from Cons.prems obtain r w1 where live: "c (polls w) = None"
    and one: "eval_one c state byID rule (snd (poll c w)) = (r, w1)"
    and rest: "eval_rules c state rules' (results @ [r]) (byID(rule_ID rule \<mapsto> r)) w1 = (Inr out, w')"
    by (auto simp: poll_def split: option.splits prod.splits)
  from Cons.IH [OF _ rest] Cons.prems(1) obtain rs
    where out: "out = (results @ [r]) @ rs" and post: "loop_post rules' w1 rs w'"
    by auto
  have "loop_post (rule # rules') w (r # rs) w'"
    using post eval_one_result(1,2) [OF contract one]
      eval_one_counters [OF contract one]
    by (auto simp: loop_post_def evaluations_def eval_errors_def inc_apply world_simps)
  with out show ?case by auto
qed

text \<open>
  A successful decision of an engine with these rules: the results behind it name the rules in
  order, each comes from one evaluation of its rule on the results of the rules before it, the
  response is their combination, and the collectors count them.
\<close>

lemma decision:
  assumes "re_rules e = rules" and "collaborators_frame e"
    and "RuleEngine_Evaluate e c req w = (Inr response, w')"
  shows "\<exists>rs state. map rr_RuleID rs = map rule_ID rules \<and>
    (\<forall>r \<in> set rs. rr_Matched r \<longrightarrow> well_formed (rr_RuleID r) r) \<and>
    evaluated_in_order c state rules Map.empty rs \<and>
    dp_Verdict response = dp_Verdict (Combine rs) \<and> dp_Reasons response = dp_Reasons (Combine rs) \<and>
    dp_EvaluatedRules response = map rule_ID rules \<and>
    (\<forall>i m. RuleEvaluationsTotal (tel w') (i, m) = RuleEvaluationsTotal (tel w) (i, m) + evaluations i m rs) \<and>
    (\<forall>i. RuleEvalErrorsTotal (tel w') i = RuleEvalErrorsTotal (tel w) i + eval_errors i rs)"
proof (cases rule: RuleEngine_Evaluate_cases [of c e req w])
  case (cancelled n ce w'')
  with assms(3) show ?thesis by simp
next
  case (decided started w1 state w2 results w3 response' w'')
  with assms have resp: "respond e c req state started results w3 = (response, w')"
    and rules: "eval_rules c state rules [] Map.empty w2 = (Inr results, w3)" by simp_all
  from eval_rules_post [OF subset_refl rules] have post: "loop_post rules w2 results w3" by auto
  have "engine_frame w (snd (poll c w1))"
    using decided(1) by (auto simp: engine_frame_def poll_def time_now_def)
  then have before: "engine_frame w w2"
    using lookup_features_frame [OF assms(2) decided(3)] by (rule engine_frame_trans)
  from respond_rule_counters [OF assms(2) resp] before post respond_fields [OF resp]
    eval_rules_in_order [OF rules]
  show ?thesis
    by (intro exI [of _ results] exI [of _ state]) (simp add: loop_post_def engine_frame_def)
qed

end

section \<open>Properties\<close>

text \<open>
  C2. The engine fails open, whatever its rules, its feature provider and its audit sink do:
  a decision has one of the three verdicts and comes with the engine's rules version, and the
  only error \<open>Evaluate\<close> ever returns is the error of a finished context. So with a live
  context every request is answered.
\<close>

theorem engine_fails_open:
  "case fst (RuleEngine_Evaluate e c req w) of
     Inl err \<Rightarrow> \<exists>n ce. c n = Some ce \<and> err = CtxErr ce
   | Inr response \<Rightarrow>
       dp_Verdict response \<in> {VerdictAllow, VerdictFlag, VerdictBlock} \<and>
       dp_RulesVersion response = re_rulesVersion e"
proof (cases rule: RuleEngine_Evaluate_cases [of c e req w])
  case (cancelled n ce w')
  then show ?thesis by auto
next
  case (decided started w1 state w2 results w3 response w')
  then show ?thesis
    using respond_fields [OF decided(5)] Combine_known [of results] by (simp add: known_verdict_def)
qed

text \<open>
  C20. Auditing is transparent and complete. An audit sink never changes what the caller gets, and when
  the evaluation fails nothing is handed over. After a decision the world is the one that the engine without
  a sink leaves, then one reading of the clock, then one call of the sink and nothing else; the record of
  that call has the fields of the response and of the request, and the time that the evaluation took.
\<close>

theorem engine_audit:
  "case RuleEngine_Evaluate (e\<lparr>re_audit := None\<rparr>) c req w of
     (Inl err, w1) \<Rightarrow> RuleEngine_Evaluate (WithAuditSink sink e) c req w = (Inl err, w1)
   | (Inr response, w1) \<Rightarrow>
       (\<exists>entry. RuleEngine_Evaluate (WithAuditSink sink e) c req w =
            (Inr response, sink c entry (snd (time_now w1))) \<and>
          ar_DecisionID entry = dp_DecisionID response \<and>
          ar_Verdict entry = dp_Verdict response \<and> ar_Score entry = dp_Score response \<and>
          ar_Reasons entry = dp_Reasons response \<and>
          ar_EvaluatedRules entry = dp_EvaluatedRules response \<and>
          ar_RulesVersion entry = dp_RulesVersion response \<and>
          ar_Request entry = req \<and> ar_ActorID entry = dr_ActorID req \<and>
          ar_ActionType entry = ac_Type (dr_Action req) \<and>
          ar_Platform entry = ac_Platform (dr_Action req) \<and> ar_Client entry = dr_ClientID req \<and>
          ar_LatencyUS entry = go_div (clock w1 (ticks w1) - clock w (ticks w)) 1000)"
  unfolding Evaluate_audited
  by (auto simp: audit_record_def microseconds_def split: prod.split sum.split)

text \<open>A run that the witnesses evaluate: one rule that blocks, a sink that keeps the records.\<close>

definition blocking_rule :: "AuditRecord list rule" where
  "blocking_rule = \<lparr>rule_ID = ''r'', rule_Evaluate = (\<lambda>_ _ w. (Inr (matched ''r'' VerdictBlock ''code''), w)),
     rule_Aware = None\<rparr>"

definition erring_rule :: "'r rule" where
  "erring_rule = \<lparr>rule_ID = ''bad'', rule_Evaluate = (\<lambda>_ _ w. (Inl (ExtErr ''down''), w)),
     rule_Aware = None\<rparr>"

definition collect :: "AuditRecord list AuditSink" where
  "collect c r w = w\<lparr>ext := ext w @ [r]\<rparr>"

definition sample_request :: DecideRequest where
  "sample_request = \<lparr>dr_ActorID = ''a1'', dr_Action = \<lparr>ac_Type = ''publish'', ac_Platform = ''yt''\<rparr>,
     dr_Content = \<lparr>cc_Title = ''demo'', cc_Description = [], cc_DurationS = 30, cc_Tags = []\<rparr>,
     dr_Context = None, dr_ClientID = ''local'', dr_RequestID = ''q1''\<rparr>"

definition start_world :: "'r \<Rightarrow> 'r world" where
  "start_world r = \<lparr>polls = 0, clock = (\<lambda>n. int n * 1000000), ticks = 0,
     uuid_src = (\<lambda>n. replicate n CHR ''u''), uuids = 1, tel = telemetry_init, ext = r\<rparr>"

theorem engine_audit_witness:
  "\<exists>response w' entry.
     RuleEngine_Evaluate (WithAuditSink collect (NewRuleEngine ''v1'' [erring_rule, blocking_rule]))
       background sample_request (start_world []) = (Inr response, w') \<and>
     ext w' = [entry] \<and> ar_Verdict entry = VerdictBlock \<and>
     dp_Verdict response = VerdictBlock \<and> ar_Request entry = sample_request \<and> ar_LatencyUS entry = 3000"
proof -
  let ?e = "NewRuleEngine ''v1'' [erring_rule, blocking_rule]"
  obtain response w1 where run: "RuleEngine_Evaluate (?e\<lparr>re_audit := None\<rparr>) background sample_request
      (start_world []) = (Inr response, w1)"
    and block: "dp_Verdict response = VerdictBlock" "ext w1 = []" "ticks w1 = 3"
      "clock w1 = clock (start_world [] :: AuditRecord list world)"
    by (auto simp: RuleEngine_Evaluate_def NewRuleEngine_def erring_rule_def
        blocking_rule_def time_now_def poll_def lookup_features_def Let_def eval_one_def invoke_def
        respond_def time_since_def new_uuid_def Combine_def combine_step_def combine_init_def
        failed_def matched_def tel_upd_def start_world_def)
  from engine_audit [where e = ?e and c = background and req = sample_request and w = "start_world []" and sink = collect] run obtain entry where
    "RuleEngine_Evaluate (WithAuditSink collect ?e) background sample_request (start_world []) =
       (Inr response, collect background entry (snd (time_now w1)))"
    "ar_Verdict entry = dp_Verdict response" "ar_Request entry = sample_request"
    "ar_LatencyUS entry = go_div (clock w1 (ticks w1) - clock (start_world [] :: AuditRecord list world) 0) 1000"
    by (auto simp: start_world_def)
  with block show ?thesis by (auto simp: collect_def time_now_def start_world_def go_div_def)
qed

text \<open>
  C23. Degraded features are reported and nothing else is: the response carries metadata exactly when
  the feature provider said that it could not answer, and it is then the one warning
  \<open>feature_provider_unavailable\<close>; the rules still run, on what the provider returned. This holds for any
  rules and any sink, so a rule that returns an error and a sink that loses the record leave no
  warning in the response, where the README (fail-open at every boundary) promises explicit warning metadata for them too.
\<close>

theorem engine_degraded_warning:
  assumes "RuleEngine_Evaluate (WithFeatureProvider provider e) c req w = (Inr response, w')"
    and "time_now w = (started, w1)" and "poll c w1 = (None, w2)"
    and "provider c (dr_ActorID req) w2 = ((features, degraded), w3)"
  shows "dp_Metadata response =
      (if degraded then Some [''warnings'' \<mapsto> AStrings [''feature_provider_unavailable'']] else None) \<and>
    (\<exists>results w4.
       eval_rules c \<lparr>es_Request = req, es_Features = features, es_FeatureDegraded = degraded,
           es_DegradedWarnings = (if degraded then [''feature_provider_unavailable''] else [])\<rparr>
         (re_rules e) [] Map.empty w3 = (Inr results, w4) \<and>
       dp_Verdict response = dp_Verdict (Combine results))"
proof (cases rule: RuleEngine_Evaluate_cases [of c "WithFeatureProvider provider e" req w])
  case (cancelled n ce w'')
  with assms show ?thesis by simp
next
  case (decided started' u1 state u2 results u3 response' w'')
  with assms(1) have resp: "respond (WithFeatureProvider provider e) c req state started' results u3
      = (response, w')" by simp
  from assms(2,3) decided(1) have "snd (poll c u1) = w2" by simp
  with decided(3) assms(4) have state:
    "state = \<lparr>es_Request = req, es_Features = features, es_FeatureDegraded = degraded,
       es_DegradedWarnings = (if degraded then [''feature_provider_unavailable''] else [])\<rparr>"
    and u2: "u2 = w3"
    by (auto simp: lookup_features_def WithFeatureProvider_def Let_def)
  with decided(4) have "eval_rules c state (re_rules e) [] Map.empty w3 = (Inr results, u3)"
    by (simp add: WithFeatureProvider_def)
  with state respond_fields(1,5) [OF resp] show ?thesis by auto
qed

definition down_provider :: "'r FeatureProvider" where
  "down_provider c i w = ((zero_ActorFeatures, True), w)"

definition answering_provider :: "'r FeatureProvider" where
  "answering_provider c i w = ((zero_ActorFeatures, False), w)"

theorem engine_degraded_warning_witness:
  "\<exists>response w' response2 w2.
     RuleEngine_Evaluate (WithFeatureProvider down_provider (NewRuleEngine ''v1'' [erring_rule]))
       background sample_request (start_world ()) = (Inr response, w') \<and>
     dp_Metadata response =
       Some [''warnings'' \<mapsto> AStrings [''feature_provider_unavailable'']] \<and>
     RuleEngine_Evaluate (WithFeatureProvider answering_provider (NewRuleEngine ''v1'' [erring_rule]))
       background sample_request (start_world ()) = (Inr response2, w2) \<and>
     dp_Metadata response2 = None \<and> dp_EvaluatedRules response2 = [''bad''] \<and>
     RuleEvalErrorsTotal (tel w2) ''bad'' = 1"
proof -
  let ?e = "NewRuleEngine ''v1'' [erring_rule]"
  let ?w = "start_world ()"
  let ?w1 = "snd (poll background (snd (time_now ?w)))"
  have p: "poll background (snd (time_now ?w)) = (None, ?w1)" by (simp add: poll_def)
  obtain response w' where down: "RuleEngine_Evaluate (WithFeatureProvider down_provider ?e) background
      sample_request ?w = (Inr response, w')"
    using RuleEngine_Evaluate_live [of background] by fastforce
  obtain response2 w2 where up: "RuleEngine_Evaluate (WithFeatureProvider answering_provider ?e) background
      sample_request ?w = (Inr response2, w2)"
    using RuleEngine_Evaluate_live [of background] by fastforce
  from up have "dp_EvaluatedRules response2 = [''bad'']" "RuleEvalErrorsTotal (tel w2) ''bad'' = 1"
    by (auto simp: RuleEngine_Evaluate_def NewRuleEngine_def WithFeatureProvider_def erring_rule_def
        answering_provider_def time_now_def poll_def lookup_features_def Let_def eval_one_def invoke_def
        respond_def time_since_def new_uuid_def Combine_def combine_step_def combine_init_def
        failed_def tel_upd_def start_world_def telemetry_init_def inc_def)
  with engine_degraded_warning [OF down surjective_pairing p down_provider_def]
    engine_degraded_warning [OF up surjective_pairing p answering_provider_def] down up
  show ?thesis by (intro exI [of _ response] exI [of _ w'] exI [of _ response2] exI [of _ w2]) simp
qed

end
