(* ===== verification/Go_Strings.thy ===== *)
theory Go_Strings
  imports Prelude "HOL-Library.Sublist" "HOL-Library.Char_ord"
begin

text \<open>
  What the service uses of Go's \<open>strings\<close> and \<open>unicode/utf8\<close> packages: \<open>TrimSpace\<close>,
  \<open>ToLower\<close>, \<open>Join\<close>, \<open>Split\<close> on a byte and the decimal format \<open>%d\<close>. Strings are sequences of bytes and need
  not be valid UTF-8. The one thing left as a parameter is the Unicode case table: \<open>ulow\<close> gives
  the lower case of a code point above ASCII.
\<close>

section \<open>TrimSpace\<close>

text \<open>
  The UTF-8 encodings of the code points for which \<open>unicode.IsSpace\<close> holds. An encoding that starts
  a string is its first rune, and one that ends it is its last, so \<open>TrimSpace\<close> strips these byte
  sequences from both ends.
\<close>

definition spaces :: "string list" where
  "spaces = [[CHR 0x09], [CHR 0x0A], [CHR 0x0B], [CHR 0x0C], [CHR 0x0D], [CHR 0x20],
     [CHR 0xC2, CHR 0x85], [CHR 0xC2, CHR 0xA0], [CHR 0xE1, CHR 0x9A, CHR 0x80],
     [CHR 0xE2, CHR 0x80, CHR 0x80], [CHR 0xE2, CHR 0x80, CHR 0x81], [CHR 0xE2, CHR 0x80, CHR 0x82],
     [CHR 0xE2, CHR 0x80, CHR 0x83], [CHR 0xE2, CHR 0x80, CHR 0x84], [CHR 0xE2, CHR 0x80, CHR 0x85],
     [CHR 0xE2, CHR 0x80, CHR 0x86], [CHR 0xE2, CHR 0x80, CHR 0x87], [CHR 0xE2, CHR 0x80, CHR 0x88],
     [CHR 0xE2, CHR 0x80, CHR 0x89], [CHR 0xE2, CHR 0x80, CHR 0x8A], [CHR 0xE2, CHR 0x80, CHR 0xA8],
     [CHR 0xE2, CHR 0x80, CHR 0xA9], [CHR 0xE2, CHR 0x80, CHR 0xAF], [CHR 0xE2, CHR 0x81, CHR 0x9F],
     [CHR 0xE3, CHR 0x80, CHR 0x80]]"

lemma spaces_nonempty: "e \<in> set spaces \<Longrightarrow> e \<noteq> []"
  by (auto simp: spaces_def)

lemma find_Some_set: "find P xs = Some x \<Longrightarrow> x \<in> set xs \<and> P x"
  by (induction xs) (auto split: if_splits)

function trim_left :: "string \<Rightarrow> string" where
  "trim_left s =
     (case find (\<lambda>e. prefix e s) spaces of None \<Rightarrow> s | Some e \<Rightarrow> trim_left (drop (length e) s))"
  by pat_completeness auto
termination
proof (relation "measure length", simp)
  fix s e
  assume "find (\<lambda>e. prefix e s) spaces = Some e"
  then have "e \<in> set spaces" "prefix e s" by (auto dest: find_Some_set)
  with spaces_nonempty show "(drop (length e) s, s) \<in> measure length"
    by (auto simp: prefix_def)
qed

function trim_right :: "string \<Rightarrow> string" where
  "trim_right s =
     (case find (\<lambda>e. suffix e s) spaces of
        None \<Rightarrow> s | Some e \<Rightarrow> trim_right (take (length s - length e) s))"
  by pat_completeness auto
termination
proof (relation "measure length", simp)
  fix s e
  assume "find (\<lambda>e. suffix e s) spaces = Some e"
  then have "e \<in> set spaces" "suffix e s" by (auto dest: find_Some_set)
  with spaces_nonempty show "(take (length s - length e) s, s) \<in> measure length"
    by (auto simp: suffix_def)
qed

declare trim_left.simps [simp del] trim_right.simps [simp del]

definition TrimSpace :: "string \<Rightarrow> string" where
  "TrimSpace s = trim_right (trim_left s)"

lemma trim_left_Nil [simp]: "trim_left [] = []"
  by (subst trim_left.simps) (auto simp: spaces_def)

lemma trim_right_Nil [simp]: "trim_right [] = []"
  by (subst trim_right.simps) (auto simp: spaces_def)

lemma TrimSpace_Nil [simp]: "TrimSpace [] = []"
  by (simp add: TrimSpace_def)

section \<open>Runes\<close>

text \<open>\<open>utf8.DecodeRune\<close>: the first rune and its width, \<open>RuneError\<close> and 1 for an invalid sequence.\<close>

definition RuneError :: nat where "RuneError = 0xFFFD"

definition cont :: "nat \<Rightarrow> nat \<Rightarrow> char \<Rightarrow> bool" where
  "cont lo hi c \<longleftrightarrow> lo \<le> of_char c \<and> of_char c \<le> hi"

definition decode_rune :: "char \<Rightarrow> string \<Rightarrow> nat \<times> nat" where
  "decode_rune c cs =
     (let b = of_char c :: nat in
      if b < 0x80 then (b, 1)
      else if 0xC2 \<le> b \<and> b \<le> 0xDF then
        (case cs of
           c1 # _ \<Rightarrow>
             if cont 0x80 0xBF c1 then ((b - 0xC0) * 64 + (of_char c1 - 0x80), 2) else (RuneError, 1)
         | _ \<Rightarrow> (RuneError, 1))
      else if 0xE0 \<le> b \<and> b \<le> 0xEF then
        (case cs of
           c1 # c2 # _ \<Rightarrow>
             if cont (if b = 0xE0 then 0xA0 else 0x80) (if b = 0xED then 0x9F else 0xBF) c1 \<and>
                cont 0x80 0xBF c2
             then ((b - 0xE0) * 4096 + (of_char c1 - 0x80) * 64 + (of_char c2 - 0x80), 3)
             else (RuneError, 1)
         | _ \<Rightarrow> (RuneError, 1))
      else if 0xF0 \<le> b \<and> b \<le> 0xF4 then
        (case cs of
           c1 # c2 # c3 # _ \<Rightarrow>
             if cont (if b = 0xF0 then 0x90 else 0x80) (if b = 0xF4 then 0x8F else 0xBF) c1 \<and>
                cont 0x80 0xBF c2 \<and> cont 0x80 0xBF c3
             then ((b - 0xF0) * 262144 + (of_char c1 - 0x80) * 4096 + (of_char c2 - 0x80) * 64 +
                   (of_char c3 - 0x80), 4)
             else (RuneError, 1)
         | _ \<Rightarrow> (RuneError, 1))
      else (RuneError, 1))"

lemma decode_rune_width: "0 < snd (decode_rune c cs)"
  by (auto simp: decode_rune_def Let_def split: list.splits)

function runes :: "string \<Rightarrow> nat list" where
  "runes [] = []"
| "runes (c # cs) =
     fst (decode_rune c cs) # runes (drop (snd (decode_rune c cs)) (c # cs))"
  by pat_completeness auto
termination
proof (relation "measure length", simp)
  fix c cs
  show "(drop (snd (decode_rune c cs)) (c # cs), c # cs) \<in> measure length"
    using decode_rune_width [of c cs] by simp
qed

text \<open>\<open>utf8.AppendRune\<close>: surrogates and values above the last code point become \<open>RuneError\<close>.\<close>

definition encode_rune :: "nat \<Rightarrow> string" where
  "encode_rune r =
     map char_of
       (if r < 0x80 then [r]
        else if r < 0x800 then [0xC0 + r div 64, 0x80 + r mod 64]
        else if (0xD800 \<le> r \<and> r \<le> 0xDFFF) \<or> 0x10FFFF < r then [0xEF, 0xBF, 0xBD]
        else if r < 0x10000 then [0xE0 + r div 4096, 0x80 + r div 64 mod 64, 0x80 + r mod 64]
        else [0xF0 + r div 262144, 0x80 + r div 4096 mod 64, 0x80 + r div 64 mod 64,
              0x80 + r mod 64])"

section \<open>ToLower\<close>

definition ascii :: "string \<Rightarrow> bool" where
  "ascii s \<longleftrightarrow> list_all (\<lambda>c. of_char c < (0x80 :: nat)) s"

definition lower_rune :: "(nat \<Rightarrow> nat) \<Rightarrow> nat \<Rightarrow> nat" where
  "lower_rune ulow r =
     (if r < 0x80 then (if 0x41 \<le> r \<and> r \<le> 0x5A then r + 0x20 else r) else ulow r)"

definition lower_byte :: "char \<Rightarrow> char" where
  "lower_byte c =
     (if 0x41 \<le> (of_char c :: nat) \<and> of_char c \<le> (0x5A :: nat) then char_of (of_char c + (0x20 :: nat)) else c)"

definition ToLower :: "(nat \<Rightarrow> nat) \<Rightarrow> string \<Rightarrow> string" where
  "ToLower ulow s =
     (if ascii s then map lower_byte s
      else concat (map (encode_rune \<circ> lower_rune ulow) (runes s)))"

lemma ToLower_ascii: "ascii s \<Longrightarrow> ToLower ulow s = map lower_byte s"
  by (simp add: ToLower_def)

lemma ToLower_Nil [simp]: "ToLower ulow [] = []"
  by (simp add: ToLower_def ascii_def)

section \<open>Join, Split and decimal numbers\<close>

fun Join :: "string list \<Rightarrow> string \<Rightarrow> string" where
  "Join [] sep = []"
| "Join [s] sep = s"
| "Join (s # t # ss) sep = s @ sep @ Join (t # ss) sep"

fun Split :: "string \<Rightarrow> char \<Rightarrow> string list" where
  "Split [] sep = [[]]"
| "Split (c # cs) sep =
     (if c = sep then [] # Split cs sep
      else case Split cs sep of [] \<Rightarrow> [[c]] | s # ss \<Rightarrow> (c # s) # ss)"

definition digit :: "nat \<Rightarrow> char" where
  "digit d = char_of (0x30 + d)"

fun format_nat :: "nat \<Rightarrow> string" where
  "format_nat n = (if n < 10 then [digit n] else format_nat (n div 10) @ [digit (n mod 10)])"

declare format_nat.simps [simp del]

definition format_int :: "int \<Rightarrow> string" where
  "format_int i = (if i < 0 then CHR ''-'' # format_nat (nat (- i)) else format_nat (nat i))"

lemma Split_nonempty [simp]: "Split s sep \<noteq> []"
  by (cases s) (auto split: list.split)

lemma Split_pieces: "p \<in> set (Split s sep) \<Longrightarrow> sep \<notin> set p"
  by (induction s arbitrary: p) (auto split: if_splits list.splits)

lemma Join_Split: "Join (Split s sep) [sep] = s"
proof (induction s)
  case (Cons c cs)
  then show ?case
    by (cases "Split cs sep"; cases "tl (Split cs sep)") (auto split: list.splits)
qed simp

text \<open>What a decimal number reads back as, and which bytes it is made of.\<close>

definition is_digit :: "char \<Rightarrow> bool" where
  "is_digit c \<longleftrightarrow> (0x30 :: nat) \<le> of_char c \<and> of_char c \<le> (0x39 :: nat)"

definition digits_val :: "string \<Rightarrow> nat" where
  "digits_val s = foldl (\<lambda>v c. 10 * v + (of_char c - 0x30)) 0 s"

lemma of_char_digit: "d < 10 \<Longrightarrow> of_char (digit d) = (0x30 + d :: nat)"
  by (simp add: digit_def)

lemma is_digit_digit: "d < 10 \<Longrightarrow> is_digit (digit d)"
  by (simp add: is_digit_def of_char_digit)

lemma format_nat_digits: "c \<in> set (format_nat n) \<Longrightarrow> is_digit c"
proof (induction n rule: format_nat.induct)
  case (1 n)
  then show ?case
    by (cases "n < 10") (auto simp: format_nat.simps [of n] is_digit_digit)
qed

lemma format_nat_nonempty [simp]: "format_nat n \<noteq> []"
  by (subst format_nat.simps) simp

lemma digits_val_format_nat [simp]: "digits_val (format_nat n) = n"
proof (induction n rule: format_nat.induct)
  case (1 n)
  then show ?case
    by (cases "n < 10") (simp_all add: format_nat.simps [of n] digits_val_def of_char_digit)
qed

lemma not_digit [simp]: "\<not> is_digit CHR '':''" "\<not> is_digit CHR ''-''"
  by (simp_all add: is_digit_def)

lemma format_int_colon: "CHR '':'' \<notin> set (format_int i)"
  using format_nat_digits [of "CHR '':''"] by (auto simp: format_int_def)

lemma format_int_inj: "format_int i = format_int j \<Longrightarrow> i = j"
proof -
  have minus: "format_nat n \<noteq> CHR ''-'' # s" for n s
    using format_nat_digits [of "CHR ''-''" n] not_digit by (metis list.set_intros(1))
  have nat: "format_nat m = format_nat n \<Longrightarrow> m = n" for m n
    by (metis digits_val_format_nat)
  assume "format_int i = format_int j"
  then show ?thesis
    using minus minus [symmetric] nat [of "nat i" "nat j"] nat [of "nat (- i)" "nat (- j)"]
    by (auto simp: format_int_def split: if_splits)
qed

section \<open>Sscanf\<close>

text \<open>
  \<open>fmt.Sscanf(s, "%d", &v)\<close> for an \<open>int64\<close>: leading space is skipped (a newline is an error),
  then an optional sign and at least one digit are read, and the rest of the string is left
  alone. The value has to fit 64 bits.
\<close>

function scan_spaces :: "string \<Rightarrow> string option" where
  "scan_spaces s =
     (case find (\<lambda>e. prefix e s) spaces of
        None \<Rightarrow> Some s
      | Some e \<Rightarrow> if e = [CHR 0x0A] then None else scan_spaces (drop (length e) s))"
  by pat_completeness auto
termination
proof (relation "measure length", simp)
  fix s e
  assume "find (\<lambda>e. prefix e s) spaces = Some e"
  then have "e \<in> set spaces" "prefix e s" by (auto dest: find_Some_set)
  with spaces_nonempty show "(drop (length e) s, s) \<in> measure length"
    by (auto simp: prefix_def)
qed

declare scan_spaces.simps [simp del]

definition int64 :: "int \<Rightarrow> bool" where
  "int64 i \<longleftrightarrow> - (2 ^ 63) \<le> i \<and> i < 2 ^ 63"

definition Sscanf_d :: "string \<Rightarrow> gerror + int" where
  "Sscanf_d s =
     (case scan_spaces s of
        None \<Rightarrow> Inl (ExtErr ''unexpected newline'')
      | Some [] \<Rightarrow> Inl (ExtErr ''unexpected EOF'')
      | Some (c # cs) \<Rightarrow>
          let neg = (c = CHR ''-'');
              ds = takeWhile is_digit (if c = CHR ''-'' \<or> c = CHR ''+'' then cs else c # cs);
              v = (if neg then - int (digits_val ds) else int (digits_val ds))
          in if ds = [] then Inl (ExtErr ''expected integer'')
             else if int64 v then Inr v else Inl (ExtErr ''integer overflow''))"

lemma spaces_hd: "e \<in> set spaces \<Longrightarrow> \<not> is_digit (hd e)"
  by (auto simp: spaces_def is_digit_def)

lemma scan_spaces_digit:
  assumes "is_digit c"
  shows "scan_spaces (c # cs) = Some (c # cs)"
proof -
  have "\<not> prefix e (c # cs)" if "e \<in> set spaces" for e
    using spaces_hd [OF that] spaces_nonempty [OF that] assms by (cases e) auto
  then have "find (\<lambda>e. prefix e (c # cs)) spaces = None" by (simp add: find_None_iff)
  then show ?thesis by (subst scan_spaces.simps) simp
qed

text \<open>Reading back a number that was formatted in decimal.\<close>

lemma Sscanf_d_format_nat: "int n < 2 ^ 63 \<Longrightarrow> Sscanf_d (format_nat n) = Inr (int n)"
proof -
  assume n: "int n < 2 ^ 63"
  obtain c cs where f: "format_nat n = c # cs" by (cases "format_nat n") auto
  have tw: "takeWhile is_digit (c # cs) = c # cs"
    using format_nat_digits [of _ n] unfolding f takeWhile_eq_all_conv by blast
  have dv: "digits_val (c # cs) = n" using digits_val_format_nat [of n] unfolding f .
  have c: "is_digit c" using format_nat_digits [of c n] f by simp
  then have "c \<noteq> CHR ''-''" "c \<noteq> CHR ''+''" by (auto simp: is_digit_def)
  then have "Sscanf_d (format_nat n) = (if int64 (int n) then Inr (int n) else Inl (ExtErr ''integer overflow''))"
    unfolding Sscanf_d_def f scan_spaces_digit [OF c]
    by (simp only: option.case list.case Let_def tw dv if_False simp_thms list.distinct)
  with n show ?thesis by (simp add: int64_def)
qed

end
