(* ===== verification/Rule_Action.thy ===== *)
theory Rule_Action
  imports Engine Go_Strings
begin

text \<open>
  \<open>internal/rules/rule.go\<close>: the action of a rule and its validation, which every constructor of
  a rule calls, and the configurations the constructors take.
\<close>

record RuleAction =
  ra_Verdict :: Verdict
  ra_Code :: string

definition validate :: "RuleAction \<Rightarrow> string \<Rightarrow> gerror option" where
  "validate a ctxt =
     (if ra_Verdict a = [] then Some (Errorf (ctxt @ '' verdict is required''))
      else if \<not> (ra_Verdict a = VerdictAllow \<or> ra_Verdict a = VerdictFlag \<or> ra_Verdict a = VerdictBlock)
      then Some (Errorf (ctxt @ '' verdict must be allow, flag, or block''))
      else if ra_Code a = [] then Some (Errorf (ctxt @ '' code is required''))
      else None)"

definition valid_action :: "RuleAction \<Rightarrow> bool" where
  "valid_action a \<longleftrightarrow> known_verdict (ra_Verdict a) \<and> ra_Code a \<noteq> []"

lemma validate_None_iff: "validate a ctxt = None \<longleftrightarrow> valid_action a"
  by (auto simp: validate_def valid_action_def known_verdict_def)

record KeywordRuleConfig =
  kc_ID :: string
  kc_Field :: string
  kc_Keywords :: "string list"
  kc_OnMatch :: RuleAction

record CELRuleConfig =
  cc_ID :: string
  cc_Expr :: string
  cc_OnMatch :: RuleAction

record CombinerRuleConfig =
  bc_ID :: string
  bc_Op :: string
  bc_Of :: "string list"
  bc_OnMatch :: RuleAction

lemma well_formed_unmatched [simp]: "well_formed i (unmatched i)"
  by (simp add: well_formed_def)

lemma well_formed_matched:
  "valid_action a \<Longrightarrow> well_formed i (matched i (ra_Verdict a) (ra_Code a))"
  by (simp add: well_formed_def valid_action_def)

text \<open>The context check with which most evaluations begin.\<close>

definition with_live :: "ctx \<Rightarrow> 'r evaluation \<Rightarrow> 'r evaluation" where
  "with_live c body w =
     (case poll c w of (Some e, w) \<Rightarrow> (Inl (CtxErr e), w) | (None, w) \<Rightarrow> body w)"

lemma with_live_result:
  "with_live c body w = (Inr r, w') \<Longrightarrow> c (polls w) = None \<and> body (snd (poll c w)) = (Inr r, w')"
  by (auto simp: with_live_def poll_def split: option.splits)

lemma poll_frame [simp]: "engine_frame w (snd (poll c w))"
  by (simp add: engine_frame_def world_simps)

lemma with_live_frame:
  assumes "\<And>out w' w. body w = (out, w') \<Longrightarrow> engine_frame w w'"
    and "with_live c body w = (out, w')"
  shows "engine_frame w w'"
proof (cases "c (polls w)")
  case None
  with assms(2) have "body (snd (poll c w)) = (out, w')" by (simp add: with_live_def poll_def)
  from engine_frame_trans [OF poll_frame assms(1) [OF this]] show ?thesis .
next
  case (Some e)
  with assms(2) show ?thesis by (auto simp: with_live_def poll_def engine_frame_def)
qed

end
