(* ===== verification/Aho_Matcher.thy ===== *)
theory Aho_Matcher
  imports Prelude "HOL-Library.Sublist" "HOL-Library.Multiset"
begin

text \<open>
  \<open>internal/rules/aho_matcher.go\<close>: the trie, the breadth-first construction of the failure
  links and the scan, over the code's array of nodes. \<open>None\<close> is what the code would do outside its
  normal course: an index out of range, or a loop that does not end. The main lemma shows that
  neither ever happens, and that the scan finds a match exactly when some keyword occurs in the
  text, whatever order Go iterates over the maps in.
\<close>

section \<open>The order of map iteration\<close>

text \<open>
  \<open>range\<close> visits every entry of a map once, in an order the language leaves open. The order is a
  list of choices, each the position of the next entry among those not yet visited: every list of
  choices gives a permutation, and every permutation comes from some choices.
\<close>

fun pick_order :: "nat list \<Rightarrow> 'a list \<Rightarrow> 'a list" where
  "pick_order [] xs = xs"
| "pick_order (c # cs) [] = []"
| "pick_order (c # cs) (x # xs) =
     (let i = c mod Suc (length xs); ys = x # xs
      in ys ! i # pick_order cs (take i ys @ drop (Suc i) ys))"

lemma mset_remove_nth:
  assumes "i < length xs"
  shows "add_mset (xs ! i) (mset (take i xs @ drop (Suc i) xs)) = mset xs"
proof -
  have "mset (take i xs @ xs ! i # drop (Suc i) xs) = mset xs"
    using id_take_nth_drop [OF assms] by metis
  then show ?thesis by simp
qed

lemma mset_pick_order [simp]: "mset (pick_order cs xs) = mset xs"
proof (induction cs xs rule: pick_order.induct)
  case (3 c cs x xs)
  have i: "c mod Suc (length xs) < length (x # xs)" by simp
  show ?case using "3.IH" [OF refl refl] mset_remove_nth [OF i] by (simp add: Let_def)
qed simp_all

lemma set_pick_order [simp]: "set (pick_order cs xs) = set xs"
  by (metis mset_pick_order set_mset_mset)

lemma pick_order_complete: "mset ys = mset xs \<Longrightarrow> \<exists>cs. pick_order cs xs = ys"
proof (induction ys arbitrary: xs)
  case Nil
  then show ?case by (intro exI [of _ "[]"]) simp
next
  case (Cons y ys)
  then have "y \<in> set xs" by (metis list.set_intros(1) set_mset_mset)
  then obtain i where i: "i < length xs" "xs ! i = y" by (meson in_set_conv_nth)
  have "add_mset y (mset ys) = add_mset y (mset (take i xs @ drop (Suc i) xs))"
    using Cons.prems mset_remove_nth [OF i(1)] i(2) by simp
  then have "mset ys = mset (take i xs @ drop (Suc i) xs)" by simp
  then obtain cs where "pick_order cs (take i xs @ drop (Suc i) xs) = ys" using Cons.IH by blast
  with i have "pick_order (i # cs) xs = y # ys" by (cases xs) (simp_all add: Let_def)
  then show ?case by blast
qed

section \<open>The matcher\<close>

record ahoNode =
  an_next :: "(char \<times> nat) list"
  an_fail :: nat
  an_terminal :: bool

type_synonym ahoMatcher = "ahoNode list"
type_synonym map_order = "nat \<Rightarrow> nat list"

definition fresh_node :: ahoNode where
  "fresh_node = \<lparr>an_next = [], an_fail = 0, an_terminal = False\<rparr>"

definition node_at :: "ahoMatcher \<Rightarrow> nat \<Rightarrow> ahoNode option" where
  "node_at nodes i = (if i < length nodes then Some (nodes ! i) else None)"

text \<open>The inner loop of \<open>newAhoMatcher\<close>: descend along the bytes, adding the missing nodes.\<close>

fun insert_bytes :: "string \<Rightarrow> nat \<Rightarrow> ahoMatcher \<Rightarrow> (nat \<times> ahoMatcher) option" where
  "insert_bytes [] node nodes = Some (node, nodes)"
| "insert_bytes (b # bs) node nodes =
     (case node_at nodes node of
        None \<Rightarrow> None
      | Some nd \<Rightarrow>
          (case map_of (an_next nd) b of
             Some child \<Rightarrow> insert_bytes bs child nodes
           | None \<Rightarrow>
               insert_bytes bs (length nodes)
                 ((nodes @ [fresh_node])
                    [node := nd\<lparr>an_next := an_next nd @ [(b, length nodes)]\<rparr>])))"

definition insert_keyword :: "string \<Rightarrow> ahoMatcher \<Rightarrow> ahoMatcher option" where
  "insert_keyword keyword nodes =
     (if keyword = [] then Some nodes
      else case insert_bytes keyword 0 nodes of
        None \<Rightarrow> None
      | Some (node, nodes) \<Rightarrow>
          (case node_at nodes node of
             None \<Rightarrow> None
           | Some nd \<Rightarrow> Some (nodes[node := nd\<lparr>an_terminal := True\<rparr>])))"

fun insert_keywords :: "string list \<Rightarrow> ahoMatcher \<Rightarrow> ahoMatcher option" where
  "insert_keywords [] nodes = Some nodes"
| "insert_keywords (k # ks) nodes =
     (case insert_keyword k nodes of None \<Rightarrow> None | Some nodes \<Rightarrow> insert_keywords ks nodes)"

text \<open>
  The loop \<open>for fail != 0\<close> of \<open>buildFailures\<close>: the value of \<open>fail\<close> when it ends and the fallback
  it stored, if it ended by \<open>break\<close>.
\<close>

partial_function (option) find_fail :: "ahoMatcher \<Rightarrow> char \<Rightarrow> nat \<Rightarrow> (nat \<times> nat option) option" where
  "find_fail nodes b fail =
     (if fail = 0 then Some (0, None)
      else case node_at nodes fail of
        None \<Rightarrow> None
      | Some nd \<Rightarrow>
          (case map_of (an_next nd) b of
             Some fallback \<Rightarrow> Some (fail, Some fallback)
           | None \<Rightarrow> find_fail nodes b (an_fail nd)))"

definition set_fail :: "nat \<Rightarrow> nat \<Rightarrow> ahoMatcher \<Rightarrow> ahoMatcher option" where
  "set_fail child fail nodes =
     (case node_at nodes child of
        None \<Rightarrow> None
      | Some nd \<Rightarrow> Some (nodes[child := nd\<lparr>an_fail := fail\<rparr>]))"

text \<open>The root's children: failure link to the root, appended to the queue.\<close>

fun link_roots :: "(char \<times> nat) list \<Rightarrow> ahoMatcher \<times> nat list \<Rightarrow> (ahoMatcher \<times> nat list) option" where
  "link_roots [] s = Some s"
| "link_roots ((b, child) # cs) (nodes, queue) =
     (case set_fail child 0 nodes of
        None \<Rightarrow> None
      | Some nodes \<Rightarrow> link_roots cs (nodes, queue @ [child]))"

text \<open>The body of the loop over the children of \<open>current\<close>.\<close>

definition link_child ::
    "nat \<Rightarrow> char \<Rightarrow> nat \<Rightarrow> ahoMatcher \<Rightarrow> ahoMatcher option" where
  "link_child current b child nodes =
     Option.bind (node_at nodes current) (\<lambda>cur.
     Option.bind (find_fail nodes b (an_fail cur)) (\<lambda>(fail, found).
     Option.bind (case found of None \<Rightarrow> Some nodes | Some fallback \<Rightarrow> set_fail child fallback nodes)
       (\<lambda>nodes.
     Option.bind
       (if fail = 0 then
          Option.bind (node_at nodes 0) (\<lambda>root.
          case map_of (an_next root) b of
            Some fallback \<Rightarrow> if fallback \<noteq> child then set_fail child fallback nodes else Some nodes
          | None \<Rightarrow> Some nodes)
        else Some nodes)
       (\<lambda>nodes.
     Option.bind (node_at nodes child) (\<lambda>nd.
     Option.bind (node_at nodes (an_fail nd)) (\<lambda>fnd.
     Some (if an_terminal fnd then nodes[child := nd\<lparr>an_terminal := True\<rparr>] else nodes)))))))"

fun link_children ::
    "nat \<Rightarrow> (char \<times> nat) list \<Rightarrow> ahoMatcher \<times> nat list \<Rightarrow> (ahoMatcher \<times> nat list) option" where
  "link_children current [] s = Some s"
| "link_children current ((b, child) # cs) (nodes, queue) =
     (case link_child current b child nodes of
        None \<Rightarrow> None
      | Some nodes \<Rightarrow> link_children current cs (nodes, queue @ [child]))"

partial_function (option) bfs :: "map_order \<Rightarrow> ahoMatcher \<Rightarrow> nat list \<Rightarrow> nat \<Rightarrow> ahoMatcher option" where
  "bfs ord nodes queue head =
     (if head < length queue then
        Option.bind (node_at nodes (queue ! head)) (\<lambda>cur.
        Option.bind
          (link_children (queue ! head) (pick_order (ord (queue ! head)) (an_next cur)) (nodes, queue))
          (\<lambda>(nodes, queue). bfs ord nodes queue (Suc head)))
      else Some nodes)"

definition buildFailures :: "map_order \<Rightarrow> ahoMatcher \<Rightarrow> ahoMatcher option" where
  "buildFailures ord nodes =
     Option.bind (node_at nodes 0) (\<lambda>root.
     Option.bind (link_roots (pick_order (ord 0) (an_next root)) (nodes, []))
       (\<lambda>(nodes, queue). bfs ord nodes queue 0))"

definition newAhoMatcher :: "map_order \<Rightarrow> string list \<Rightarrow> ahoMatcher option" where
  "newAhoMatcher ord keywords =
     Option.bind (insert_keywords keywords [fresh_node]) (buildFailures ord)"

partial_function (option) nextState :: "ahoMatcher \<Rightarrow> nat \<Rightarrow> char \<Rightarrow> nat option" where
  "nextState nodes state b =
     (case node_at nodes state of
        None \<Rightarrow> None
      | Some nd \<Rightarrow>
          (case map_of (an_next nd) b of
             Some child \<Rightarrow> Some child
           | None \<Rightarrow> if state = 0 then Some 0 else nextState nodes (an_fail nd) b))"

declare find_fail.simps [code] bfs.simps [code] nextState.simps [code]

fun match_from :: "ahoMatcher \<Rightarrow> nat \<Rightarrow> string \<Rightarrow> bool option" where
  "match_from nodes state [] = Some False"
| "match_from nodes state (b # bs) =
     (case nextState nodes state b of
        None \<Rightarrow> None
      | Some state \<Rightarrow>
          (case node_at nodes state of
             None \<Rightarrow> None
           | Some nd \<Rightarrow> if an_terminal nd then Some True else match_from nodes state bs))"

definition aho_match :: "ahoMatcher option \<Rightarrow> string \<Rightarrow> bool option" where
  "aho_match m value =
     (case m of
        None \<Rightarrow> Some False
      | Some nodes \<Rightarrow> if nodes = [] then Some False else match_from nodes 0 value)"

section \<open>The trie\<close>

text \<open>
  The abstraction of the node array is its labelling: \<open>lab i\<close> is the word spelled on the way from
  the root to node \<open>i\<close>. \<open>trie nx lab\<close> says that the edges \<open>nx\<close> are the labels' one-byte extensions.
\<close>

definition trie :: "(char \<times> nat) list list \<Rightarrow> (nat \<Rightarrow> string) \<Rightarrow> bool" where
  "trie nx lab \<longleftrightarrow> 0 < length nx \<and> lab 0 = [] \<and> inj_on lab {..<length nx} \<and>
     (\<forall>i < length nx. distinct (map fst (nx ! i)) \<and>
        (\<forall>b j. (b, j) \<in> set (nx ! i) \<longleftrightarrow> j < length nx \<and> lab j = lab i @ [b])) \<and>
     (\<forall>i < length nx. i \<noteq> 0 \<longrightarrow> (\<exists>p < length nx. \<exists>b. lab i = lab p @ [b]))"

definition words :: "(char \<times> nat) list list \<Rightarrow> (nat \<Rightarrow> string) \<Rightarrow> string set" where
  "words nx lab = lab ` {..<length nx}"

lemma lab_in_words: "i < length nx \<Longrightarrow> lab i \<in> words nx lab"
  by (simp add: words_def)

lemma in_wordsE: "w \<in> words nx lab \<Longrightarrow> (\<And>i. i < length nx \<Longrightarrow> lab i = w \<Longrightarrow> P) \<Longrightarrow> P"
  by (auto simp: words_def)

abbreviation edges :: "ahoMatcher \<Rightarrow> (char \<times> nat) list list" where
  "edges nodes \<equiv> map an_next nodes"

lemma trieD:
  assumes "trie nx lab"
  shows "0 < length nx" and "lab 0 = []"
    and "i < length nx \<Longrightarrow> j < length nx \<Longrightarrow> lab i = lab j \<longleftrightarrow> i = j"
    and "i < length nx \<Longrightarrow> map_of (nx ! i) b = Some j \<longleftrightarrow> j < length nx \<and> lab j = lab i @ [b]"
    and "i < length nx \<Longrightarrow> (b, j) \<in> set (nx ! i) \<longleftrightarrow> j < length nx \<and> lab j = lab i @ [b]"
    and "i < length nx \<Longrightarrow> i \<noteq> 0 \<Longrightarrow> \<exists>p < length nx. \<exists>b. lab i = lab p @ [b]"
    and "i < length nx \<Longrightarrow> distinct (map fst (nx ! i))"
  using assms by (auto simp: trie_def inj_on_def)

lemma trie_next_None:
  assumes "trie nx lab" and "i < length nx"
  shows "map_of (nx ! i) b = None \<longleftrightarrow> lab i @ [b] \<notin> words nx lab"
proof -
  have "lab i @ [b] \<in> words nx lab \<longleftrightarrow> (\<exists>j. map_of (nx ! i) b = Some j)"
    unfolding words_def image_iff using trieD(4) [OF assms] by (metis lessThan_iff)
  then show ?thesis by simp
qed

lemma words_prefix_closed:
  assumes "trie nx lab" and "p @ [b] \<in> words nx lab"
  shows "p \<in> words nx lab"
proof -
  from assms(2) obtain i where i: "i < length nx" "lab i = p @ [b]" by (auto simp: words_def)
  with trieD(2) [OF assms(1)] have "i \<noteq> 0" by (cases "i = 0") auto
  with trieD(6) [OF assms(1) i(1)] i(2) show ?thesis by (auto simp: words_def)
qed

lemma Nil_in_words [simp]: "trie nx lab \<Longrightarrow> [] \<in> words nx lab"
  using trieD(1,2) by (force simp: words_def)

lemma trie_extend:
  assumes "trie nx lab" and "i < length nx" and "map_of (nx ! i) b = None"
  shows "trie ((nx @ [[]])[i := nx ! i @ [(b, length nx)]]) (lab(length nx := lab i @ [b]))"
    (is "trie ?nx ?lab")
proof -
  let ?n = "length nx"
  note t = trieD [OF assms(1)]
  have fresh: "lab i @ [b] \<noteq> lab j" if "j < ?n" for j
    using trie_next_None [OF assms(1,2)] assms(3) that by (auto simp: words_def)
  have nth: "?nx ! k = (if k = i then nx ! i @ [(b, ?n)] else if k = ?n then [] else nx ! k)"
    if "k < Suc ?n" for k
    using that assms(2) by (auto simp: nth_list_update nth_append)
  have inj: "inj_on ?lab {..<length ?nx}"
    by (intro inj_onI) (auto simp: less_Suc_eq t(3) fresh fresh [symmetric] dest: fresh)
  have edge: "(b', j) \<in> set (?nx ! k) \<longleftrightarrow> j < length ?nx \<and> ?lab j = ?lab k @ [b']"
    if k: "k < length ?nx" for k b' j
  proof (cases "k = ?n")
    case True
    have "(lab i @ [b]) @ [b'] \<notin> words nx lab"
      using words_prefix_closed [OF assms(1)] fresh by (metis in_wordsE)
    then have "lab j \<noteq> lab i @ [b, b']" if "j < ?n" for j
      using lab_in_words [OF that, of lab] by auto
    with True nth [of k] assms(2) show ?thesis by (auto simp: less_Suc_eq)
  next
    case False
    with k have "k < ?n" by simp
    with nth [of k] t(5) [of k b' j] t(3) [of k i] assms(2) fresh show ?thesis
      by (auto simp: less_Suc_eq)
  qed
  have dist: "distinct (map fst (?nx ! k))" if "k < length ?nx" for k
    using nth [of k] t(7) [of k] that assms(2,3) by (auto simp: less_Suc_eq map_of_eq_None_iff)
  have parent: "\<exists>p < length ?nx. \<exists>b. ?lab k = ?lab p @ [b]" if "k < length ?nx" "k \<noteq> 0" for k
  proof (cases "k = ?n")
    case True
    with assms(2) show ?thesis by (intro exI [of _ i]) auto
  next
    case False
    with that t(6) [of k] obtain p b where "p < ?n" "lab k = lab p @ [b]" by auto
    with False show ?thesis by (intro exI [of _ p]) auto
  qed
  show ?thesis
    using t(1,2) inj edge dist parent by (simp add: trie_def)
qed


section \<open>Inserting the keywords\<close>

text \<open>
  \<open>grown\<close>: what a call of the inner loop keeps. The old nodes keep their labels and marks, the
  new ones are unmarked, no failure link is set yet.
\<close>

definition unlinked :: "ahoMatcher \<Rightarrow> bool" where
  "unlinked nodes \<longleftrightarrow> (\<forall>i < length nodes. an_fail (nodes ! i) = 0)"

definition marks :: "ahoMatcher \<Rightarrow> (nat \<Rightarrow> string) \<Rightarrow> string set" where
  "marks nodes lab = lab ` {i. i < length nodes \<and> an_terminal (nodes ! i)}"

lemma node_at_Some [simp]: "i < length nodes \<Longrightarrow> node_at nodes i = Some (nodes ! i)"
  by (simp add: node_at_def)

lemma insert_bytes_trie:
  assumes "trie (edges nodes) lab" and "unlinked nodes" and "node < length nodes"
  shows "\<exists>node' nodes' lab'. insert_bytes bs node nodes = Some (node', nodes') \<and>
    trie (edges nodes') lab' \<and> unlinked nodes' \<and> marks nodes' lab' = marks nodes lab \<and>
    node' < length nodes' \<and> lab' node' = lab node @ bs"
  using assms
proof (induction bs arbitrary: node nodes lab)
  case Nil
  then show ?case by auto
next
  case (Cons b bs)
  let ?nd = "nodes ! node"
  show ?case
  proof (cases "map_of (an_next ?nd) b")
    case (Some child)
    with Cons.prems trieD(4) [OF Cons.prems(1), of node b child]
    have "child < length nodes" "lab child = lab node @ [b]" by auto
    with Cons.IH [OF Cons.prems(1,2), of child] Some Cons.prems(3) show ?thesis by auto
  next
    case None
    let ?nodes = "(nodes @ [fresh_node])[node := ?nd\<lparr>an_next := an_next ?nd @ [(b, length nodes)]\<rparr>]"
    let ?lab = "lab(length nodes := lab node @ [b])"
    have "edges ?nodes = (edges nodes @ [[]])[node := edges nodes ! node @ [(b, length (edges nodes))]]"
      using Cons.prems(3) by (simp add: map_update fresh_node_def)
    then have t: "trie (edges ?nodes) ?lab"
      using trie_extend [OF Cons.prems(1), of node b] None Cons.prems(3) by simp
    have u: "unlinked ?nodes"
      using Cons.prems(2,3) by (auto simp: unlinked_def nth_list_update nth_append fresh_node_def)
    have m: "marks ?nodes ?lab = marks nodes lab"
      using Cons.prems(3)
      by (force simp: marks_def nth_list_update nth_append fresh_node_def less_Suc_eq image_iff)
    have *: "insert_bytes (b # bs) node nodes = insert_bytes bs (length nodes) ?nodes"
      using None Cons.prems(3) by simp
    from Cons.IH [OF t u, of "length nodes"] show ?thesis unfolding * m by simp
  qed
qed

lemma insert_keyword_trie:
  assumes "trie (edges nodes) lab" and "unlinked nodes"
  shows "\<exists>nodes' lab'. insert_keyword k nodes = Some nodes' \<and> trie (edges nodes') lab' \<and>
    unlinked nodes' \<and> marks nodes' lab' = marks nodes lab \<union> ({k} - {[]})"
proof (cases "k = []")
  case True
  with assms show ?thesis by (auto simp: insert_keyword_def)
next
  case False
  note t = trieD(1,2) [OF assms(1)]
  from insert_bytes_trie [OF assms, of 0 k] t obtain node nodes' lab' where
    ib: "insert_bytes k 0 nodes = Some (node, nodes')" and t': "trie (edges nodes') lab'"
    and u: "unlinked nodes'" and m: "marks nodes' lab' = marks nodes lab"
    and node: "node < length nodes'" "lab' node = k" by auto
  let ?nodes = "nodes'[node := (nodes' ! node)\<lparr>an_terminal := True\<rparr>]"
  have "edges ?nodes = edges nodes'"
    using node(1) by (simp add: map_update list_update_same_conv)
  moreover have "unlinked ?nodes" using u node(1) by (auto simp: unlinked_def nth_list_update)
  moreover have "marks ?nodes lab' = insert k (marks nodes' lab')"
    using node by (auto simp: marks_def nth_list_update image_iff split: if_splits)
  ultimately show ?thesis
    using False ib node(1) t' m by (intro exI [of _ ?nodes] exI [of _ lab']) (simp add: insert_keyword_def)
qed

lemma insert_keywords_trie:
  assumes "trie (edges nodes) lab" and "unlinked nodes"
  shows "\<exists>nodes' lab'. insert_keywords ks nodes = Some nodes' \<and> trie (edges nodes') lab' \<and>
    unlinked nodes' \<and> marks nodes' lab' = marks nodes lab \<union> (set ks - {[]})"
  using assms
proof (induction ks arbitrary: nodes lab)
  case Nil
  then show ?case by auto
next
  case (Cons k ks)
  from insert_keyword_trie [OF Cons.prems, of k] obtain nodes' lab' where
    "insert_keyword k nodes = Some nodes'" "trie (edges nodes') lab'" "unlinked nodes'"
    "marks nodes' lab' = marks nodes lab \<union> ({k} - {[]})" by blast
  with Cons.IH [of nodes' lab'] show ?case by auto
qed

lemma initial_trie: "trie (edges [fresh_node]) (\<lambda>_. [])" "unlinked [fresh_node]"
    "marks [fresh_node] (\<lambda>_. []) = {}"
  by (auto simp: trie_def unlinked_def marks_def fresh_node_def inj_on_def)

section \<open>Suffixes that are words of the trie\<close>

text \<open>
  \<open>longest L w u\<close>: \<open>u\<close> is the longest suffix of \<open>w\<close> in \<open>L\<close>. \<open>link_spec L w u\<close>: the longest proper
  one, which is what a failure link must point to.
\<close>

definition longest :: "string set \<Rightarrow> string \<Rightarrow> string \<Rightarrow> bool" where
  "longest L w u \<longleftrightarrow> u \<in> L \<and> suffix u w \<and> (\<forall>v \<in> L. suffix v w \<longrightarrow> suffix v u)"

definition link_spec :: "string set \<Rightarrow> string \<Rightarrow> string \<Rightarrow> bool" where
  "link_spec L w u \<longleftrightarrow> u \<in> L \<and> strict_suffix u w \<and> (\<forall>v \<in> L. strict_suffix v w \<longrightarrow> suffix v u)"

definition prefix_closed :: "string set \<Rightarrow> bool" where
  "prefix_closed L \<longleftrightarrow> [] \<in> L \<and> (\<forall>p b. p @ [b] \<in> L \<longrightarrow> p \<in> L)"

lemma prefix_closed_words: "trie nx lab \<Longrightarrow> prefix_closed (words nx lab)"
  using words_prefix_closed by (auto simp: prefix_closed_def)

lemma strict_suffix_snoc [simp]: "strict_suffix (v @ [b]) (w @ [c]) \<longleftrightarrow> b = c \<and> strict_suffix v w"
  by (auto simp: strict_suffix_def)

lemma link_shorter: "link_spec L w u \<Longrightarrow> length u < length w"
  by (auto simp: link_spec_def suffix_length_less)

lemma longestD:
  assumes "longest L w u"
  shows "u \<in> L" and "suffix u w" and "v \<in> L \<Longrightarrow> suffix v w \<Longrightarrow> suffix v u"
  using assms by (auto simp: longest_def)

lemma linkD:
  assumes "link_spec L w u"
  shows "u \<in> L" and "strict_suffix u w" and "v \<in> L \<Longrightarrow> strict_suffix v w \<Longrightarrow> suffix v u"
  using assms by (auto simp: link_spec_def)

lemmas suffix_trans = suffix_order.trans

lemma longest_self: "w \<in> L \<Longrightarrow> longest L w w"
  by (auto simp: longest_def)

lemma longest_trans:
  "longest L w u \<Longrightarrow> prefix_closed L \<Longrightarrow> longest L (u @ [b]) v \<Longrightarrow> longest L (w @ [b]) v"
proof -
  assume wu: "longest L w u" and L: "prefix_closed L" and uv: "longest L (u @ [b]) v"
  have "suffix x v" if x: "x \<in> L" "suffix x (w @ [b])" for x
  proof (cases x rule: rev_cases)
    case (snoc x' c)
    with x L wu have "suffix x (u @ [b])" by (auto simp: prefix_closed_def longest_def)
    with longestD(3) [OF uv x(1)] show ?thesis .
  qed simp
  moreover from wu have "suffix (u @ [b]) (w @ [b])" by (simp add: longest_def)
  ultimately show ?thesis
    using longestD(1,2) [OF uv] suffix_trans unfolding longest_def by blast
qed

lemma longest_via_link:
  assumes "link_spec L w f" and "prefix_closed L" and "longest L (f @ [b]) u" and "w @ [b] \<notin> L"
  shows "longest L (w @ [b]) u"
proof -
  have "suffix x u" if x: "x \<in> L" "suffix x (w @ [b])" for x
  proof (cases x rule: rev_cases)
    case (snoc x' c)
    with x assms(2,4) have "x' \<in> L" "strict_suffix x' w" "c = b"
      by (auto simp: prefix_closed_def strict_suffix_def)
    with assms(1) snoc have "suffix x (f @ [b])" by (auto simp: link_spec_def)
    with longestD(3) [OF assms(3) x(1)] show ?thesis .
  qed simp
  moreover from assms(1) have "suffix (f @ [b]) (w @ [b])"
    by (simp add: link_spec_def strict_suffix_def)
  ultimately show ?thesis
    using longestD(1,2) [OF assms(3)] suffix_trans unfolding longest_def by blast
qed

lemma link_via_link:
  assumes "link_spec L w f" and "prefix_closed L" and "longest L (f @ [b]) u"
  shows "link_spec L (w @ [b]) u"
proof -
  have "suffix x u" if x: "x \<in> L" "strict_suffix x (w @ [b])" for x
  proof (cases x rule: rev_cases)
    case (snoc x' c)
    with x assms(1,2) have "suffix x (f @ [b])"
      by (auto simp: prefix_closed_def link_spec_def)
    with longestD(3) [OF assms(3) x(1)] show ?thesis .
  qed simp
  moreover have "strict_suffix u (w @ [b])"
  proof -
    from assms(1) have "strict_suffix (f @ [b]) (w @ [b])" by (simp add: link_spec_def)
    moreover from assms(3) have "suffix u (f @ [b])" by (simp add: longest_def)
    ultimately show ?thesis using suffix_order.strict_trans1 by blast
  qed
  ultimately show ?thesis using assms(3) by (simp add: longest_def link_spec_def)
qed

lemma link_single: "prefix_closed L \<Longrightarrow> link_spec L [b] []"
  by (auto simp: link_spec_def prefix_closed_def strict_suffix_def suffix_Cons)

text \<open>A word ends in a keyword when it is one, or when its failure link's word ends in one.\<close>

lemma ends_in_keyword_link:
  assumes "link_spec L w f" and "K \<subseteq> L"
  shows "(\<exists>k \<in> K. suffix k w) \<longleftrightarrow> w \<in> K \<or> (\<exists>k \<in> K. suffix k f)"
proof
  assume "\<exists>k \<in> K. suffix k w"
  then obtain k where "k \<in> K" "suffix k w" by blast
  with assms show "w \<in> K \<or> (\<exists>k \<in> K. suffix k f)"
    by (cases "k = w") (auto simp: link_spec_def strict_suffix_def)
next
  assume "w \<in> K \<or> (\<exists>k \<in> K. suffix k f)"
  moreover from linkD(2) [OF assms(1)] have "suffix f w" by (simp add: strict_suffix_def)
  ultimately show "\<exists>k \<in> K. suffix k w" using suffix_trans by blast
qed

lemma ends_in_keyword_longest:
  assumes "longest L w u" and "K \<subseteq> L"
  shows "(\<exists>k \<in> K. suffix k u) \<longleftrightarrow> (\<exists>k \<in> K. suffix k w)"
  using longestD [OF assms(1)] assms(2) suffix_trans by blast

section \<open>Following the failure links\<close>

definition linked :: "ahoMatcher \<Rightarrow> (nat \<Rightarrow> string) \<Rightarrow> nat \<Rightarrow> bool" where
  "linked nodes lab i \<longleftrightarrow> an_fail (nodes ! i) < length nodes \<and>
     link_spec (words (edges nodes) lab) (lab i) (lab (an_fail (nodes ! i)))"

lemma nextState_longest:
  assumes "trie (edges nodes) lab" and "s < length nodes"
    and "\<And>i. i < length nodes \<Longrightarrow> i \<noteq> 0 \<Longrightarrow> length (lab i) \<le> length (lab s) \<Longrightarrow> linked nodes lab i"
  shows "\<exists>t. nextState nodes s b = Some t \<and> t < length nodes \<and>
    longest (words (edges nodes) lab) (lab s @ [b]) (lab t)"
  using assms(2,3)
proof (induction "length (lab s)" arbitrary: s rule: less_induct)
  case less
  let ?L = "words (edges nodes) lab"
  note t = trieD [OF assms(1)] and closed = prefix_closed_words [OF assms(1)]
  show ?case
  proof (cases "map_of (an_next (nodes ! s)) b")
    case (Some child)
    with t(4) [of s b child] less.prems(1) have "child < length nodes" "lab child = lab s @ [b]"
      by auto
    moreover from this have "longest ?L (lab s @ [b]) (lab child)"
      using lab_in_words [of child "edges nodes" lab] by (simp add: longest_self)
    ultimately show ?thesis using Some less.prems(1) by (subst nextState.simps) simp
  next
    case None
    with trie_next_None [OF assms(1), of s b] less.prems(1) have none: "lab s @ [b] \<notin> ?L" by simp
    show ?thesis
    proof (cases "s = 0")
      case True
      with none t(2) closed have "longest ?L (lab s @ [b]) []"
        by (auto simp: longest_def prefix_closed_def suffix_Cons)
      with True None less.prems(1) t(1,2) show ?thesis by (subst nextState.simps) simp
    next
      case False
      let ?f = "an_fail (nodes ! s)"
      from less.prems False have f: "?f < length nodes" "link_spec ?L (lab s) (lab ?f)"
        by (auto simp: linked_def)
      with less.prems(2) obtain u where u: "nextState nodes ?f b = Some u" "u < length nodes"
        "longest ?L (lab ?f @ [b]) (lab u)"
        using less.hyps [of ?f] link_shorter [OF f(2)] by fastforce
      from longest_via_link [OF f(2) closed u(3) none] u False None less.prems(1) show ?thesis
        by (subst nextState.simps) simp
    qed
  qed
qed

text \<open>The loop of \<open>buildFailures\<close> finds what \<open>nextState\<close> would, unless it falls through to the root.\<close>

lemma find_fail_nextState:
  assumes "trie (edges nodes) lab" and "f < length nodes"
    and "\<And>i. i < length nodes \<Longrightarrow> i \<noteq> 0 \<Longrightarrow> length (lab i) \<le> length (lab f) \<Longrightarrow> linked nodes lab i"
  shows "(\<exists>x t. x \<noteq> 0 \<and> find_fail nodes b f = Some (x, Some t) \<and> nextState nodes f b = Some t) \<or>
    find_fail nodes b f = Some (0, None) \<and> nextState nodes f b = nextState nodes 0 b"
  using assms(2,3)
proof (induction "length (lab f)" arbitrary: f rule: less_induct)
  case less
  show ?case
  proof (cases "f = 0")
    case True
    then show ?thesis by (simp add: find_fail.simps)
  next
    case False
    let ?g = "an_fail (nodes ! f)"
    from less.prems False have g: "?g < length nodes"
      "link_spec (words (edges nodes) lab) (lab f) (lab ?g)"
      by (auto simp: linked_def)
    show ?thesis
    proof (cases "map_of (an_next (nodes ! f)) b")
      case (Some t)
      with False less.prems(1) show ?thesis
        by (simp add: find_fail.simps [of nodes b f] nextState.simps [of nodes f b])
    next
      case None
      with False less.prems(1) have
        "find_fail nodes b f = find_fail nodes b ?g" "nextState nodes f b = nextState nodes ?g b"
        by (simp_all add: find_fail.simps [of nodes b f] nextState.simps [of nodes f b])
      with less.hyps [of ?g] less.prems(2) g link_shorter [OF g(2)] show ?thesis by force
    qed
  qed
qed

definition good :: "ahoMatcher \<Rightarrow> (nat \<Rightarrow> string) \<Rightarrow> string set \<Rightarrow> nat \<Rightarrow> bool" where
  "good nodes lab K i \<longleftrightarrow> linked nodes lab i \<and>
     (an_terminal (nodes ! i) \<longleftrightarrow> (\<exists>k \<in> K. suffix k (lab i)))"

definition untouched :: "ahoMatcher \<Rightarrow> (nat \<Rightarrow> string) \<Rightarrow> string set \<Rightarrow> nat \<Rightarrow> bool" where
  "untouched nodes lab K i \<longleftrightarrow> an_fail (nodes ! i) = 0 \<and> (an_terminal (nodes ! i) \<longleftrightarrow> lab i \<in> K)"

text \<open>What the construction keeps throughout; \<open>K\<close> are the keywords.\<close>

definition building :: "ahoMatcher \<Rightarrow> (nat \<Rightarrow> string) \<Rightarrow> string set \<Rightarrow> bool" where
  "building nodes lab K \<longleftrightarrow> trie (edges nodes) lab \<and> K \<subseteq> words (edges nodes) lab \<and>
     [] \<notin> K \<and> \<not> an_terminal (nodes ! 0)"

lemma link_child_nextState:
  assumes "cur < length nodes" and "child < length nodes" and "0 < length nodes"
    and "an_fail (nodes ! child) = 0" and "t \<noteq> child" and "t < length nodes"
    and "nextState nodes (an_fail (nodes ! cur)) b = Some t"
    and "(\<exists>x. x \<noteq> 0 \<and> find_fail nodes b (an_fail (nodes ! cur)) = Some (x, Some t)) \<or>
      find_fail nodes b (an_fail (nodes ! cur)) = Some (0, None) \<and> nextState nodes 0 b = Some t"
  shows "link_child cur b child nodes = Some (nodes[child := (nodes ! child)
    \<lparr>an_fail := t, an_terminal := an_terminal (nodes ! child) \<or> an_terminal (nodes ! t)\<rparr>])"
proof -
  let ?nodes = "nodes[child := (nodes ! child)\<lparr>an_fail := t\<rparr>]"
  have same: "t = 0 \<Longrightarrow> ?nodes = nodes"
    using assms(2,4) by (simp add: list_update_same_conv)
  have finish: "Option.bind (node_at ?nodes child) (\<lambda>nd.
      Option.bind (node_at ?nodes (an_fail nd)) (\<lambda>fnd.
        Some (if an_terminal fnd then ?nodes[child := nd\<lparr>an_terminal := True\<rparr>] else ?nodes))) =
    Some (nodes[child := (nodes ! child)
      \<lparr>an_fail := t, an_terminal := an_terminal (nodes ! child) \<or> an_terminal (nodes ! t)\<rparr>])"
    using assms(2,5,6) by (cases "an_terminal (nodes ! t)") auto
  from assms(8) show ?thesis
  proof
    assume "\<exists>x. x \<noteq> 0 \<and> find_fail nodes b (an_fail (nodes ! cur)) = Some (x, Some t)"
    then show ?thesis using finish assms(1,2) by (auto simp: link_child_def set_fail_def)
  next
    assume root: "find_fail nodes b (an_fail (nodes ! cur)) = Some (0, None) \<and>
      nextState nodes 0 b = Some t"
    show ?thesis
    proof (cases "map_of (an_next (nodes ! 0)) b")
      case None
      with root assms(3) have "t = 0" by (simp add: nextState.simps [of nodes 0])
      with same have "?nodes = nodes" by simp
      from finish [unfolded this] root None assms(1,3) show ?thesis
        by (simp add: link_child_def)
    next
      case (Some u)
      with root assms(3) have "u = t" by (simp add: nextState.simps [of nodes 0])
      with finish root Some assms(1,2,3,5) show ?thesis by (simp add: link_child_def set_fail_def)
    qed
  qed
qed

lemma link_child_good:
  assumes "building nodes lab K" and "cur < length nodes" "cur \<noteq> 0" and "child < length nodes"
    and child: "lab child = lab cur @ [b]" "untouched nodes lab K child"
    and good: "\<And>i. i < length nodes \<Longrightarrow> i \<noteq> 0 \<Longrightarrow> length (lab i) \<le> length (lab cur) \<Longrightarrow> good nodes lab K i"
  shows "\<exists>nd. link_child cur b child nodes = Some (nodes[child := nd]) \<and>
    an_next nd = an_next (nodes ! child) \<and> good (nodes[child := nd]) lab K child"
proof -
  let ?L = "words (edges nodes) lab" and ?f = "an_fail (nodes ! cur)"
  from assms(1) have tr: "trie (edges nodes) lab" and K: "K \<subseteq> ?L" "[] \<notin> K"
    and root: "\<not> an_terminal (nodes ! 0)" by (auto simp: building_def)
  note t = trieD [OF tr] and closed = prefix_closed_words [OF tr]
  from good [OF assms(2,3)] have f: "?f < length nodes" "link_spec ?L (lab cur) (lab ?f)"
    by (auto simp: good_def linked_def)
  have linked: "linked nodes lab i" if "i < length nodes" "i \<noteq> 0" "length (lab i) \<le> length (lab ?f)" for i
    using good [OF that(1,2)] that(3) link_shorter [OF f(2)] by (simp add: good_def)
  from nextState_longest [OF tr f(1) linked] obtain u where u: "nextState nodes ?f b = Some u"
    "u < length nodes" "longest ?L (lab ?f @ [b]) (lab u)" by blast
  have link: "link_spec ?L (lab child) (lab u)"
    using link_via_link [OF f(2) closed u(3)] child(1) by simp
  then have "u \<noteq> child" using link_shorter by fastforce
  from link_child_nextState [OF assms(2,4) _ _ this u(2,1)] child(2) t(1)
    find_fail_nextState [OF tr f(1) linked, of b] u(1)
  have call: "link_child cur b child nodes = Some (nodes[child := (nodes ! child)
    \<lparr>an_fail := u, an_terminal := an_terminal (nodes ! child) \<or> an_terminal (nodes ! u)\<rparr>])"
    (is "_ = Some (nodes[child := ?nd])") by (auto simp: untouched_def)
  have "an_terminal (nodes ! u) \<longleftrightarrow> (\<exists>k \<in> K. suffix k (lab u))"
  proof (cases "u = 0")
    case True
    with K(2) root t(2) show ?thesis by auto
  next
    case False
    with good [OF u(2)] link_shorter [OF link] child(1) show ?thesis by (auto simp: good_def)
  qed
  with child(2) ends_in_keyword_link [OF link K(1)]
  have "an_terminal ?nd \<longleftrightarrow> (\<exists>k \<in> K. suffix k (lab child))" by (simp add: untouched_def)
  moreover have "edges (nodes[child := ?nd]) = edges nodes"
    using assms(4) by (simp add: map_update list_update_same_conv)
  ultimately have "good (nodes[child := ?nd]) lab K child"
    using assms(4) u(2) link by (simp add: good_def linked_def)
  with call show ?thesis by (intro exI [of _ ?nd]) simp
qed

section \<open>The breadth-first construction\<close>

lemma good_cong:
  assumes "edges nodes' = edges nodes" and "nodes' ! i = nodes ! i"
  shows "good nodes' lab K i \<longleftrightarrow> good nodes lab K i"
    and "untouched nodes' lab K i \<longleftrightarrow> untouched nodes lab K i"
  using assms map_eq_imp_length_eq [OF assms(1)]
  by (simp_all add: good_def linked_def untouched_def)

lemma building_cong:
  assumes "edges nodes' = edges nodes" and "nodes' ! 0 = nodes ! 0"
  shows "building nodes' lab K \<longleftrightarrow> building nodes lab K"
  using assms by (simp add: building_def)

lemma child_facts:
  assumes "building nodes lab K" and "cur < length nodes" and "(b, c) \<in> set (an_next (nodes ! cur))"
  shows "c < length nodes" and "lab c = lab cur @ [b]" and "c \<noteq> 0"
proof -
  from assms(1) have tr: "trie (edges nodes) lab" by (simp add: building_def)
  from trieD(5) [OF tr, of cur b c] assms(2,3) show c: "c < length nodes" "lab c = lab cur @ [b]"
    by auto
  with trieD(2) [OF tr] show "c \<noteq> 0" by (cases "c = 0") auto
qed

lemma distinct_children:
  assumes "building nodes lab K" and "cur < length nodes"
  shows "distinct (map snd (pick_order cs (an_next (nodes ! cur))))"
proof -
  from assms(1) have tr: "trie (edges nodes) lab" by (simp add: building_def)
  have d: "distinct (an_next (nodes ! cur))"
    using trieD(7) [OF tr, of cur] assms(2) by (simp add: distinct_map)
  have "inj_on snd (set (an_next (nodes ! cur)))"
    by (auto intro!: inj_onI dest!: child_facts(2) [OF assms])
  with d have "distinct (map snd (an_next (nodes ! cur)))" by (simp add: distinct_map)
  then show ?thesis
    by (metis mset_eq_imp_distinct_iff mset_map mset_pick_order)
qed

lemma link_children_good:
  assumes "building nodes lab K" and "cur < length nodes" "cur \<noteq> 0"
    and "set cs \<subseteq> set (an_next (nodes ! cur))" and "distinct (map snd cs)"
    and "\<And>c. c \<in> snd ` set cs \<Longrightarrow> untouched nodes lab K c"
    and "\<And>i. i < length nodes \<Longrightarrow> i \<noteq> 0 \<Longrightarrow> length (lab i) \<le> length (lab cur) \<Longrightarrow> good nodes lab K i"
  shows "\<exists>nodes'. link_children cur cs (nodes, queue) = Some (nodes', queue @ map snd cs) \<and>
    edges nodes' = edges nodes \<and> (\<forall>c \<in> snd ` set cs. good nodes' lab K c) \<and>
    (\<forall>i. i \<notin> snd ` set cs \<longrightarrow> nodes' ! i = nodes ! i)"
  using assms
proof (induction cs arbitrary: nodes queue)
  case Nil
  then show ?case by simp
next
  case (Cons bc cs)
  obtain b c where bc: "bc = (b, c)" by (cases bc)
  with Cons.prems(4) have "(b, c) \<in> set (an_next (nodes ! cur))" by simp
  note c = child_facts [OF Cons.prems(1,2) this]
  from link_child_good [OF Cons.prems(1-3) c(1,2)] Cons.prems(6,7) bc obtain nd where
    call: "link_child cur b c nodes = Some (nodes[c := nd])"
    and nxt: "an_next nd = an_next (nodes ! c)" and gc: "good (nodes[c := nd]) lab K c"
    by auto
  let ?nodes = "nodes[c := nd]"
  have e: "edges ?nodes = edges nodes"
    using c(1) nxt by (simp add: map_update list_update_same_conv)
  have other: "?nodes ! i = nodes ! i" if "i \<noteq> c" for i using that by simp
  have "c \<noteq> cur" using c(2) by auto
  have "\<exists>nodes'. link_children cur cs (?nodes, queue @ [c]) = Some (nodes', (queue @ [c]) @ map snd cs) \<and>
    edges nodes' = edges ?nodes \<and> (\<forall>c \<in> snd ` set cs. good nodes' lab K c) \<and>
    (\<forall>i. i \<notin> snd ` set cs \<longrightarrow> nodes' ! i = ?nodes ! i)"
  proof (rule Cons.IH)
    show "building ?nodes lab K" using building_cong [OF e other] c(3) Cons.prems(1) by simp
    show "set cs \<subseteq> set (an_next (?nodes ! cur))" using Cons.prems(4) other \<open>c \<noteq> cur\<close> by simp
    show "untouched ?nodes lab K i" if "i \<in> snd ` set cs" for i
    proof -
      from that Cons.prems(5) bc have "i \<noteq> c" by force
      with good_cong(2) [OF e other] Cons.prems(6) [of i] that show ?thesis by simp
    qed
    show "good ?nodes lab K i"
      if "i < length ?nodes" "i \<noteq> 0" "length (lab i) \<le> length (lab cur)" for i
    proof -
      from that(3) c(2) have "i \<noteq> c" by auto
      with good_cong(1) [OF e other] Cons.prems(7) [of i] that show ?thesis by simp
    qed
  qed (use Cons.prems in simp_all)
  then obtain nodes' where n': "link_children cur cs (?nodes, queue @ [c]) = Some (nodes', (queue @ [c]) @ map snd cs)"
    "edges nodes' = edges ?nodes" "\<forall>c \<in> snd ` set cs. good nodes' lab K c"
    "\<forall>i. i \<notin> snd ` set cs \<longrightarrow> nodes' ! i = ?nodes ! i" by blast
  from Cons.prems(5) bc have "c \<notin> snd ` set cs" by simp
  with n'(4) have "nodes' ! c = ?nodes ! c" by blast
  from good_cong(1) [OF n'(2) this] gc have "good nodes' lab K c" by simp
  with n' call bc e show ?case by (intro exI [of _ nodes']) auto
qed

lemma link_roots_same:
  assumes "\<And>c. c \<in> snd ` set cs \<Longrightarrow> c < length nodes \<and> an_fail (nodes ! c) = 0"
  shows "link_roots cs (nodes, queue) = Some (nodes, queue @ map snd cs)"
  using assms
proof (induction cs arbitrary: queue)
  case (Cons bc cs)
  then have "nodes[snd bc := (nodes ! snd bc)\<lparr>an_fail := 0\<rparr>] = nodes"
    by (simp add: list_update_same_conv)
  with Cons show ?case by (cases bc) (simp add: set_fail_def)
qed simp

definition bfs_inv :: "ahoMatcher \<Rightarrow> (nat \<Rightarrow> string) \<Rightarrow> string set \<Rightarrow> nat list \<Rightarrow> nat \<Rightarrow> bool" where
  "bfs_inv nodes lab K queue head \<longleftrightarrow>
     building nodes lab K \<and> head \<le> length queue \<and> distinct queue \<and>
     (\<forall>j \<in> set queue. 0 < j \<and> j < length nodes \<and> good nodes lab K j) \<and>
     (\<forall>j < length nodes. j \<noteq> 0 \<longrightarrow> j \<notin> set queue \<longrightarrow> untouched nodes lab K j) \<and>
     (\<forall>i < length nodes. \<forall>j < length nodes. \<forall>b. lab j = lab i @ [b] \<longrightarrow>
        (j \<in> set queue \<longleftrightarrow> i = 0 \<or> i \<in> set (take head queue))) \<and>
     sorted (map (length \<circ> lab) (drop head queue)) \<and>
     (\<forall>j \<in> set (drop head queue). length (lab j) \<le> Suc (length (lab (queue ! head))))"

lemma bfs_invD:
  assumes "bfs_inv nodes lab K queue head"
  shows "building nodes lab K" and "head \<le> length queue" and "distinct queue"
    and "j \<in> set queue \<Longrightarrow> 0 < j \<and> j < length nodes \<and> good nodes lab K j"
    and "j < length nodes \<Longrightarrow> j \<noteq> 0 \<Longrightarrow> j \<notin> set queue \<Longrightarrow> untouched nodes lab K j"
    and "i < length nodes \<Longrightarrow> j < length nodes \<Longrightarrow> lab j = lab i @ [b] \<Longrightarrow>
        j \<in> set queue \<longleftrightarrow> i = 0 \<or> i \<in> set (take head queue)"
    and "sorted (map (length \<circ> lab) (drop head queue))"
    and "j \<in> set (drop head queue) \<Longrightarrow> length (lab j) \<le> Suc (length (lab (queue ! head)))"
  using assms unfolding bfs_inv_def by blast+

text \<open>All nodes that are not deeper than the bound of the unprocessed ones are in the queue.\<close>

lemma shallow_in_queue:
  assumes "bfs_inv nodes lab K queue head"
    and "\<And>j. j \<in> set (drop head queue) \<Longrightarrow> d \<le> length (lab j)"
  shows "i < length nodes \<Longrightarrow> i \<noteq> 0 \<Longrightarrow> length (lab i) \<le> d \<Longrightarrow> i \<in> set queue"
proof (induction "length (lab i)" arbitrary: i rule: less_induct)
  case less
  from bfs_invD(1) [OF assms(1)] have tr: "trie (edges nodes) lab" by (simp add: building_def)
  from trieD(6) [OF tr, of i] less.prems obtain p b where p: "p < length nodes" "lab i = lab p @ [b]"
    by auto
  show ?case
  proof (cases "p = 0")
    case True
    with bfs_invD(6) [OF assms(1) p(1) less.prems(1) p(2)] show ?thesis by simp
  next
    case False
    from p less.prems(3) have "length (lab p) < d" by simp
    with less.hyps [of p] p False have "p \<in> set queue" by simp
    moreover from assms(2) [of p] \<open>length (lab p) < d\<close> have "p \<notin> set (drop head queue)" by auto
    ultimately have "p \<in> set (take head queue)"
      by (metis Un_iff append_take_drop_id set_append)
    with bfs_invD(6) [OF assms(1) p(1) less.prems(1) p(2)] show ?thesis by simp
  qed
qed

lemma sorted_constant: "(\<And>x. x \<in> set xs \<Longrightarrow> f x = k) \<Longrightarrow> sorted (map f xs)"
  by (induction xs) auto

lemma bfs_step:
  assumes inv: "bfs_inv nodes lab K queue head" and more: "head < length queue"
  shows "\<exists>nodes' queue'.
    link_children (queue ! head) (pick_order cs (an_next (nodes ! (queue ! head)))) (nodes, queue) =
      Some (nodes', queue') \<and>
    edges nodes' = edges nodes \<and> bfs_inv nodes' lab K queue' (Suc head)"
proof -
  let ?cur = "queue ! head"
  let ?ch = "pick_order cs (an_next (nodes ! ?cur))"
  note i = bfs_invD [OF inv]
  have dr: "drop head queue = ?cur # drop (Suc head) queue" using more by (simp add: Cons_nth_drop_Suc)
  have cur: "?cur < length nodes" "?cur \<noteq> 0" using i(4) [of ?cur] more by auto
  have deeper: "length (lab ?cur) \<le> length (lab j)" if "j \<in> set (drop head queue)" for j
    using i(7) that dr by auto
  have good: "good nodes lab K j" if "j < length nodes" "j \<noteq> 0" "length (lab j) \<le> length (lab ?cur)" for j
    using shallow_in_queue [OF inv deeper that] i(4) by blast
  have "?cur \<notin> set (take head queue)"
    using i(3) more by (metis distinct_take id_take_nth_drop not_distinct_conv_prefix
        append_take_drop_id distinct_append disjoint_iff dr list.set_intros(1))
  then have fresh: "c \<notin> set queue" if "(b, c) \<in> set (an_next (nodes ! ?cur))" for b c
    using i(6) [OF cur(1), of c b] child_facts [OF i(1) cur(1) that] cur(2) by simp
  then have "untouched nodes lab K c" if "c \<in> snd ` set ?ch" for c
    using i(5) [of c] child_facts [OF i(1) cur(1)] that by force
  from link_children_good [OF i(1) cur _ distinct_children [OF i(1) cur(1)] this good, of cs queue]
  obtain nodes' where n': "link_children ?cur ?ch (nodes, queue) = Some (nodes', queue @ map snd ?ch)"
    and e: "edges nodes' = edges nodes" and gch: "\<And>c. c \<in> snd ` set ?ch \<Longrightarrow> good nodes' lab K c"
    and rest: "\<And>j. j \<notin> snd ` set ?ch \<Longrightarrow> nodes' ! j = nodes ! j" by auto
  have len: "length nodes' = length nodes" using e by (rule map_eq_imp_length_eq)
  have chD: "c < length nodes \<and> c \<noteq> 0 \<and> c \<notin> set queue \<and> length (lab c) = Suc (length (lab ?cur))"
    if "c \<in> snd ` set ?ch" for c
    using that fresh child_facts [OF i(1) cur(1)] by force
  have chI: "c \<in> snd ` set ?ch \<longleftrightarrow> (\<exists>b. lab c = lab ?cur @ [b])" if "c < length nodes" for c
  proof -
    from i(1) have tr: "trie (edges nodes) lab" by (simp add: building_def)
    show ?thesis using trieD(5) [OF tr, of ?cur _ c] that cur(1) by force
  qed
  let ?queue = "queue @ map snd ?ch"
  have "building nodes' lab K"
    using building_cong [OF e rest] chD i(1) by blast
  moreover have "distinct ?queue"
    using i(3) distinct_children [OF i(1) cur(1)] chD by auto
  moreover have "0 < j \<and> j < length nodes' \<and> good nodes' lab K j" if "j \<in> set ?queue" for j
  proof (cases "j \<in> snd ` set ?ch")
    case True
    with gch chD len show ?thesis by simp
  next
    case False
    with that have "j \<in> set queue" by auto
    with i(4) [of j] good_cong(1) [OF e rest [OF False]] len show ?thesis by simp
  qed
  moreover have "untouched nodes' lab K j" if "j < length nodes'" "j \<noteq> 0" "j \<notin> set ?queue" for j
  proof -
    from that(3) have "j \<notin> snd ` set ?ch" by auto
    with i(5) [of j] good_cong(2) [OF e rest [OF this]] that len show ?thesis by simp
  qed
  moreover have "j \<in> set ?queue \<longleftrightarrow> k = 0 \<or> k \<in> set (take (Suc head) ?queue)"
    if "k < length nodes'" "j < length nodes'" "lab j = lab k @ [b]" for k j b
  proof -
    from i(1) have tr: "trie (edges nodes) lab" by (simp add: building_def)
    from chI [of j] that len have "j \<in> snd ` set ?ch \<longleftrightarrow> lab k = lab ?cur" by auto
    also have "\<dots> \<longleftrightarrow> k = ?cur" using trieD(3) [OF tr] that(1) cur(1) len by simp
    finally have "j \<in> snd ` set ?ch \<longleftrightarrow> k = ?cur" .
    moreover have "set (take (Suc head) ?queue) = insert ?cur (set (take head queue))"
      using more by (simp add: take_Suc_conv_app_nth)
    ultimately show ?thesis using i(6) [of k j b] that len by auto
  qed
  moreover have dr': "drop (Suc head) ?queue = drop (Suc head) queue @ map snd ?ch"
    using more by simp
  have "sorted (map (length \<circ> lab) (drop (Suc head) ?queue))"
    unfolding dr' using i(7,8) chD sorted_constant [of "map snd ?ch" "length \<circ> lab"]
    by (auto simp: sorted_append dr)
  moreover have "length (lab j) \<le> Suc (length (lab (?queue ! Suc head)))"
    if "j \<in> set (drop (Suc head) ?queue)" for j
  proof -
    from that have "Suc head < length ?queue" by (cases "Suc head < length ?queue") auto
    then have "?queue ! Suc head \<in> set (drop (Suc head) ?queue)"
      by (metis Cons_nth_drop_Suc list.set_intros(1))
    then have "length (lab ?cur) \<le> length (lab (?queue ! Suc head))"
      using deeper dr chD unfolding dr' by force
    moreover have "length (lab j) \<le> Suc (length (lab ?cur))"
      using that i(8) dr chD unfolding dr' by force
    ultimately show ?thesis by simp
  qed
  moreover have "Suc head \<le> length ?queue" using more by simp
  ultimately have "bfs_inv nodes' lab K ?queue (Suc head)" unfolding bfs_inv_def by blast
  with n' e show ?thesis by blast
qed

lemma bfs_good:
  assumes "bfs_inv nodes lab K queue head"
  shows "\<exists>nodes'. bfs ord nodes queue head = Some nodes' \<and> edges nodes' = edges nodes \<and>
    building nodes' lab K \<and> (\<forall>i < length nodes'. i \<noteq> 0 \<longrightarrow> good nodes' lab K i)"
  using assms
proof (induction "length nodes - head" arbitrary: nodes queue head rule: less_induct)
  case less
  note i = bfs_invD [OF less.prems]
  show ?case
  proof (cases "head < length queue")
    case True
    have "set queue \<subseteq> {..<length nodes}" using i(4) by auto
    then have "length queue \<le> length nodes"
      using i(3) by (metis card_lessThan card_mono distinct_card finite_lessThan)
    with True have dec: "length nodes - Suc head < length nodes - head" by simp
    from bfs_step [OF less.prems True, of "ord (queue ! head)"] obtain nodes' queue' where
      step: "link_children (queue ! head)
        (pick_order (ord (queue ! head)) (an_next (nodes ! (queue ! head)))) (nodes, queue) =
          Some (nodes', queue')"
        "edges nodes' = edges nodes" "bfs_inv nodes' lab K queue' (Suc head)"
      by blast
    from i(4) [of "queue ! head"] True have "queue ! head < length nodes" by simp
    with True step(1) have "bfs ord nodes queue head = bfs ord nodes' queue' (Suc head)"
      by (simp add: bfs.simps [of ord nodes queue head])
    with less.hyps [of nodes' "Suc head" queue'] step(2,3) dec map_eq_imp_length_eq [OF step(2)]
    show ?thesis by simp
  next
    case False
    with i(2) have "head = length queue" by simp
    with shallow_in_queue [OF less.prems] have "j \<in> set queue" if "j < length nodes" "j \<noteq> 0" for j
      using that by (metis drop_all empty_iff le_refl list.set(1))
    with i(1,4) False show ?thesis by (simp add: bfs.simps [of ord nodes queue head])
  qed
qed

text \<open>The automaton that \<open>newAhoMatcher\<close> returns.\<close>

definition automaton :: "ahoMatcher \<Rightarrow> (nat \<Rightarrow> string) \<Rightarrow> string set \<Rightarrow> bool" where
  "automaton nodes lab K \<longleftrightarrow> building nodes lab K \<and> (\<forall>i < length nodes. i \<noteq> 0 \<longrightarrow> good nodes lab K i)"

lemma newAhoMatcher_automaton:
  "\<exists>nodes lab. newAhoMatcher ord ks = Some nodes \<and> automaton nodes lab (set ks - {[]})"
proof -
  from insert_keywords_trie [OF initial_trie(1,2), of ks] initial_trie(3) obtain nodes lab where
    ins: "insert_keywords ks [fresh_node] = Some nodes" and tr: "trie (edges nodes) lab"
    and un: "unlinked nodes" and m: "marks nodes lab = set ks - {[]}" by auto
  let ?K = "set ks - {[]}" and ?ch = "pick_order (ord 0) (an_next (nodes ! 0))"
  note t = trieD [OF tr]
  have tm: "an_terminal (nodes ! i) \<longleftrightarrow> lab i \<in> ?K" if "i < length nodes" for i
    unfolding m [symmetric] using t(3) that by (auto simp: marks_def)
  have K: "?K \<subseteq> words (edges nodes) lab"
    unfolding m [symmetric] by (auto simp: marks_def words_def)
  have b: "building nodes lab ?K"
    using tr K tm [of 0] t(1,2) by (simp add: building_def)
  have zero: "0 < length nodes" using t(1) by simp
  have ch: "c < length nodes \<and> c \<noteq> 0 \<and> (\<exists>b. lab c = [b])" if "c \<in> snd ` set ?ch" for c
    using that child_facts [OF b zero] t(2) by force
  have chI: "c \<in> snd ` set ?ch \<longleftrightarrow> (\<exists>b. lab c = [b])" if "c < length nodes" for c
    using t(5) [of 0 _ c] t(2) zero that by force
  have fail: "an_fail (nodes ! i) = 0" if "i < length nodes" for i
    using un that by (simp add: unlinked_def)
  have good: "good nodes lab ?K c" if "c \<in> snd ` set ?ch" for c
  proof -
    from ch [OF that] obtain x where c: "c < length nodes" "lab c = [x]" by blast
    have "link_spec (words (edges nodes) lab) (lab c) (lab 0)"
      using link_single [OF prefix_closed_words [OF tr]] c(2) t(2) by simp
    with ends_in_keyword_link [OF this K] tm [OF c(1)] fail [OF c(1)] t(2) zero show ?thesis
      by (auto simp: good_def linked_def)
  qed
  have queued: "j \<in> set (map snd ?ch) \<longleftrightarrow> i = 0"
    if "i < length nodes" "j < length nodes" "lab j = lab i @ [b]" for i j b
  proof -
    from chI [OF that(2)] that(3) have "j \<in> set (map snd ?ch) \<longleftrightarrow> lab i = lab 0"
      using t(2) by auto
    with t(3) that(1) zero show ?thesis by simp
  qed
  have one: "length (lab c) = 1" if "c \<in> set (map snd ?ch)" for c using ch that by force
  then have sorted: "sorted (map (length \<circ> lab) (map snd ?ch))"
    by (intro sorted_constant [where k = 1]) auto
  have bound: "\<forall>j \<in> set (map snd ?ch). length (lab j) \<le> Suc (length (lab (map snd ?ch ! 0)))"
    using one by simp
  have untouched: "untouched nodes lab ?K j" if "j < length nodes" for j
    using fail [OF that] tm [OF that] by (simp add: untouched_def)
  have goods: "0 < j \<and> j < length nodes \<and> good nodes lab ?K j" if "j \<in> set (map snd ?ch)" for j
    using ch [of j] good [of j] that by (simp only: set_map) blast
  have inv: "bfs_inv nodes lab ?K (map snd ?ch) 0"
    unfolding bfs_inv_def take_0 drop_0 list.set(1) empty_iff simp_thms
    using b distinct_children [OF b zero, of "ord 0"] goods queued sorted bound untouched by blast
  have "link_roots ?ch (nodes, []) = Some (nodes, map snd ?ch)"
    using link_roots_same [of ?ch nodes "[]"] ch fail by auto
  with bfs_good [OF inv, of ord] ins zero show ?thesis
    by (force simp: newAhoMatcher_def buildFailures_def automaton_def)
qed

section \<open>The scan\<close>

text \<open>
  While it scans, the matcher's state is the longest suffix of the text read so far that is a
  word of the trie, so it is marked exactly when the text read so far ends in a keyword.
\<close>

lemma automaton_terminal:
  assumes "automaton nodes lab K" and "s < length nodes"
    and "longest (words (edges nodes) lab) p (lab s)"
  shows "an_terminal (nodes ! s) \<longleftrightarrow> (\<exists>k \<in> K. suffix k p)"
proof -
  from assms(1) have b: "building nodes lab K" by (simp add: automaton_def)
  then have "an_terminal (nodes ! s) \<longleftrightarrow> (\<exists>k \<in> K. suffix k (lab s))"
    using assms(1,2) trieD(2) [of "edges nodes" lab]
    by (cases "s = 0") (auto simp: automaton_def good_def building_def)
  with ends_in_keyword_longest [OF assms(3)] b show ?thesis by (simp add: building_def)
qed

lemma match_from_correct:
  assumes "automaton nodes lab K" and "s < length nodes"
    and "longest (words (edges nodes) lab) p (lab s)"
  shows "match_from nodes s v = Some (\<exists>q. q \<noteq> [] \<and> prefix q v \<and> (\<exists>k \<in> K. suffix k (p @ q)))"
  using assms(2,3)
proof (induction v arbitrary: s p)
  case Nil
  then show ?case by simp
next
  case (Cons b v)
  from assms(1) have tr: "trie (edges nodes) lab"
    and linked: "\<And>i. i < length nodes \<Longrightarrow> i \<noteq> 0 \<Longrightarrow> linked nodes lab i"
    by (auto simp: automaton_def building_def good_def)
  from nextState_longest [OF tr Cons.prems(1) linked, of b] obtain t where
    t: "nextState nodes s b = Some t" "t < length nodes"
      "longest (words (edges nodes) lab) (lab s @ [b]) (lab t)" by blast
  from longest_trans [OF Cons.prems(2) prefix_closed_words [OF tr] t(3)]
  have pt: "longest (words (edges nodes) lab) (p @ [b]) (lab t)" .
  have split: "(\<exists>q. q \<noteq> [] \<and> prefix q (b # v) \<and> (\<exists>k \<in> K. suffix k (p @ q))) \<longleftrightarrow>
      (\<exists>k \<in> K. suffix k (p @ [b])) \<or>
      (\<exists>q. q \<noteq> [] \<and> prefix q v \<and> (\<exists>k \<in> K. suffix k ((p @ [b]) @ q)))" (is "?l \<longleftrightarrow> ?r")
  proof
    assume ?l
    then obtain q where q: "prefix q v" "\<exists>k \<in> K. suffix k (p @ b # q)"
      by (auto simp: prefix_Cons)
    then show ?r by (cases "q = []") auto
  next
    assume ?r
    then show ?l
    proof
      assume "\<exists>k \<in> K. suffix k (p @ [b])"
      then show ?l by (intro exI [of _ "[b]"]) simp
    next
      assume "\<exists>q. q \<noteq> [] \<and> prefix q v \<and> (\<exists>k \<in> K. suffix k ((p @ [b]) @ q))"
      then obtain q where "prefix q v" "\<exists>k \<in> K. suffix k (p @ b # q)" by auto
      then show ?l by (intro exI [of _ "b # q"]) simp
    qed
  qed
  from t(1,2) have "match_from nodes s (b # v) =
      (if an_terminal (nodes ! t) then Some True else match_from nodes t v)" by simp
  also have "\<dots> = Some (\<exists>q. q \<noteq> [] \<and> prefix q (b # v) \<and> (\<exists>k \<in> K. suffix k (p @ q)))"
    unfolding split automaton_terminal [OF assms(1) t(2) pt] Cons.IH [OF t(2) pt]
    by (cases "\<exists>k \<in> K. suffix k (p @ [b])") (simp_all only: if_True if_False simp_thms)
  finally show ?case .
qed

lemma aho_match_sublist:
  "\<exists>m. newAhoMatcher ord ks = Some m \<and>
     aho_match (Some m) v = Some (\<exists>k \<in> set ks. k \<noteq> [] \<and> sublist k v)"
proof -
  from newAhoMatcher_automaton [of ord ks] obtain nodes lab where
    m: "newAhoMatcher ord ks = Some nodes" and a: "automaton nodes lab (set ks - {[]})" by blast
  from a have tr: "trie (edges nodes) lab" by (simp add: automaton_def building_def)
  have "longest (words (edges nodes) lab) [] (lab 0)"
    using trieD(2) [OF tr] tr by (simp add: longest_def)
  from match_from_correct [OF a _ this] trieD(1) [OF tr]
  have "match_from nodes 0 v = Some (\<exists>q. q \<noteq> [] \<and> prefix q v \<and> (\<exists>k \<in> set ks - {[]}. suffix k q))"
    by simp
  moreover have "(\<exists>q. q \<noteq> [] \<and> prefix q v \<and> (\<exists>k \<in> set ks - {[]}. suffix k q)) \<longleftrightarrow>
      (\<exists>k \<in> set ks. k \<noteq> [] \<and> sublist k v)"
  proof -
    have "q \<noteq> []" if "suffix k q" "k \<noteq> []" for k q :: string using that by auto
    then show ?thesis unfolding sublist_altdef by blast
  qed
  moreover have "nodes \<noteq> []" using trieD(1) [OF tr] by auto
  ultimately show ?thesis using m by (simp add: aho_match_def)
qed

section \<open>The interface\<close>

text \<open>
  What the keyword rule relies on: building a matcher always succeeds, and scanning with it always
  ends with the answer whether some non-empty keyword occurs in the text.
\<close>

locale keyword_matcher =
  fixes build :: "string list \<Rightarrow> 'm option"
    and scan :: "'m \<Rightarrow> string \<Rightarrow> bool option"
  assumes scan_build:
    "\<exists>m. build ks = Some m \<and> scan m v = Some (\<exists>k \<in> set ks. k \<noteq> [] \<and> sublist k v)"
begin

lemma build_total: "\<exists>m. build ks = Some m"
  using scan_build by blast

lemma scan_correct: "build ks = Some m \<Longrightarrow> scan m v = Some (\<exists>k \<in> set ks. k \<noteq> [] \<and> sublist k v)"
  using scan_build [of ks v] by auto

text \<open>More keywords never lose a match, and the order of the keywords does not matter.\<close>

lemma scan_mono:
  "build ks = Some m \<Longrightarrow> build ks' = Some m' \<Longrightarrow> set ks \<subseteq> set ks' \<Longrightarrow> scan m v = Some True \<Longrightarrow>
     scan m' v = Some True"
  by (auto simp: scan_correct)

end

interpretation aho: keyword_matcher "newAhoMatcher ord" "\<lambda>m. aho_match (Some m)" for ord
  by unfold_locales (rule aho_match_sublist)

section \<open>Properties\<close>

text \<open>
  C6. The Aho-Corasick matcher is correct: for every list of keywords, every text and every order
  in which Go may iterate over the nodes' maps, building the automaton and scanning the text ends
  without an index out of range, and the answer is whether some non-empty keyword occurs in the
  text as a contiguous substring.
\<close>

theorem aho_matcher_correct:
  "Option.bind (newAhoMatcher ord ks) (\<lambda>m. aho_match (Some m) v) =
     Some (\<exists>k \<in> set ks. k \<noteq> [] \<and> sublist k v)"
  using aho.scan_build [where ord = ord and ks = ks and v = v] by auto

end
