(* ===== verification/Keyword_Rule.thy ===== *)
theory Keyword_Rule
  imports Rule_Action Aho_Matcher
begin

text \<open>
  \<open>internal/rules/keyword.go\<close>: construction of a keyword rule (validation, normalisation of the
  keywords, the matcher) and its evaluation on a request. \<open>ulow\<close> is the Unicode case table of
  \<open>strings.ToLower\<close> and \<open>ord\<close> the order of map iteration while the matcher is built.
\<close>

record KeywordRule =
  kr_id :: string
  kr_field :: string
  kr_matcher :: "ahoMatcher option"
  kr_onMatch :: RuleAction

definition normalize_keywords :: "(nat \<Rightarrow> nat) \<Rightarrow> string list \<Rightarrow> string list" where
  "normalize_keywords ulow ks = filter (\<lambda>k. k \<noteq> []) (map (\<lambda>k. ToLower ulow (TrimSpace k)) ks)"

definition NewKeywordRule ::
    "(nat \<Rightarrow> nat) \<Rightarrow> map_order \<Rightarrow> KeywordRuleConfig \<Rightarrow> gerror + KeywordRule" where
  "NewKeywordRule ulow ord cfg =
     (if TrimSpace (kc_ID cfg) = [] then Inl (Errorf ''keyword rule id is required'')
      else if kc_Field cfg \<noteq> ''content.title'' \<and> kc_Field cfg \<noteq> ''content.description''
      then Inl (Errorf ''keyword rule field must be content.title or content.description'')
      else case validate (kc_OnMatch cfg) ''keyword on_match'' of
        Some err \<Rightarrow> Inl err
      | None \<Rightarrow>
          (case newAhoMatcher ord (normalize_keywords ulow (kc_Keywords cfg)) of
             None \<Rightarrow> Inl NoReturn
           | Some matcher \<Rightarrow>
               Inr \<lparr>kr_id = kc_ID cfg, kr_field = kc_Field cfg, kr_matcher = Some matcher,
                    kr_onMatch = kc_OnMatch cfg\<rparr>))"

definition field_value :: "string \<Rightarrow> ContentContext \<Rightarrow> string" where
  "field_value field content =
     (if field = ''content.title'' then cc_Title content
      else if field = ''content.description'' then cc_Description content
      else [])"

definition KeywordRule_Evaluate ::
    "(nat \<Rightarrow> nat) \<Rightarrow> KeywordRule \<Rightarrow> ctx \<Rightarrow> EvalState \<Rightarrow> 'r evaluation" where
  "KeywordRule_Evaluate ulow r c state =
     with_live c (\<lambda>w.
       case kr_matcher r of
         None \<Rightarrow> (Inr (unmatched (kr_id r)), w)
       | Some m \<Rightarrow>
           (case aho_match (Some m)
               (ToLower ulow (field_value (kr_field r) (dr_Content (es_Request state)))) of
              None \<Rightarrow> (Inl NoReturn, w)
            | Some True \<Rightarrow>
                (Inr (matched (kr_id r) (ra_Verdict (kr_onMatch r)) (ra_Code (kr_onMatch r))), w)
            | Some False \<Rightarrow> (Inr (unmatched (kr_id r)), w)))"

text \<open>The rule as a value of the engine's interface.\<close>

definition keyword_rule :: "(nat \<Rightarrow> nat) \<Rightarrow> KeywordRule \<Rightarrow> 'r rule" where
  "keyword_rule ulow r = \<lparr>rule_ID = kr_id r, rule_Evaluate = KeywordRule_Evaluate ulow r,
     rule_Aware = None\<rparr>"

section \<open>Construction\<close>

text \<open>The abstract view: when a text contains one of the configured keywords.\<close>

definition contains_keyword :: "(nat \<Rightarrow> nat) \<Rightarrow> string list \<Rightarrow> string \<Rightarrow> bool" where
  "contains_keyword ulow ks s \<longleftrightarrow>
     (\<exists>k \<in> set ks. ToLower ulow (TrimSpace k) \<noteq> [] \<and>
        sublist (ToLower ulow (TrimSpace k)) (ToLower ulow s))"

lemma contains_keyword_normalized:
  "contains_keyword ulow ks s \<longleftrightarrow>
     (\<exists>k \<in> set (normalize_keywords ulow ks). k \<noteq> [] \<and> sublist k (ToLower ulow s))"
  by (auto simp: contains_keyword_def normalize_keywords_def)

definition valid_keyword_config :: "KeywordRuleConfig \<Rightarrow> bool" where
  "valid_keyword_config cfg \<longleftrightarrow> TrimSpace (kc_ID cfg) \<noteq> [] \<and>
     (kc_Field cfg = ''content.title'' \<or> kc_Field cfg = ''content.description'') \<and>
     valid_action (kc_OnMatch cfg)"

lemma NewKeywordRule_cases:
  "NewKeywordRule ulow ord cfg =
     (if valid_keyword_config cfg
      then Inr \<lparr>kr_id = kc_ID cfg, kr_field = kc_Field cfg,
        kr_matcher = newAhoMatcher ord (normalize_keywords ulow (kc_Keywords cfg)),
        kr_onMatch = kc_OnMatch cfg\<rparr>
      else NewKeywordRule ulow ord cfg) \<and>
   (isl (NewKeywordRule ulow ord cfg) \<longleftrightarrow> \<not> valid_keyword_config cfg) \<and>
   NewKeywordRule ulow ord cfg \<noteq> Inl NoReturn"
proof -
  obtain m where m: "newAhoMatcher ord (normalize_keywords ulow (kc_Keywords cfg)) = Some m"
    using aho.build_total by blast
  show ?thesis
  proof (cases "validate (kc_OnMatch cfg) ''keyword on_match''")
    case None
    moreover from this have "valid_action (kc_OnMatch cfg)" by (simp add: validate_None_iff)
    ultimately show ?thesis using m by (auto simp: NewKeywordRule_def valid_keyword_config_def)
  next
    case (Some err)
    then have "\<not> valid_action (kc_OnMatch cfg)"
      using validate_None_iff [of "kc_OnMatch cfg" "''keyword on_match''"] by simp
    moreover from Some have "err \<noteq> NoReturn" by (auto simp: validate_def split: if_splits)
    ultimately show ?thesis using Some by (auto simp: NewKeywordRule_def valid_keyword_config_def)
  qed
qed

lemma NewKeywordRule_Inr:
  assumes "NewKeywordRule ulow ord cfg = Inr r"
  shows "valid_keyword_config cfg" and "kr_id r = kc_ID cfg" and "kr_field r = kc_Field cfg"
    and "kr_onMatch r = kc_OnMatch cfg"
    and "kr_matcher r = newAhoMatcher ord (normalize_keywords ulow (kc_Keywords cfg))"
  using assms NewKeywordRule_cases [of ulow ord cfg] by (auto split: if_splits)

section \<open>Evaluation\<close>

lemma KeywordRule_Evaluate_built:
  assumes "NewKeywordRule ulow ord cfg = Inr r" and "c (polls w) = None"
  shows "KeywordRule_Evaluate ulow r c state w =
    (Inr (if contains_keyword ulow (kc_Keywords cfg)
               (field_value (kc_Field cfg) (dr_Content (es_Request state)))
          then matched (kc_ID cfg) (ra_Verdict (kc_OnMatch cfg)) (ra_Code (kc_OnMatch cfg))
          else unmatched (kc_ID cfg)), snd (poll c w))"
proof -
  let ?v = "ToLower ulow (field_value (kc_Field cfg) (dr_Content (es_Request state)))"
  note r = NewKeywordRule_Inr [OF assms(1)]
  let ?b = "contains_keyword ulow (kc_Keywords cfg)
    (field_value (kc_Field cfg) (dr_Content (es_Request state)))"
  obtain m where m: "kr_matcher r = Some m" and scan: "aho_match (Some m) ?v = Some ?b"
    using aho.scan_build [where ord = ord and ks = "normalize_keywords ulow (kc_Keywords cfg)" and v = ?v]
      r(5) by (auto simp: contains_keyword_normalized)
  show ?thesis
    using assms(2) r(2-4) m scan
    by (cases ?b) (simp_all add: KeywordRule_Evaluate_def with_live_def poll_def)
qed

lemma keyword_rule_contract:
  assumes "valid_action (kr_onMatch r)" and "kr_matcher r = newAhoMatcher ord ks"
  shows "rule_contract (keyword_rule ulow r)"
proof (rule rule_contractI)
  fix c byID w out w' and state :: EvalState
  let ?v = "ToLower ulow (field_value (kr_field r) (dr_Content (es_Request state)))"
  obtain m b where m: "kr_matcher r = Some m" "aho_match (Some m) ?v = Some b"
    using aho.scan_build [where ord = ord and ks = ks and v = ?v] assms(2) by auto
  assume "invoke (keyword_rule ulow r) c state byID w = (out, w')"
  then show "case out of Inl e \<Rightarrow> e \<noteq> NoReturn | Inr res \<Rightarrow> well_formed (rule_ID (keyword_rule ulow r)) res"
    using m well_formed_matched [OF assms(1)]
    by (auto simp: invoke_def keyword_rule_def KeywordRule_Evaluate_def with_live_def
        split: option.splits prod.splits bool.splits)
next
  fix c state byID w out w'
  assume "invoke (keyword_rule ulow r) c state byID w = (out, w')"
  then show "engine_frame w w'"
    by (auto simp: invoke_def keyword_rule_def KeywordRule_Evaluate_def
        split: option.splits bool.splits elim!: with_live_frame [rotated])
qed

interpretation keyword: rule_constructor "NewKeywordRule ulow ord" "keyword_rule ulow" kc_ID "\<lambda>_. True"
  for ulow ord
proof
  fix cfg :: KeywordRuleConfig and m
  assume m: "NewKeywordRule ulow ord cfg = Inr m"
  from NewKeywordRule_Inr [OF m] have "valid_action (kr_onMatch m)"
    by (simp add: valid_keyword_config_def)
  then show "rule_contract (keyword_rule ulow m)"
    using NewKeywordRule_Inr(5) [OF m] by (rule keyword_rule_contract)
  from NewKeywordRule_Inr(2) [OF m] show "rule_ID (keyword_rule ulow m) = kc_ID cfg"
    by (simp add: keyword_rule_def)
next
  show "NewKeywordRule ulow ord cfg \<noteq> Inl NoReturn" for cfg
    using NewKeywordRule_cases by blast
qed

section \<open>Properties\<close>

text \<open>
  C24. A keyword rule does what its configuration says. Construction succeeds exactly for a
  non-blank id, one of the two content fields and a valid action; evaluated under a live context,
  the rule matches exactly when the configured field contains, ignoring case, one of the
  configured keywords that is not blank after trimming, and then yields the configured verdict and
  code; otherwise it yields the unmatched allow result. It never fails, and it changes nothing.
\<close>

theorem keyword_rule_correct:
  assumes "NewKeywordRule ulow ord cfg = Inr r" and "c (polls w) = None"
  shows "valid_keyword_config cfg \<and>
    (\<exists>w'. invoke (keyword_rule ulow r) c state byID w =
      (Inr (if contains_keyword ulow (kc_Keywords cfg)
                 (field_value (kc_Field cfg) (dr_Content (es_Request state)))
            then matched (kc_ID cfg) (ra_Verdict (kc_OnMatch cfg)) (ra_Code (kc_OnMatch cfg))
            else unmatched (kc_ID cfg)), w') \<and>
      tel w' = tel w \<and> ext w' = ext w)"
  using NewKeywordRule_Inr(1) [OF assms(1)] KeywordRule_Evaluate_built [where c = c and w = w and state = state, OF assms]
  by (simp add: invoke_def keyword_rule_def world_simps)

definition sample_keyword_config :: KeywordRuleConfig where
  "sample_keyword_config = \<lparr>kc_ID = ''k'', kc_Field = ''content.title'',
     kc_Keywords = ['' DEM '', '' ''], kc_OnMatch = \<lparr>ra_Verdict = ''block'', ra_Code = ''bad''\<rparr>\<rparr>"

theorem keyword_rule_correct_witness:
  "\<exists>r w'. NewKeywordRule id (\<lambda>_. []) sample_keyword_config = Inr r \<and>
     invoke (keyword_rule id r) background \<lparr>es_Request = sample_request,
       es_Features = zero_ActorFeatures, es_FeatureDegraded = False, es_DegradedWarnings = []\<rparr>
       Map.empty (start_world ()) = (Inr (matched ''k'' ''block'' ''bad''), w')"
proof -
  have "valid_keyword_config sample_keyword_config" by code_simp
  then obtain r where r: "NewKeywordRule id (\<lambda>_. []) sample_keyword_config = Inr r"
    using NewKeywordRule_cases [of id "\<lambda>_. []" sample_keyword_config] by (auto split: if_splits)
  have hit: "contains_keyword id (kc_Keywords sample_keyword_config)
      (field_value (kc_Field sample_keyword_config) (dr_Content sample_request))"
    by code_simp
  let ?state = "\<lparr>es_Request = sample_request, es_Features = zero_ActorFeatures,
    es_FeatureDegraded = False, es_DegradedWarnings = []\<rparr>"
  from keyword_rule_correct [where c = background and w = "start_world ()" and state = ?state, OF r] hit
  have "\<exists>w'. invoke (keyword_rule id r) background ?state byID (start_world ()) =
      (Inr (matched (kc_ID sample_keyword_config) (ra_Verdict (kc_OnMatch sample_keyword_config))
        (ra_Code (kc_OnMatch sample_keyword_config))), w')" for byID
    by auto
  with r show ?thesis by (simp add: sample_keyword_config_def)
qed

end
