(* ===== verification/Combiner_Rule.thy ===== *)
theory Combiner_Rule
  imports Rule_Action
begin

text \<open>
  \<open>internal/rules/combiner.go\<close>: a rule over the results of the rules before it. The loop over the
  referenced rules is a recursive function that threads the count of matches, the notes on skipped
  dependencies and the world, whose dependency-error counter it increments.
\<close>

record CombinerRule =
  cr_id :: string
  cr_op :: string
  cr_of :: "string list"
  cr_onMatch :: RuleAction

definition NewCombinerRule :: "CombinerRuleConfig \<Rightarrow> gerror + CombinerRule" where
  "NewCombinerRule cfg =
     (if TrimSpace (bc_ID cfg) = [] then Inl (Errorf ''combiner rule id is required'')
      else if bc_Op cfg \<noteq> ''all'' \<and> bc_Op cfg \<noteq> ''any''
      then Inl (Errorf ''combiner op must be all or any'')
      else if bc_Of cfg = [] then Inl (Errorf ''combiner requires referenced rules'')
      else case validate (bc_OnMatch cfg) ''combiner on_match'' of
        Some err \<Rightarrow> Inl err
      | None \<Rightarrow> Inr \<lparr>cr_id = bc_ID cfg, cr_op = bc_Op cfg, cr_of = bc_Of cfg,
                    cr_onMatch = bc_OnMatch cfg\<rparr>)"

definition skip_note :: "string \<Rightarrow> string" where
  "skip_note ref = ''skipped_dep='' @ ref @ '' status=dependency_error''"

fun combine_deps ::
    "string \<Rightarrow> (string \<rightharpoonup> RuleResult) \<Rightarrow> string list \<Rightarrow> nat \<Rightarrow> string list \<Rightarrow> 'r world
       \<Rightarrow> (gerror + nat \<times> string list) \<times> 'r world" where
  "combine_deps i prior [] matchedCount skipped w = (Inr (matchedCount, skipped), w)"
| "combine_deps i prior (ref # refs) matchedCount skipped w =
     (case prior ref of
        None \<Rightarrow> (Inl (Errorf ''combiner dependency has not been evaluated''), w)
      | Some result \<Rightarrow>
          if rr_Err result \<noteq> None then
            combine_deps i prior refs matchedCount (skipped @ [skip_note ref])
              (tel_upd (\<lambda>t. t\<lparr>CombinerDepErrorsTotal := inc (i, ref) (CombinerDepErrorsTotal t)\<rparr>) w)
          else combine_deps i prior refs
                 (if rr_Matched result then Suc matchedCount else matchedCount) skipped w)"

definition combiner_result :: "CombinerRule \<Rightarrow> nat \<Rightarrow> string list \<Rightarrow> RuleResult" where
  "combiner_result r matchedCount skipped =
     (let m = (if cr_op r = ''any'' then 0 < matchedCount else matchedCount = length (cr_of r));
          detail = Join skipped ''; ''
      in if \<not> m
         then \<lparr>rr_RuleID = cr_id r, rr_Matched = False, rr_Verdict = VerdictAllow,
               rr_Reason = \<lparr>rs_Code = [], rs_Rule = cr_id r, rs_Detail = detail\<rparr>, rr_Err = None\<rparr>
         else \<lparr>rr_RuleID = cr_id r, rr_Matched = True, rr_Verdict = ra_Verdict (cr_onMatch r),
               rr_Reason = \<lparr>rs_Code = ra_Code (cr_onMatch r), rs_Rule = cr_id r, rs_Detail = detail\<rparr>,
               rr_Err = None\<rparr>)"

definition EvaluateWithResults ::
    "CombinerRule \<Rightarrow> ctx \<Rightarrow> EvalState \<Rightarrow> (string \<rightharpoonup> RuleResult) option \<Rightarrow> 'r evaluation" where
  "EvaluateWithResults r c state prior =
     with_live c (\<lambda>w.
       case prior of
         None \<Rightarrow> (Inr (unmatched (cr_id r)), w)
       | Some results \<Rightarrow>
           (case combine_deps (cr_id r) results (cr_of r) 0 [] w of
              (Inl err, w) \<Rightarrow> (Inl err, w)
            | (Inr (matchedCount, skipped), w) \<Rightarrow> (Inr (combiner_result r matchedCount skipped), w)))"

definition CombinerRule_Evaluate :: "CombinerRule \<Rightarrow> ctx \<Rightarrow> EvalState \<Rightarrow> 'r evaluation" where
  "CombinerRule_Evaluate r c state = EvaluateWithResults r c state None"

definition Dependencies :: "CombinerRule \<Rightarrow> string list" where
  "Dependencies r = cr_of r"

definition combiner_rule :: "CombinerRule \<Rightarrow> 'r rule" where
  "combiner_rule r = \<lparr>rule_ID = cr_id r, rule_Evaluate = CombinerRule_Evaluate r,
     rule_Aware = Some (Dependencies r, EvaluateWithResults r)\<rparr>"

section \<open>The loop\<close>

text \<open>The dependencies that failed and those that matched.\<close>

definition dep_failed :: "(string \<rightharpoonup> RuleResult) \<Rightarrow> string \<Rightarrow> bool" where
  "dep_failed prior ref \<longleftrightarrow> (case prior ref of None \<Rightarrow> False | Some r \<Rightarrow> rr_Err r \<noteq> None)"

definition dep_matched :: "(string \<rightharpoonup> RuleResult) \<Rightarrow> string \<Rightarrow> bool" where
  "dep_matched prior ref \<longleftrightarrow>
     (case prior ref of None \<Rightarrow> False | Some r \<Rightarrow> rr_Err r = None \<and> rr_Matched r)"

definition count_dep_errors :: "string \<Rightarrow> string list \<Rightarrow> telemetry \<Rightarrow> telemetry" where
  "count_dep_errors i refs t =
     t\<lparr>CombinerDepErrorsTotal := fold (\<lambda>ref. inc (i, ref)) refs (CombinerDepErrorsTotal t)\<rparr>"

lemma combine_deps_available:
  assumes "set refs \<subseteq> dom prior"
  shows "combine_deps i prior refs n skipped w =
    (Inr (n + length (filter (dep_matched prior) refs),
          skipped @ map skip_note (filter (dep_failed prior) refs)),
     tel_upd (count_dep_errors i (filter (dep_failed prior) refs)) w)"
  using assms
proof (induction refs arbitrary: n skipped w)
  case Nil
  then show ?case by (simp add: count_dep_errors_def tel_upd_def)
next
  case (Cons ref refs)
  from Cons.prems obtain r where r: "prior ref = Some r" by auto
  have refs: "set refs \<subseteq> dom prior" using Cons.prems by simp
  show ?case
    by (cases "rr_Err r")
      (simp_all add: r Cons.IH [OF refs] dep_failed_def dep_matched_def count_dep_errors_def tel_upd_def)
qed

lemma combine_deps_missing:
  "\<not> set refs \<subseteq> dom prior \<Longrightarrow>
     fst (combine_deps i prior refs n skipped w) =
       Inl (Errorf ''combiner dependency has not been evaluated'')"
  by (induction refs arbitrary: n skipped w) (auto split: option.splits)

lemma combine_deps_errors:
  "combine_deps i prior refs n skipped w = (Inl e, w') \<Longrightarrow>
     e = Errorf ''combiner dependency has not been evaluated''"
  by (induction refs arbitrary: n skipped w) (auto split: option.splits if_splits)

lemma combine_deps_frame:
  "combine_deps i prior refs n skipped w = (out, w') \<Longrightarrow> engine_frame w w'"
proof (induction refs arbitrary: n skipped w)
  case Nil
  then show ?case by simp
next
  case (Cons ref refs)
  have upd: "engine_frame w (tel_upd
      (\<lambda>t. t\<lparr>CombinerDepErrorsTotal := inc (i, ref) (CombinerDepErrorsTotal t)\<rparr>) w)" for w
    by (simp add: engine_frame_def world_simps)
  from Cons show ?case
    by (auto split: option.splits if_splits intro: engine_frame_trans [OF upd])
qed

lemma EvaluateWithResults_available:
  assumes "set (cr_of r) \<subseteq> dom prior" and "c (polls w) = None"
  shows "EvaluateWithResults r c state (Some prior) w =
    (Inr (combiner_result r (length (filter (dep_matched prior) (cr_of r)))
           (map skip_note (filter (dep_failed prior) (cr_of r)))),
     tel_upd (count_dep_errors (cr_id r) (filter (dep_failed prior) (cr_of r))) (snd (poll c w)))"
  using assms(2)
  by (simp add: EvaluateWithResults_def with_live_def poll_def combine_deps_available [OF assms(1)])

lemma count_dep_errors_at:
  "CombinerDepErrorsTotal (count_dep_errors i refs t) (i, ref) =
     CombinerDepErrorsTotal t (i, ref) + count_list refs ref"
proof -
  have "fold (\<lambda>ref. inc (i, ref)) refs f (i, ref) = f (i, ref) + count_list refs ref" for f
    by (induction refs arbitrary: f) (auto simp: inc_apply)
  then show ?thesis by (simp add: count_dep_errors_def)
qed

section \<open>Construction and contract\<close>

definition valid_combiner_config :: "CombinerRuleConfig \<Rightarrow> bool" where
  "valid_combiner_config cfg \<longleftrightarrow> TrimSpace (bc_ID cfg) \<noteq> [] \<and>
     (bc_Op cfg = ''all'' \<or> bc_Op cfg = ''any'') \<and> bc_Of cfg \<noteq> [] \<and> valid_action (bc_OnMatch cfg)"

lemma NewCombinerRule_Inr:
  "NewCombinerRule cfg = Inr r \<longleftrightarrow> valid_combiner_config cfg \<and>
     r = \<lparr>cr_id = bc_ID cfg, cr_op = bc_Op cfg, cr_of = bc_Of cfg, cr_onMatch = bc_OnMatch cfg\<rparr>"
  by (auto simp: NewCombinerRule_def valid_combiner_config_def
      validate_None_iff [symmetric, where ctxt = "''combiner on_match''"] split: option.splits)

lemma combiner_result_well_formed:
  "valid_action (cr_onMatch r) \<Longrightarrow> well_formed (cr_id r) (combiner_result r n skipped)"
  by (simp add: well_formed_def combiner_result_def valid_action_def Let_def)

lemma combiner_rule_contract:
  assumes "valid_action (cr_onMatch r)"
  shows "rule_contract (combiner_rule r)"
proof (rule rule_contractI)
  fix c state byID w out w'
  assume "invoke (combiner_rule r) c state byID w = (out, w')"
  then show "case out of Inl e \<Rightarrow> e \<noteq> NoReturn | Inr res \<Rightarrow> well_formed (rule_ID (combiner_rule r)) res"
    using combiner_result_well_formed [OF assms]
    by (auto simp: invoke_def combiner_rule_def EvaluateWithResults_def with_live_def
        dest!: combine_deps_errors split: prod.splits sum.splits option.splits)
next
  fix c state byID w out w'
  assume "invoke (combiner_rule r) c state byID w = (out, w')"
  then show "engine_frame w w'"
    by (auto simp: invoke_def combiner_rule_def EvaluateWithResults_def elim!: with_live_frame [rotated]
        dest: combine_deps_frame split: prod.splits sum.splits)
qed

interpretation combiner: rule_constructor NewCombinerRule combiner_rule bc_ID "\<lambda>_. True"
proof
  fix cfg m
  assume "NewCombinerRule cfg = Inr m"
  then show "rule_contract (combiner_rule m)" and "rule_ID (combiner_rule m) = bc_ID cfg"
    using combiner_rule_contract [of m]
    by (auto simp: NewCombinerRule_Inr valid_combiner_config_def combiner_rule_def)
next
  show "NewCombinerRule cfg \<noteq> Inl NoReturn" for cfg
    by (auto simp: NewCombinerRule_def validate_def split: option.splits)
qed

section \<open>Properties\<close>

text \<open>
  C25. A combiner whose dependencies have all been evaluated always answers: with op \<open>all\<close> it
  matches exactly when every dependency matched without an error, with \<open>any\<close> exactly when some did;
  the detail of its reason names the dependencies that failed, in order, and for each of them the
  dependency-error counter grows by the number of times it is referenced.
\<close>

theorem combiner_correct:
  assumes "NewCombinerRule cfg = Inr r" and "set (bc_Of cfg) \<subseteq> dom prior" and "c (polls w) = None"
  shows "\<exists>res w'. invoke (combiner_rule r) c state prior w = (Inr res, w') \<and>
    rr_Matched res =
      (if bc_Op cfg = ''all'' then (\<forall>ref \<in> set (bc_Of cfg). dep_matched prior ref)
       else (\<exists>ref \<in> set (bc_Of cfg). dep_matched prior ref)) \<and>
    rr_Verdict res = (if rr_Matched res then ra_Verdict (bc_OnMatch cfg) else VerdictAllow) \<and>
    rs_Code (rr_Reason res) = (if rr_Matched res then ra_Code (bc_OnMatch cfg) else []) \<and>
    rs_Detail (rr_Reason res) = Join (map skip_note (filter (dep_failed prior) (bc_Of cfg))) ''; '' \<and>
    (\<forall>ref. CombinerDepErrorsTotal (tel w') (bc_ID cfg, ref) =
       CombinerDepErrorsTotal (tel w) (bc_ID cfg, ref) +
       (if dep_failed prior ref then count_list (bc_Of cfg) ref else 0))"
proof -
  from assms(1) have r: "r = \<lparr>cr_id = bc_ID cfg, cr_op = bc_Op cfg, cr_of = bc_Of cfg,
      cr_onMatch = bc_OnMatch cfg\<rparr>" and op: "bc_Op cfg = ''all'' \<or> bc_Op cfg = ''any''"
    by (auto simp: NewCombinerRule_Inr valid_combiner_config_def)
  have all: "length (filter (dep_matched prior) xs) = length xs \<longleftrightarrow> (\<forall>x \<in> set xs. dep_matched prior x)" for xs
    by (metis filter_id_conv filter_True length_filter_less less_irrefl)
  have count: "count_list (filter (dep_failed prior) xs) ref =
      (if dep_failed prior ref then count_list xs ref else 0)" for xs ref
    by (induction xs) auto
  have "invoke (combiner_rule r) c state prior w = EvaluateWithResults r c state (Some prior) w"
    by (simp add: invoke_def combiner_rule_def)
  with EvaluateWithResults_available [of r prior c w state] assms(2,3) r op all [of "bc_Of cfg"]
  show ?thesis
    by (auto simp: combiner_result_def Let_def world_simps count_dep_errors_at count filter_empty_conv)
qed

text \<open>
  A dependency that was not evaluated makes the combiner fail, whatever the others did: under a
  live context a reference without a result is an error of the rule, never a silent non-match.
\<close>

theorem combiner_missing_dependency:
  assumes "\<not> set (cr_of r) \<subseteq> dom prior" and "c (polls w) = None"
  shows "fst (invoke (combiner_rule r) c state prior w) =
    Inl (Errorf ''combiner dependency has not been evaluated'')"
proof -
  obtain out w' where deps:
    "combine_deps (cr_id r) prior (cr_of r) 0 [] (snd (poll c w)) = (out, w')"
    by (cases "combine_deps (cr_id r) prior (cr_of r) 0 [] (snd (poll c w))")
  with combine_deps_missing [OF assms(1), of "cr_id r" 0 "[]" "snd (poll c w)"]
  have "out = Inl (Errorf ''combiner dependency has not been evaluated'')" by simp
  with deps assms(2) show ?thesis
    by (simp add: invoke_def combiner_rule_def EvaluateWithResults_def with_live_def poll_def)
qed

text \<open>A combiner over two rules for the witnesses: the first one matched, the second failed.\<close>

definition sample_combiner :: "string \<Rightarrow> CombinerRuleConfig" where
  "sample_combiner op = \<lparr>bc_ID = ''combo'', bc_Op = op, bc_Of = [''hit'', ''bad''],
     bc_OnMatch = \<lparr>ra_Verdict = ''flag'', ra_Code = ''combo_flag''\<rparr>\<rparr>"

definition sample_prior :: "string \<rightharpoonup> RuleResult" where
  "sample_prior = [''hit'' \<mapsto> matched ''hit'' VerdictBlock ''h'', ''bad'' \<mapsto> failed ''bad'' (ExtErr ''down'')]"

definition sample_state :: EvalState where
  "sample_state = \<lparr>es_Request = sample_request, es_Features = zero_ActorFeatures,
     es_FeatureDegraded = False, es_DegradedWarnings = []\<rparr>"

lemma sample_combiner_built:
  "op = ''all'' \<or> op = ''any'' \<Longrightarrow> \<exists>r. NewCombinerRule (sample_combiner op) = Inr r"
proof -
  assume "op = ''all'' \<or> op = ''any''"
  moreover have "TrimSpace ''combo'' \<noteq> []" by code_simp
  ultimately show ?thesis
    by (auto simp: NewCombinerRule_Inr valid_combiner_config_def sample_combiner_def valid_action_def
        known_verdict_def VerdictFlag_def)
qed

lemma sample_prior_deps:
  "set (bc_Of (sample_combiner op)) \<subseteq> dom sample_prior"
  "dep_failed sample_prior ''bad''" "dep_matched sample_prior ''hit''"
  "\<not> dep_failed sample_prior ''hit''" "\<not> dep_matched sample_prior ''bad''"
  by (simp_all add: sample_combiner_def sample_prior_def dep_failed_def dep_matched_def failed_def)

theorem combiner_correct_witness:
  "\<exists>r res w'. NewCombinerRule (sample_combiner ''any'') = Inr r \<and>
     invoke (combiner_rule r) background sample_state sample_prior (start_world ()) = (Inr res, w') \<and>
     rr_Matched res \<and> rs_Detail (rr_Reason res) = ''skipped_dep=bad status=dependency_error'' \<and>
     CombinerDepErrorsTotal (tel w') (''combo'', ''bad'') = 1"
proof -
  obtain r where r: "NewCombinerRule (sample_combiner ''any'') = Inr r"
    using sample_combiner_built by blast
  from combiner_correct [OF r sample_prior_deps(1), of background "start_world ()" sample_state]
  obtain res w' where "invoke (combiner_rule r) background sample_state sample_prior (start_world ()) = (Inr res, w')"
    and "rr_Matched res = (\<exists>ref \<in> set (bc_Of (sample_combiner ''any'')). dep_matched sample_prior ref)"
    and "rs_Detail (rr_Reason res) =
      Join (map skip_note (filter (dep_failed sample_prior) (bc_Of (sample_combiner ''any'')))) ''; ''"
    and "CombinerDepErrorsTotal (tel w') (bc_ID (sample_combiner ''any''), ''bad'') =
      CombinerDepErrorsTotal (tel (start_world ())) (bc_ID (sample_combiner ''any''), ''bad'') +
      (if dep_failed sample_prior ''bad'' then count_list (bc_Of (sample_combiner ''any'')) ''bad'' else 0)"
    by (auto simp: sample_combiner_def)
  with r sample_prior_deps show ?thesis
    by (auto simp: sample_combiner_def skip_note_def start_world_def telemetry_init_def)
qed

theorem combiner_missing_dependency_witness:
  "\<exists>r. NewCombinerRule (sample_combiner ''any'') = Inr r \<and>
     fst (invoke (combiner_rule r) background sample_state
       [''hit'' \<mapsto> matched ''hit'' VerdictBlock ''h''] (start_world ())) =
     Inl (Errorf ''combiner dependency has not been evaluated'')"
proof -
  obtain r where r: "NewCombinerRule (sample_combiner ''any'') = Inr r"
    using sample_combiner_built by blast
  then have "cr_of r = [''hit'', ''bad'']" by (simp add: NewCombinerRule_Inr sample_combiner_def)
  then have "\<not> set (cr_of r) \<subseteq> dom [''hit'' \<mapsto> matched ''hit'' VerdictBlock ''h'']" by simp
  from combiner_missing_dependency [where c = background and w = "start_world ()" and state = sample_state,
      OF this background_live] r show ?thesis by blast
qed

text \<open>
  The note about a failed dependency is lost exactly where the combiner fails open: an
  \<open>all\<close> combiner with a failed dependency does not match, its result carries the note in the
  reason's detail, and \<open>Combine\<close> drops that reason from the response, whatever the other results
  are. (The README says that the note is recorded in the decision.)
\<close>

theorem combiner_note_dropped:
  assumes "NewCombinerRule cfg = Inr r" and "bc_Op cfg = ''all''"
    and "set (bc_Of cfg) \<subseteq> dom prior" and "ref \<in> set (bc_Of cfg)" and "dep_failed prior ref"
    and "c (polls w) = None"
  shows "\<exists>res w'. invoke (combiner_rule r) c state prior w = (Inr res, w') \<and>
    \<not> rr_Matched res \<and> rs_Detail (rr_Reason res) \<noteq> [] \<and>
    dp_Reasons (Combine (before @ res # after)) = dp_Reasons (Combine (before @ after)) \<and>
    dp_Verdict (Combine (before @ res # after)) = dp_Verdict (Combine (before @ after))"
proof -
  let ?failed = "filter (dep_failed prior) (bc_Of cfg)"
  from assms(4,5) obtain x xs where failed: "?failed = x # xs" by (cases ?failed) (auto simp: filter_empty_conv)
  have "Join (map skip_note ?failed) ''; '' \<noteq> []"
    unfolding failed by (cases xs) (simp_all add: skip_note_def)
  moreover from assms(5) have "\<not> dep_matched prior ref"
    by (auto simp: dep_failed_def dep_matched_def split: option.splits)
  with assms(4) have "length (filter (dep_matched prior) (bc_Of cfg)) \<noteq> length (bc_Of cfg)"
    by (metis filter_id_conv length_filter_less less_irrefl)
  moreover from assms(1,2) have "r = \<lparr>cr_id = bc_ID cfg, cr_op = ''all'', cr_of = bc_Of cfg,
      cr_onMatch = bc_OnMatch cfg\<rparr>" by (simp add: NewCombinerRule_Inr)
  ultimately obtain res w' where
    res: "invoke (combiner_rule r) c state prior w = (Inr res, w')" "\<not> rr_Matched res"
      "rs_Detail (rr_Reason res) \<noteq> []"
    using EvaluateWithResults_available [of r prior c w state] assms(3,6)
    by (simp add: invoke_def combiner_rule_def combiner_result_def Let_def)
  have "dp_Reasons (Combine (before @ res # after)) = dp_Reasons (Combine (before @ after))"
    using res(2) by (simp add: Combine_reasons)
  moreover have "dp_Verdict (Combine (before @ res # after)) = dp_Verdict (Combine (before @ after))"
    by (rule Combine_skip [OF res(2)])
  ultimately show ?thesis using res by blast
qed

theorem combiner_note_dropped_witness:
  "\<exists>r res w'. NewCombinerRule (sample_combiner ''all'') = Inr r \<and>
     invoke (combiner_rule r) background sample_state sample_prior (start_world ()) = (Inr res, w') \<and>
     rs_Detail (rr_Reason res) \<noteq> [] \<and> dp_Reasons (Combine ([] @ res # [])) = []"
proof -
  obtain r where r: "NewCombinerRule (sample_combiner ''all'') = Inr r"
    using sample_combiner_built by blast
  have "\<exists>res w'. invoke (combiner_rule r) background sample_state sample_prior (start_world ()) = (Inr res, w') \<and>
    \<not> rr_Matched res \<and> rs_Detail (rr_Reason res) \<noteq> [] \<and>
    dp_Reasons (Combine ([] @ res # [])) = dp_Reasons (Combine ([] @ [])) \<and>
    dp_Verdict (Combine ([] @ res # [])) = dp_Verdict (Combine ([] @ []))"
    by (rule combiner_note_dropped [OF r _ sample_prior_deps(1) _ sample_prior_deps(2) background_live])
      (simp_all add: sample_combiner_def)
  with r show ?thesis by (auto simp: Combine_reasons)
qed

end
