(* ===== verification/CEL_Rule.thy ===== *)
theory CEL_Rule
  imports Rule_Action
begin

text \<open>
  \<open>internal/rules/cel.go\<close>. The package \<open>cel-go\<close> is a parameter: \<open>'env\<close>, \<open>'ast\<close> and \<open>'p\<close> are its
  environments, checked expressions and programs, and a value of \<open>('env, 'ast, 'p) cel\<close> is the four functions the code calls,
  with the texts of their errors.
  What is modelled is what the code does around them: validation, the variables it declares, the
  activation it builds from the request, and how it reads the outcome.
\<close>

record ('env, 'ast, 'p) cel =
  cel_NewEnv :: "string list \<Rightarrow> string + 'env"
  cel_Compile :: "'env \<Rightarrow> string \<Rightarrow> string + 'ast"
  cel_Program :: "'env \<Rightarrow> 'ast \<Rightarrow> string + 'p"
  cel_Eval :: "'p \<Rightarrow> (string \<rightharpoonup> any) \<Rightarrow> string + any"

record 'p CELRule =
  er_id :: string
  er_expr :: string
  er_onMatch :: RuleAction
  er_program :: 'p

text \<open>The variables declared in the environment.\<close>

definition cel_variables :: "string list" where
  "cel_variables = [''actor'', ''action'', ''content'', ''context'', ''features'', ''degraded'']"

definition NewCELRule :: "('env, 'ast, 'p) cel \<Rightarrow> CELRuleConfig \<Rightarrow> gerror + 'p CELRule" where
  "NewCELRule lib cfg =
     (if TrimSpace (cc_ID cfg) = [] then Inl (Errorf ''cel rule id is required'')
      else if TrimSpace (cc_Expr cfg) = [] then Inl (Errorf ''cel rule expr is required'')
      else case validate (cc_OnMatch cfg) ''cel on_match'' of
        Some err \<Rightarrow> Inl err
      | None \<Rightarrow>
          (case cel_NewEnv lib cel_variables of
             Inl err \<Rightarrow> Inl (ExtErr err)
           | Inr env \<Rightarrow>
               (case cel_Compile lib env (cc_Expr cfg) of
                  Inl issues \<Rightarrow> Inl (ExtErr issues)
                | Inr ast \<Rightarrow>
                    (case cel_Program lib env ast of
                       Inl err \<Rightarrow> Inl (ExtErr err)
                     | Inr program \<Rightarrow>
                         Inr \<lparr>er_id = cc_ID cfg, er_expr = cc_Expr cfg,
                              er_onMatch = cc_OnMatch cfg, er_program = program\<rparr>))))"

definition featuresActivation :: "ActorFeatures \<Rightarrow> (string \<rightharpoonup> any)" where
  "featuresActivation features =
     [''publishes_5m'' \<mapsto> AInt (af_Publishes5M features),
      ''publishes_1h'' \<mapsto> AInt (af_Publishes1H features),
      ''publishes_24h'' \<mapsto> AInt (af_Publishes24H features),
      ''blocks_24h'' \<mapsto> AInt (af_Blocks24H features),
      ''flags_7d'' \<mapsto> AInt (af_Flags7D features),
      ''comment_burst_1m'' \<mapsto> AInt (af_CommentBurst1M features),
      ''from_cache'' \<mapsto> ABool (af_FromCache features)]"

text \<open>
  The actor: its id, overwritten key by key with the map \<open>context.actor\<close> of the request, if the
  context has one and it is a map.
\<close>

definition actorActivation :: "DecideRequest \<Rightarrow> (string \<rightharpoonup> any)" where
  "actorActivation req =
     (let actor = [''id'' \<mapsto> AString (dr_ActorID req)] in
      case dr_Context req of
        None \<Rightarrow> actor
      | Some ctxt \<Rightarrow>
          (case ctxt ''actor'' of Some (AMap raw) \<Rightarrow> actor ++ raw | _ \<Rightarrow> actor))"

definition activation :: "EvalState \<Rightarrow> (string \<rightharpoonup> any)" where
  "activation state =
     (let req = es_Request state; content = dr_Content req in
      [''actor'' \<mapsto> AMap (actorActivation req),
       ''action'' \<mapsto> AMap [''type'' \<mapsto> AString (ac_Type (dr_Action req)),
                         ''platform'' \<mapsto> AString (ac_Platform (dr_Action req))],
       ''content'' \<mapsto> AMap [''title'' \<mapsto> AString (cc_Title content),
                          ''description'' \<mapsto> AString (cc_Description content),
                          ''duration_s'' \<mapsto> AInt (cc_DurationS content),
                          ''tags'' \<mapsto> AStrings (cc_Tags content)],
       ''context'' \<mapsto> AMap (case dr_Context req of None \<Rightarrow> Map.empty | Some m \<Rightarrow> m),
       ''features'' \<mapsto> AMap (featuresActivation (es_Features state)),
       ''degraded'' \<mapsto> AMap [''feature_provider'' \<mapsto> ABool (es_FeatureDegraded state)]])"

text \<open>The type assertion \<open>out.Value().(bool)\<close> and the test of its value.\<close>

definition is_true :: "any \<Rightarrow> bool" where
  "is_true v = (case v of ABool b \<Rightarrow> b | _ \<Rightarrow> False)"

definition CELRule_Evaluate ::
    "('env, 'ast, 'p) cel \<Rightarrow> 'p CELRule \<Rightarrow> ctx \<Rightarrow> EvalState \<Rightarrow> 'r evaluation" where
  "CELRule_Evaluate lib r c state =
     with_live c (\<lambda>w.
       case cel_Eval lib (er_program r) (activation state) of
         Inl err \<Rightarrow> (Inl (ExtErr err), w)
       | Inr out \<Rightarrow>
           (Inr (if \<not> is_true out then unmatched (er_id r)
                 else matched (er_id r) (ra_Verdict (er_onMatch r)) (ra_Code (er_onMatch r))), w))"

definition cel_rule :: "('env, 'ast, 'p) cel \<Rightarrow> 'p CELRule \<Rightarrow> 'r rule" where
  "cel_rule lib r = \<lparr>rule_ID = er_id r, rule_Evaluate = CELRule_Evaluate lib r, rule_Aware = None\<rparr>"

section \<open>Construction and contract\<close>

lemma NewCELRule_Inr:
  assumes "NewCELRule lib cfg = Inr r"
  shows "er_id r = cc_ID cfg" and "er_onMatch r = cc_OnMatch cfg" and "valid_action (cc_OnMatch cfg)"
    and "TrimSpace (cc_ID cfg) \<noteq> []" and "TrimSpace (cc_Expr cfg) \<noteq> []"
    and "\<exists>env ast. cel_NewEnv lib cel_variables = Inr env \<and>
      cel_Compile lib env (cc_Expr cfg) = Inr ast \<and> cel_Program lib env ast = Inr (er_program r)"
  using assms validate_None_iff [of "cc_OnMatch cfg" "''cel on_match''"]
  by (auto simp: NewCELRule_def split: if_splits option.splits sum.splits)

lemma CELRule_Evaluate_live:
  "c (polls w) = None \<Longrightarrow>
     CELRule_Evaluate lib r c state w =
       (case cel_Eval lib (er_program r) (activation state) of
          Inl err \<Rightarrow> (Inl (ExtErr err), snd (poll c w))
        | Inr out \<Rightarrow>
            (Inr (if is_true out then matched (er_id r) (ra_Verdict (er_onMatch r)) (ra_Code (er_onMatch r))
                  else unmatched (er_id r)), snd (poll c w)))"
  by (auto simp: CELRule_Evaluate_def with_live_def poll_def split: sum.splits)

lemma cel_rule_contract:
  assumes "valid_action (er_onMatch r)"
  shows "rule_contract (cel_rule lib r)"
proof (rule rule_contractI)
  fix c state byID w out w'
  assume "invoke (cel_rule lib r) c state byID w = (out, w')"
  then have run: "CELRule_Evaluate lib r c state w = (out, w')"
    by (simp add: invoke_def cel_rule_def)
  show "case out of Inl e \<Rightarrow> e \<noteq> NoReturn | Inr res \<Rightarrow> well_formed (rule_ID (cel_rule lib r)) res"
    using run well_formed_matched [OF assms]
    by (auto simp: cel_rule_def CELRule_Evaluate_def with_live_def split: sum.splits prod.splits option.splits)
  from run show "engine_frame w w'"
    by (auto simp: CELRule_Evaluate_def elim!: with_live_frame [rotated] split: sum.splits)
qed

interpretation cel: rule_constructor "NewCELRule lib" "cel_rule lib" cc_ID "\<lambda>_. True" for lib
proof
  fix cfg :: CELRuleConfig and m
  assume m: "NewCELRule lib cfg = Inr m"
  from NewCELRule_Inr(2,3) [OF m] show "rule_contract (cel_rule lib m)"
    by (intro cel_rule_contract) simp
  from NewCELRule_Inr(1) [OF m] show "rule_ID (cel_rule lib m) = cc_ID cfg"
    by (simp add: cel_rule_def)
next
  show "NewCELRule lib cfg \<noteq> Inl NoReturn" for cfg
    by (auto simp: NewCELRule_def validate_def split: option.splits sum.splits)
qed

section \<open>What a program can select from its input\<close>

text \<open>
  \<open>select act v k\<close> is what the expression \<open>v.k\<close> finds in the activation, and \<open>actor_metadata req k\<close> what the
  caller sends under \<open>context.actor\<close>.
\<close>

definition select :: "(string \<rightharpoonup> any) \<Rightarrow> string \<Rightarrow> string \<Rightarrow> any option" where
  "select act v k = (case act v of Some (AMap m) \<Rightarrow> m k | _ \<Rightarrow> None)"

definition actor_metadata :: "DecideRequest \<Rightarrow> string \<Rightarrow> any option" where
  "actor_metadata req k =
     (case dr_Context req of None \<Rightarrow> None
      | Some m \<Rightarrow> (case m ''actor'' of Some (AMap raw) \<Rightarrow> raw k | _ \<Rightarrow> None))"

lemma select_features:
  "select (activation state) ''features'' ''publishes_5m'' = Some (AInt (af_Publishes5M (es_Features state)))"
  "select (activation state) ''features'' ''publishes_1h'' = Some (AInt (af_Publishes1H (es_Features state)))"
  "select (activation state) ''features'' ''publishes_24h'' = Some (AInt (af_Publishes24H (es_Features state)))"
  "select (activation state) ''features'' ''blocks_24h'' = Some (AInt (af_Blocks24H (es_Features state)))"
  "select (activation state) ''features'' ''flags_7d'' = Some (AInt (af_Flags7D (es_Features state)))"
  "select (activation state) ''features'' ''comment_burst_1m'' = Some (AInt (af_CommentBurst1M (es_Features state)))"
  "select (activation state) ''features'' ''from_cache'' = Some (ABool (af_FromCache (es_Features state)))"
  "select (activation state) ''features'' k \<noteq> None \<longleftrightarrow>
     k \<in> {''publishes_5m'', ''publishes_1h'', ''publishes_24h'', ''blocks_24h'', ''flags_7d'', ''comment_burst_1m'', ''from_cache''}"
  by (simp_all add: select_def activation_def featuresActivation_def Let_def)

lemma select_request:
  "select (activation state) ''action'' ''type'' = Some (AString (ac_Type (dr_Action (es_Request state))))"
  "select (activation state) ''action'' ''platform'' = Some (AString (ac_Platform (dr_Action (es_Request state))))"
  "select (activation state) ''content'' ''title'' = Some (AString (cc_Title (dr_Content (es_Request state))))"
  "select (activation state) ''content'' ''description'' = Some (AString (cc_Description (dr_Content (es_Request state))))"
  "select (activation state) ''content'' ''duration_s'' = Some (AInt (cc_DurationS (dr_Content (es_Request state))))"
  "select (activation state) ''content'' ''tags'' = Some (AStrings (cc_Tags (dr_Content (es_Request state))))"
  "select (activation state) ''degraded'' ''feature_provider'' = Some (ABool (es_FeatureDegraded state))"
  "select (activation state) ''context'' k = (case dr_Context (es_Request state) of None \<Rightarrow> None | Some m \<Rightarrow> m k)"
  by (simp_all add: select_def activation_def Let_def split: option.split)

lemma select_actor:
  "select (activation state) ''actor'' k =
     (case actor_metadata (es_Request state) k of
        Some v \<Rightarrow> Some v
      | None \<Rightarrow> if k = ''id'' then Some (AString (dr_ActorID (es_Request state))) else None)"
  by (auto simp: select_def activation_def actorActivation_def actor_metadata_def Let_def map_add_def
      split: option.split any.split)

lemma dom_activation: "dom (activation state) = set cel_variables"
  by (auto simp: activation_def cel_variables_def Let_def)

section \<open>Properties\<close>

text \<open>
  C26. A CEL rule decides as the program compiled from its expression does on the facts of the request. The
  input of the program has the six declared variables; under \<open>features\<close> it finds the seven features of
  the actor, each under its own name and nothing else, under \<open>action\<close> and \<open>content\<close> the fields of the request,
  under \<open>context\<close> the context of the request, under \<open>actor\<close> the metadata that the caller sends in
  \<open>context.actor\<close> and for any key not sent there only the actor's id under \<open>id\<close>, and under \<open>degraded\<close>
  whether the features could be looked up. Under a live context the rule matches, with the configured
  verdict and code, exactly when the program evaluates to the boolean true; an outcome of another type
  is no match and an evaluation error is the rule's error.
\<close>

theorem cel_rule_correct:
  assumes "NewCELRule lib cfg = Inr r" and "c (polls w) = None"
  shows "(\<exists>env ast. cel_NewEnv lib cel_variables = Inr env \<and>
      cel_Compile lib env (cc_Expr cfg) = Inr ast \<and> cel_Program lib env ast = Inr (er_program r)) \<and>
    (\<exists>act. fst (invoke (cel_rule lib r) c state byID w) =
        (case cel_Eval lib (er_program r) act of
           Inl err \<Rightarrow> Inl (ExtErr err)
         | Inr out \<Rightarrow>
             Inr (if out = ABool True
                  then matched (cc_ID cfg) (ra_Verdict (cc_OnMatch cfg)) (ra_Code (cc_OnMatch cfg))
                  else unmatched (cc_ID cfg))) \<and>
      dom act = {''actor'', ''action'', ''content'', ''context'', ''features'', ''degraded''} \<and>
      select act ''features'' ''publishes_5m'' = Some (AInt (af_Publishes5M (es_Features state))) \<and>
      select act ''features'' ''publishes_1h'' = Some (AInt (af_Publishes1H (es_Features state))) \<and>
      select act ''features'' ''publishes_24h'' = Some (AInt (af_Publishes24H (es_Features state))) \<and>
      select act ''features'' ''blocks_24h'' = Some (AInt (af_Blocks24H (es_Features state))) \<and>
      select act ''features'' ''flags_7d'' = Some (AInt (af_Flags7D (es_Features state))) \<and>
      select act ''features'' ''comment_burst_1m'' = Some (AInt (af_CommentBurst1M (es_Features state))) \<and>
      select act ''features'' ''from_cache'' = Some (ABool (af_FromCache (es_Features state))) \<and>
      (\<forall>k. select act ''features'' k \<noteq> None \<longleftrightarrow>
         k \<in> {''publishes_5m'', ''publishes_1h'', ''publishes_24h'', ''blocks_24h'', ''flags_7d'',
              ''comment_burst_1m'', ''from_cache''}) \<and>
      select act ''action'' ''type'' = Some (AString (ac_Type (dr_Action (es_Request state)))) \<and>
      select act ''action'' ''platform'' = Some (AString (ac_Platform (dr_Action (es_Request state)))) \<and>
      select act ''content'' ''title'' = Some (AString (cc_Title (dr_Content (es_Request state)))) \<and>
      select act ''content'' ''description'' = Some (AString (cc_Description (dr_Content (es_Request state)))) \<and>
      select act ''content'' ''duration_s'' = Some (AInt (cc_DurationS (dr_Content (es_Request state)))) \<and>
      select act ''content'' ''tags'' = Some (AStrings (cc_Tags (dr_Content (es_Request state)))) \<and>
      select act ''degraded'' ''feature_provider'' = Some (ABool (es_FeatureDegraded state)) \<and>
      (\<forall>k. select act ''context'' k = (case dr_Context (es_Request state) of None \<Rightarrow> None | Some m \<Rightarrow> m k)) \<and>
      (\<forall>k. select act ''actor'' k =
         (case actor_metadata (es_Request state) k of
            Some v \<Rightarrow> Some v
          | None \<Rightarrow> if k = ''id'' then Some (AString (dr_ActorID (es_Request state))) else None)))"
proof -
  have true: "is_true out \<longleftrightarrow> out = ABool True" for out by (cases out) (simp_all add: is_true_def)
  have dom: "dom (activation state) = {''actor'', ''action'', ''content'', ''context'', ''features'', ''degraded''}"
    by (simp add: dom_activation cel_variables_def)
  have outcome: "fst (invoke (cel_rule lib r) c state byID w) =
      (case cel_Eval lib (er_program r) (activation state) of
         Inl err \<Rightarrow> Inl (ExtErr err)
       | Inr out \<Rightarrow>
           Inr (if out = ABool True
                then matched (cc_ID cfg) (ra_Verdict (cc_OnMatch cfg)) (ra_Code (cc_OnMatch cfg))
                else unmatched (cc_ID cfg)))"
    using NewCELRule_Inr(1,2) [OF assms(1)] CELRule_Evaluate_live [of c w lib r state, OF assms(2)]
    by (auto simp: invoke_def cel_rule_def true split: sum.splits)
  show ?thesis
    by (intro conjI NewCELRule_Inr(6) [OF assms(1)] exI [of _ "activation state"] allI
        outcome dom select_features select_request select_actor)
qed

section \<open>Witness\<close>

text \<open>
  A library for the witness, with conditions on selected values. It knows the two expressions that \<open>cel_test.go\<close>
  compiles.
\<close>

datatype condition =
    LessThan string string int
  | AtLeast string string int
  | Equals string string string
  | Is string string
  | Negation condition
  | Conjunction condition condition

fun condition_holds :: "(string \<rightharpoonup> any) \<Rightarrow> condition \<Rightarrow> bool option" where
  "condition_holds act (LessThan v k n) = (case select act v k of Some (AInt i) \<Rightarrow> Some (i < n) | _ \<Rightarrow> None)"
| "condition_holds act (AtLeast v k n) = (case select act v k of Some (AInt i) \<Rightarrow> Some (n \<le> i) | _ \<Rightarrow> None)"
| "condition_holds act (Equals v k s) = (case select act v k of Some (AString t) \<Rightarrow> Some (t = s) | _ \<Rightarrow> None)"
| "condition_holds act (Is v k) = (case select act v k of Some (ABool b) \<Rightarrow> Some b | _ \<Rightarrow> None)"
| "condition_holds act (Negation a) = map_option Not (condition_holds act a)"
| "condition_holds act (Conjunction a b) =
     (case (condition_holds act a, condition_holds act b) of (Some x, Some y) \<Rightarrow> Some (x \<and> y) | _ \<Rightarrow> None)"

definition burst_expr :: string where
  "burst_expr = ''features.publishes_5m >= 3 && !degraded.feature_provider''"

definition new_actor_expr :: string where
  "new_actor_expr = ''actor.age_days < 7 && action.type == publish_video''"

definition test_cel :: "(unit, condition, condition) cel" where
  "test_cel = \<lparr>cel_NewEnv = (\<lambda>_. Inr ()),
     cel_Compile = (\<lambda>_ s.
       if s = burst_expr
       then Inr (Conjunction (AtLeast ''features'' ''publishes_5m'' 3) (Negation (Is ''degraded'' ''feature_provider'')))
       else if s = new_actor_expr
       then Inr (Conjunction (LessThan ''actor'' ''age_days'' 7) (Equals ''action'' ''type'' ''publish_video''))
       else Inl ''syntax error''),
     cel_Program = (\<lambda>_ p. Inr p),
     cel_Eval = (\<lambda>p act. case condition_holds act p of Some b \<Rightarrow> Inr (ABool b) | None \<Rightarrow> Inl ''no such key'')\<rparr>"

definition flag_config :: "string \<Rightarrow> CELRuleConfig" where
  "flag_config expr = \<lparr>cc_ID = ''d'', cc_Expr = expr, cc_OnMatch = \<lparr>ra_Verdict = VerdictFlag, ra_Code = ''code''\<rparr>\<rparr>"

definition fact_state :: "string \<Rightarrow> (string \<rightharpoonup> any) option \<Rightarrow> int \<Rightarrow> bool \<Rightarrow> EvalState" where
  "fact_state action ctxt publishes degraded =
     \<lparr>es_Request = sample_request\<lparr>dr_Action := \<lparr>ac_Type = action, ac_Platform = []\<rparr>, dr_Context := ctxt\<rparr>,
      es_Features = zero_ActorFeatures\<lparr>af_Publishes5M := publishes\<rparr>, es_FeatureDegraded = degraded,
      es_DegradedWarnings = []\<rparr>"

lemma flag_config_built:
  assumes "cel_Compile test_cel () expr = Inr p" and "TrimSpace expr \<noteq> []"
  shows "\<exists>r. NewCELRule test_cel (flag_config expr) = Inr r \<and> er_program r = p"
proof -
  have "TrimSpace ''d'' \<noteq> []" by code_simp
  with assms show ?thesis
    by (simp add: NewCELRule_def flag_config_def validate_def test_cel_def split: if_splits)
qed

theorem cel_rule_correct_witness:
  "\<exists>burst new_actor. NewCELRule test_cel (flag_config burst_expr) = Inr burst \<and>
     NewCELRule test_cel (flag_config new_actor_expr) = Inr new_actor \<and>
     fst (invoke (cel_rule test_cel burst) background (fact_state ''publish'' None 3 False) Map.empty (start_world ())) =
       Inr (matched ''d'' VerdictFlag ''code'') \<and>
     fst (invoke (cel_rule test_cel burst) background (fact_state ''publish'' None 3 True) Map.empty (start_world ())) =
       Inr (unmatched ''d'') \<and>
     fst (invoke (cel_rule test_cel new_actor) background
         (fact_state ''publish_video'' (Some [''actor'' \<mapsto> AMap [''age_days'' \<mapsto> AInt 3]]) 0 False) Map.empty (start_world ())) =
       Inr (matched ''d'' VerdictFlag ''code'')"
proof -
  have "TrimSpace burst_expr \<noteq> []" "TrimSpace new_actor_expr \<noteq> []" and neq: "new_actor_expr \<noteq> burst_expr"
    by code_simp+
  then obtain burst new_actor where b: "NewCELRule test_cel (flag_config burst_expr) = Inr burst"
    and pb: "er_program burst =
      Conjunction (AtLeast ''features'' ''publishes_5m'' 3) (Negation (Is ''degraded'' ''feature_provider''))"
    and n: "NewCELRule test_cel (flag_config new_actor_expr) = Inr new_actor"
    and pn: "er_program new_actor = Conjunction (LessThan ''actor'' ''age_days'' 7) (Equals ''action'' ''type'' ''publish_video'')"
    using flag_config_built [of burst_expr] flag_config_built [of new_actor_expr]
    by (auto simp: test_cel_def)
  have live: "background (polls (start_world ())) = None" by simp
  note at = cel_rule_correct [where c = background and w = "start_world ()" and byID = Map.empty, OF _ live]
  note facts = fact_state_def flag_config_def test_cel_def zero_ActorFeatures_def actor_metadata_def
  show ?thesis
  proof (intro exI conjI)
    show "fst (invoke (cel_rule test_cel burst) background (fact_state ''publish'' None 3 False) Map.empty (start_world ())) =
       Inr (matched ''d'' VerdictFlag ''code'')"
      using at [OF b, where state = "fact_state ''publish'' None 3 False"] by (elim conjE exE) (simp add: pb facts)
    show "fst (invoke (cel_rule test_cel burst) background (fact_state ''publish'' None 3 True) Map.empty (start_world ())) =
       Inr (unmatched ''d'')"
      using at [OF b, where state = "fact_state ''publish'' None 3 True"] by (elim conjE exE) (simp add: pb facts)
    show "fst (invoke (cel_rule test_cel new_actor) background
         (fact_state ''publish_video'' (Some [''actor'' \<mapsto> AMap [''age_days'' \<mapsto> AInt 3]]) 0 False) Map.empty (start_world ())) =
       Inr (matched ''d'' VerdictFlag ''code'')"
      using at [OF n, where state = "fact_state ''publish_video'' (Some [''actor'' \<mapsto> AMap [''age_days'' \<mapsto> AInt 3]]) 0 False"]
      by (elim conjE exE) (simp add: pn facts)
  qed (rule b, rule n)
qed

end
