(* ===== verification/Go_Float.thy ===== *)
theory Go_Float
  imports Prelude Complex_Main "HOL-Library.Log_Nat"
begin

text \<open>
  What the code uses of \<open>float64\<close>: conversion from integers, addition, multiplication, division and
  the conversion back, all with the rounding of IEEE 754 binary64 (to nearest, ties to even, 53
  significant bits). A float is the rational number it stands for. The exponent is unbounded:
  the values of the code lie between \<open>2 ^ (- 63)\<close> and \<open>2 ^ 127\<close> or are zero, far from underflow and
  overflow.
\<close>

section \<open>Rounding\<close>

definition round_even :: "rat \<Rightarrow> int" where
  "round_even q =
     (let f = \<lfloor>q\<rfloor>; d = q - of_int f in
      if d < 1 / 2 then f else if d > 1 / 2 then f + 1 else if even f then f else f + 1)"

text \<open>The exponent of a positive number: \<open>2 powi e \<le> x < 2 powi (e + 1)\<close>.\<close>

definition exponent :: "rat \<Rightarrow> int" where
  "exponent x =
     (case quotient_of x of (a, b) \<Rightarrow>
        let e = bitlen a - bitlen b in
        if 2 powi e \<le> x then e else e - 1)"

definition round_pos :: "rat \<Rightarrow> rat" where
  "round_pos x = (let u = 2 powi (exponent x - 52) in of_int (round_even (x / u)) * u)"

definition float64 :: "rat \<Rightarrow> rat" where
  "float64 x = (if x = 0 then 0 else if x < 0 then - round_pos (- x) else round_pos x)"

text \<open>The operations: the exact result, rounded.\<close>

definition f_of_int :: "int \<Rightarrow> rat" where "f_of_int i = float64 (of_int i)"
definition f_add :: "rat \<Rightarrow> rat \<Rightarrow> rat" where "f_add x y = float64 (x + y)"
definition f_mul :: "rat \<Rightarrow> rat \<Rightarrow> rat" where "f_mul x y = float64 (x * y)"
definition f_div :: "rat \<Rightarrow> rat \<Rightarrow> rat" where "f_div x y = float64 (x / y)"

text \<open>The conversion to \<open>int64\<close> truncates.\<close>

definition f_to_int :: "rat \<Rightarrow> int" where
  "f_to_int x = (if x < 0 then - \<lfloor>- x\<rfloor> else \<lfloor>x\<rfloor>)"

section \<open>Rounding to the nearest integer\<close>

lemma round_even_bounds: "\<lfloor>q\<rfloor> \<le> round_even q" "round_even q \<le> \<lfloor>q\<rfloor> + 1"
  by (simp_all add: round_even_def Let_def)

lemma round_even_of_int [simp]: "round_even (of_int i) = i"
  by (simp add: round_even_def)

lemma round_even_mono:
  assumes "q \<le> q'"
  shows "round_even q \<le> round_even q'"
proof (cases "\<lfloor>q\<rfloor> = \<lfloor>q'\<rfloor>")
  case True
  with assms show ?thesis by (auto simp: round_even_def Let_def)
next
  case False
  from floor_mono [OF assms] False have "\<lfloor>q\<rfloor> + 1 \<le> \<lfloor>q'\<rfloor>" by simp
  with round_even_bounds(2) [of q] round_even_bounds(1) [of q'] show ?thesis by linarith
qed

section \<open>The exponent\<close>

lemma floorlog_powers:
  assumes "0 < a"
  shows "2 powi (bitlen a - 1) \<le> (of_int a :: rat)"
    and "(of_int a :: rat) < 2 powi bitlen a"
proof -
  let ?n = "floorlog 2 (nat a)"
  have n: "0 < ?n" using assms by (simp add: floorlog_def)
  have b: "2 ^ (?n - 1) \<le> nat a \<and> nat a < 2 ^ ?n"
    using floorlog_bounds [of "nat a" 2] assms by simp
  then have "(2 :: int) ^ (?n - 1) \<le> a" "a < (2 :: int) ^ ?n"
    using assms by (simp_all add: le_nat_iff nat_less_iff)
  then have "(of_int (2 ^ (?n - 1)) :: rat) \<le> of_int a" "(of_int a :: rat) < of_int (2 ^ ?n)"
    by (simp_all only: of_int_le_iff of_int_less_iff)
  moreover have "int ?n - 1 = int (?n - 1)" using n by simp
  ultimately show "2 powi (bitlen a - 1) \<le> (of_int a :: rat)" "(of_int a :: rat) < 2 powi bitlen a"
    unfolding bitlen_def by (simp_all add: power_int_of_nat del: of_nat_diff)
qed

lemma exponent_bounds:
  assumes "0 < x"
  shows "2 powi exponent x \<le> x" and "x < 2 powi (exponent x + 1)"
proof -
  obtain a b where ab: "quotient_of x = (a, b)" by (cases "quotient_of x")
  then have x: "x = of_int a / of_int b" and b: "0 < b"
    by (simp_all add: quotient_of_div quotient_of_denom_pos)
  with assms have a: "0 < a" by (simp add: zero_less_divide_iff)
  let ?A = "bitlen a" and ?B = "bitlen b"
  note fa = floorlog_powers [OF a] and fb = floorlog_powers [OF b]
  have "2 powi (?A - ?B - 1) = 2 powi (?A - 1) / (2 powi ?B :: rat)"
    by (simp add: power_int_diff)
  also have "\<dots> \<le> of_int a / of_int b"
    using fa(1) fb(2) b a by (intro frac_le) auto
  finally have lo: "2 powi (?A - ?B - 1) \<le> x" using x by simp
  have "of_int a / of_int b < 2 powi ?A / (2 powi (?B - 1) :: rat)"
    using fa(2) fb(1) b a by (intro frac_less) auto
  also have "\<dots> = 2 powi (?A - ?B + 1)" by (simp add: power_int_diff power_int_add)
  finally have hi: "x < 2 powi (?A - ?B + 1)" using x by simp
  from lo hi show "2 powi exponent x \<le> x" "x < 2 powi (exponent x + 1)"
    using ab by (auto simp: exponent_def Let_def algebra_simps)
qed

lemma exponent_mono:
  assumes "0 < x" "x \<le> y"
  shows "exponent x \<le> exponent y"
proof (rule ccontr)
  assume "\<not> exponent x \<le> exponent y"
  then have "(2 :: rat) powi (exponent y + 1) \<le> 2 powi exponent x"
    by (intro power_int_increasing) auto
  with exponent_bounds(1) [OF assms(1)] exponent_bounds(2) [of y] assms show False by linarith
qed

lemma exponent_unique:
  assumes "2 powi e \<le> x" "x < 2 powi (e + 1)"
  shows "exponent x = e"
proof -
  have x: "0 < x" using assms(1) by (rule less_le_trans [rotated]) simp
  have "e < exponent x + 1"
  proof (rule ccontr)
    assume "\<not> ?thesis"
    then have "(2 :: rat) powi (exponent x + 1) \<le> 2 powi e" by (intro power_int_increasing) auto
    with assms(1) exponent_bounds(2) [OF x] show False by linarith
  qed
  moreover have "exponent x < e + 1"
  proof (rule ccontr)
    assume "\<not> ?thesis"
    then have "(2 :: rat) powi (e + 1) \<le> 2 powi exponent x" by (intro power_int_increasing) auto
    with assms(2) exponent_bounds(1) [OF x] show False by linarith
  qed
  ultimately show ?thesis by simp
qed

section \<open>Rounding to 53 bits\<close>

lemma powi_pos [simp]: "0 < (2 :: rat) powi e"
  by simp

lemma scaled_bounds:
  assumes "0 < x"
  shows "2 ^ 52 \<le> x / 2 powi (exponent x - 52)" and "x / 2 powi (exponent x - 52) < 2 ^ 53"
proof -
  have "(2 :: rat) powi (exponent x) = 2 ^ 52 * 2 powi (exponent x - 52)"
    by (simp add: power_int_diff)
  with exponent_bounds(1) [OF assms] show "2 ^ 52 \<le> x / 2 powi (exponent x - 52)"
    by (simp add: le_divide_eq)
  have "(2 :: rat) powi (exponent x + 1) = 2 ^ 53 * 2 powi (exponent x - 52)"
    by (simp add: power_int_diff power_int_add)
  with exponent_bounds(2) [OF assms] show "x / 2 powi (exponent x - 52) < 2 ^ 53"
    by (simp add: divide_less_eq)
qed

lemma round_pos_bounds:
  assumes "0 < x"
  shows "2 powi exponent x \<le> round_pos x" and "round_pos x \<le> 2 powi (exponent x + 1)"
proof -
  let ?u = "(2 :: rat) powi (exponent x - 52)"
  have "round_even (of_int (2 ^ 52)) \<le> round_even (x / ?u)"
    using scaled_bounds(1) [OF assms] by (intro round_even_mono) simp
  then have "(of_int (2 ^ 52) :: rat) \<le> of_int (round_even (x / ?u))"
    by (simp only: round_even_of_int of_int_le_iff)
  then have "of_int (2 ^ 52) * ?u \<le> round_pos x"
    unfolding round_pos_def Let_def by (intro mult_right_mono) simp_all
  then show "2 powi exponent x \<le> round_pos x" by (simp add: power_int_diff)
  have "round_even (x / ?u) \<le> round_even (of_int (2 ^ 53))"
    using scaled_bounds(2) [OF assms] by (intro round_even_mono) simp
  then have "(of_int (round_even (x / ?u)) :: rat) \<le> of_int (2 ^ 53)"
    by (simp only: round_even_of_int of_int_le_iff)
  then have "round_pos x \<le> of_int (2 ^ 53) * ?u"
    unfolding round_pos_def Let_def by (intro mult_right_mono) simp_all
  then show "round_pos x \<le> 2 powi (exponent x + 1)" by (simp add: power_int_diff power_int_add)
qed

lemma round_pos_mono:
  assumes "0 < x" "x \<le> y"
  shows "round_pos x \<le> round_pos y"
proof (cases "exponent x = exponent y")
  case True
  have "round_even (x / 2 powi (exponent y - 52)) \<le> round_even (y / 2 powi (exponent y - 52))"
    using assms by (intro round_even_mono divide_right_mono) simp_all
  then show ?thesis unfolding round_pos_def Let_def True by (intro mult_right_mono) simp_all
next
  case False
  with exponent_mono [OF assms] have "exponent x + 1 \<le> exponent y" by simp
  then have "(2 :: rat) powi (exponent x + 1) \<le> 2 powi exponent y" by (intro power_int_increasing) auto
  with round_pos_bounds(2) [OF assms(1)] round_pos_bounds(1) [of y] assms show ?thesis by linarith
qed

lemma float64_pos: "0 < x \<Longrightarrow> float64 x = round_pos x"
  by (simp add: float64_def)

lemma float64_0 [simp]: "float64 0 = 0"
  by (simp add: float64_def)

lemma float64_nonneg: "0 \<le> x \<Longrightarrow> 0 \<le> float64 x"
  using round_pos_bounds(1) [of x] less_le_trans [OF powi_pos [of "exponent x"]]
  by (cases "x = 0") (auto simp: float64_def intro: less_imp_le)

lemma float64_uminus: "float64 (- x) = - float64 x"
  by (auto simp: float64_def)

lemma float64_mono_nonneg: "0 \<le> x \<Longrightarrow> x \<le> y \<Longrightarrow> float64 x \<le> float64 y"
  using round_pos_mono [of x y] float64_nonneg [of y]
  by (cases "x = 0") (auto simp: float64_def)

lemma float64_mono: "x \<le> y \<Longrightarrow> float64 x \<le> float64 y"
  using float64_mono_nonneg [of x y] float64_mono_nonneg [of "- y" "- x"]
    float64_nonneg [of "- x"] float64_nonneg [of y]
  by (cases "0 \<le> x"; cases "0 \<le> y") (auto simp: float64_uminus)

text \<open>What needs no more than 53 bits is kept.\<close>

lemma float64_exact_nat:
  assumes "n \<le> 2 ^ 53"
  shows "float64 (of_nat n) = of_nat n"
proof (cases "n = 0")
  case True
  then show ?thesis by simp
next
  case False
  let ?x = "of_nat n :: rat"
  have x: "0 < ?x" using False by simp
  have one: "1 \<le> ?x" using False by simp
  have top: "?x \<le> 2 ^ 53" using assms of_nat_le_iff [of n "2 ^ 53", where ?'a = rat] by simp
  show ?thesis
  proof (cases "n = 2 ^ 53")
    case True
    then have "?x = 2 powi 53" by simp
    moreover have "exponent ?x = 53" using True by (intro exponent_unique) simp_all
    moreover have "?x / 2 powi 1 = of_int (2 ^ 52)" using True by simp
    ultimately have "round_pos ?x = ?x"
      using round_even_of_int [of "2 ^ 52"] by (simp add: round_pos_def Let_def)
    with x show ?thesis by (simp add: float64_pos)
  next
    case ne: False
    have "exponent ?x < 53"
    proof (rule ccontr)
      assume "\<not> ?thesis"
      then have "(2 :: rat) powi 53 \<le> 2 powi exponent ?x" by (intro power_int_increasing) auto
      with exponent_bounds(1) [OF x] have "(of_nat (2 ^ 53) :: rat) \<le> of_nat n" by simp
      then have "2 ^ 53 \<le> n" by (simp only: of_nat_le_iff)
      with ne assms show False by simp
    qed
    then have "0 \<le> 52 - exponent ?x" by simp
    then obtain k where k: "52 - exponent ?x = int k" by (rule zero_le_imp_eq_int [THEN exE]) blast
    have "?x / 2 powi (exponent ?x - 52) = ?x * 2 powi (52 - exponent ?x)"
      by (simp add: power_int_diff field_simps)
    also have "\<dots> = of_int (int n * 2 ^ k)" by (simp add: k)
    finally have s: "?x / 2 powi (exponent ?x - 52) = of_int (int n * 2 ^ k)" .
    have "round_pos ?x = (?x / 2 powi (exponent ?x - 52)) * 2 powi (exponent ?x - 52)"
      unfolding round_pos_def Let_def s round_even_of_int ..
    also have "\<dots> = ?x" by simp
    finally show ?thesis using x by (simp add: float64_pos)
  qed
qed

lemma f_of_int_exact: "\<bar>i\<bar> \<le> 2 ^ 53 \<Longrightarrow> f_of_int i = of_int i"
  using float64_exact_nat [of "nat i"] float64_exact_nat [of "nat (- i)"]
    float64_uminus [of "of_int (- i)"]
  by (cases "0 \<le> i") (simp_all add: f_of_int_def nat_le_iff)

lemma float64_1 [simp]: "float64 1 = 1"
  using float64_exact_nat [of 1] by simp

lemma f_of_int_nonneg: "0 \<le> i \<Longrightarrow> 0 \<le> f_of_int i"
  by (simp add: f_of_int_def float64_nonneg)

lemma f_of_int_mono: "i \<le> j \<Longrightarrow> f_of_int i \<le> f_of_int j"
  unfolding f_of_int_def by (rule float64_mono) simp

lemma f_to_int_of_int [simp]: "f_to_int (of_int i) = i"
  by (simp add: f_to_int_def)

text \<open>The relative error of one rounding is at most \<open>2 ^ (- 53)\<close>.\<close>

lemma round_even_error: "\<bar>of_int (round_even q) - q\<bar> \<le> 1 / 2"
proof -
  have "of_int \<lfloor>q\<rfloor> \<le> q" "q < of_int \<lfloor>q\<rfloor> + 1" by linarith+
  then show ?thesis by (auto simp: round_even_def Let_def abs_le_iff)
qed

definition ulp_error :: rat where "ulp_error = 1 / 2 ^ 53"

lemma round_pos_error:
  assumes "0 < x"
  shows "\<bar>round_pos x - x\<bar> \<le> x * ulp_error"
proof -
  let ?u = "(2 :: rat) powi (exponent x - 52)"
  have "round_pos x - x = (of_int (round_even (x / ?u)) - x / ?u) * ?u"
    by (simp add: round_pos_def Let_def left_diff_distrib)
  then have "\<bar>round_pos x - x\<bar> = \<bar>of_int (round_even (x / ?u)) - x / ?u\<bar> * ?u"
    by (simp add: abs_mult)
  also have "\<dots> \<le> 1 / 2 * ?u"
    using round_even_error by (intro mult_right_mono) simp_all
  also have "\<dots> \<le> x * ulp_error"
    using scaled_bounds(1) [OF assms] by (simp add: ulp_error_def field_simps)
  finally show ?thesis .
qed

lemma float64_error:
  assumes "0 \<le> x"
  shows "x * (1 - ulp_error) \<le> float64 x" and "float64 x \<le> x * (1 + ulp_error)"
  using round_pos_error [of x] assms
  by (cases "x = 0"; simp add: float64_pos abs_le_iff algebra_simps)+

end
