(* ===== verification/Rate_Limit.thy ===== *)
theory Rate_Limit
  imports Rule_Action Go_Float
begin

text \<open>
  \<open>internal/rules/rate_limit.go\<close>: the sliding-window rate limit, its Lua script and its key format.
  The Redis client and server are parameters: a record of the commands that the script calls, each
  a function on the state \<open>'r\<close> of the server, and of \<open>Script.Run\<close>. What the rule relies on is
  stated as \<open>redis_runs_script\<close> and \<open>redis_documented\<close>. Whether the platform fuses the
  multiplication and the addition of the estimate, as Go allows, is the parameter \<open>fma\<close>.
\<close>

section \<open>The Redis client\<close>

text \<open>
  A Lua script is a function on the state of the server that returns its table as a list or the
  text of an error that one of its calls raised.
\<close>

type_synonym 'r script = "'r \<Rightarrow> (string + any list) \<times> 'r"

record 'r Cmdable =
  rd_INCR :: "string \<Rightarrow> 'r \<Rightarrow> (string + int) \<times> 'r"
  rd_EXPIRE :: "string \<Rightarrow> string \<Rightarrow> 'r \<Rightarrow> (string + int) \<times> 'r"
  rd_GET :: "string \<Rightarrow> 'r \<Rightarrow> (string + string option) \<times> 'r"
  rd_Run :: "ctx \<Rightarrow> 'r script \<Rightarrow> 'r world \<Rightarrow> (string + any list) \<times> 'r world"

text \<open>Lua has one type of numbers, the floats; an integer reply passes through it.\<close>

definition lua_number :: "int \<Rightarrow> int" where
  "lua_number i = f_to_int (f_of_int i)"

definition rateLimitScript :: "'r Cmdable \<Rightarrow> string list \<Rightarrow> string list \<Rightarrow> 'r script" where
  "rateLimitScript client KEYS ARGV r =
     (case rd_INCR client (KEYS ! 0) r of
        (Inl err, r) \<Rightarrow> (Inl err, r)
      | (Inr current, r) \<Rightarrow>
     (case rd_EXPIRE client (KEYS ! 0) (ARGV ! 0) r of
        (Inl err, r) \<Rightarrow> (Inl err, r)
      | (Inr _, r) \<Rightarrow>
     (case rd_GET client (KEYS ! 1) r of
        (Inl err, r) \<Rightarrow> (Inl err, r)
      | (Inr previous, r) \<Rightarrow>
          (Inr [AInt (lua_number current),
                AString (case previous of None \<Rightarrow> ''0'' | Some s \<Rightarrow> s)], r))))"

section \<open>The rule\<close>

record 'r RateLimitRuleConfig =
  lc_ID :: string
  lc_Scope :: string
  lc_Action :: string
  lc_Window :: int
  lc_Limit :: int
  lc_OnExceed :: RuleAction
  lc_Now :: "('r world \<Rightarrow> int \<times> 'r world) option"

record 'r RateLimitRule =
  rl_id :: string
  rl_scope :: string
  rl_action :: string
  rl_window :: int
  rl_limit :: int
  rl_onExceed :: RuleAction
  rl_now :: "'r world \<Rightarrow> int \<times> 'r world"
  rl_redis :: "'r Cmdable"

definition NewRateLimitRule ::
    "'r RateLimitRuleConfig \<Rightarrow> 'r Cmdable option \<Rightarrow> gerror + 'r RateLimitRule" where
  "NewRateLimitRule cfg client =
     (if TrimSpace (lc_ID cfg) = [] then Inl (Errorf ''rate limit rule id is required'')
      else case client of
        None \<Rightarrow> Inl (Errorf ''rate limit rule requires redis client'')
      | Some client \<Rightarrow>
          let cfg = (if lc_Scope cfg = [] then cfg\<lparr>lc_Scope := ''actor''\<rparr> else cfg) in
          if lc_Scope cfg \<noteq> ''actor'' \<and> lc_Scope cfg \<noteq> ''actor+action'' \<and> lc_Scope cfg \<noteq> ''global''
          then Inl (Errorf ''rate limit scope must be actor, actor+action, or global'')
          else if lc_Window cfg \<le> 0 then Inl (Errorf ''rate limit window must be positive'')
          else if lc_Limit cfg \<le> 0 then Inl (Errorf ''rate limit limit must be positive'')
          else case validate (lc_OnExceed cfg) ''rate limit on_exceed'' of
            Some err \<Rightarrow> Inl err
          | None \<Rightarrow>
              Inr \<lparr>rl_id = lc_ID cfg, rl_scope = lc_Scope cfg, rl_action = lc_Action cfg,
                   rl_window = lc_Window cfg, rl_limit = lc_Limit cfg,
                   rl_onExceed = lc_OnExceed cfg,
                   rl_now = (case lc_Now cfg of None \<Rightarrow> time_now | Some now \<Rightarrow> now),
                   rl_redis = client\<rparr>)"

definition keyPrefix :: "'r RateLimitRule \<Rightarrow> DecideRequest \<Rightarrow> string" where
  "keyPrefix r req =
     (if rl_scope r = ''global'' then ''pds:rl:global''
      else if rl_scope r = ''actor+action''
      then ''pds:rl:'' @ dr_ActorID req @ '':'' @ ac_Type (dr_Action req)
      else ''pds:rl:'' @ dr_ActorID req @ '':'' @ rl_action r)"

definition bucket_key :: "string \<Rightarrow> int \<Rightarrow> string" where
  "bucket_key pre bucket = pre @ '':'' @ format_int bucket"

definition go_type :: "any \<Rightarrow> string" where
  "go_type v = (case v of ANil \<Rightarrow> ''<nil>'' | ABool _ \<Rightarrow> ''bool'' | AInt _ \<Rightarrow> ''int64''
     | AFloat _ \<Rightarrow> ''float64'' | AString _ \<Rightarrow> ''string'' | ABytes _ \<Rightarrow> ''[]uint8''
     | AStrings _ \<Rightarrow> ''[]string'' | AList _ \<Rightarrow> ''[]interface {}'' | AMap _ \<Rightarrow> ''map[string]interface {}'')"

definition int64FromRedis :: "any \<Rightarrow> gerror + int" where
  "int64FromRedis v =
     (case v of
        AInt typed \<Rightarrow> Inr typed
      | AString typed \<Rightarrow> Sscanf_d typed
      | ABytes typed \<Rightarrow> Sscanf_d typed
      | _ \<Rightarrow> Inl (ErrFmt ''unexpected redis integer type %T'' [go_type v]))"

text \<open>\<open>Duration.Seconds\<close>, and the product of a duration, which wraps around at 64 bits.\<close>

definition Seconds :: "int \<Rightarrow> rat" where
  "Seconds d = f_add (f_of_int (go_div d 1000000000))
     (f_div (f_of_int (go_mod d 1000000000)) (f_of_int 1000000000))"

definition wrap64 :: "int \<Rightarrow> int" where
  "wrap64 i = (i + 2 ^ 63) mod 2 ^ 64 - 2 ^ 63"

definition window_seconds :: "'r RateLimitRule \<Rightarrow> int" where
  "window_seconds r = f_to_int (Seconds (rl_window r))"

definition ttl_seconds :: "'r RateLimitRule \<Rightarrow> int" where
  "ttl_seconds r = \<lceil>Seconds (wrap64 (2 * rl_window r))\<rceil>"

definition estimate :: "bool \<Rightarrow> int \<Rightarrow> int \<Rightarrow> int \<Rightarrow> int \<Rightarrow> rat" where
  "estimate fma windowSeconds elapsed current previous =
     (let previousWeight = f_div (f_of_int (windowSeconds - elapsed)) (f_of_int windowSeconds) in
      if fma then float64 (f_of_int current + f_of_int previous * previousWeight)
      else f_add (f_of_int current) (f_mul (f_of_int previous) previousWeight))"

text \<open>The part of \<open>Evaluate\<close> after the script has returned its values.\<close>

definition decide :: "bool \<Rightarrow> 'r RateLimitRule \<Rightarrow> int \<Rightarrow> any list \<Rightarrow> gerror + RuleResult" where
  "decide fma r unix vs =
     (case vs of [] \<Rightarrow> Inl NoReturn | v0 # rest \<Rightarrow>
      case int64FromRedis v0 of Inl err \<Rightarrow> Inl err | Inr current \<Rightarrow>
      case rest of [] \<Rightarrow> Inl NoReturn | v1 # _ \<Rightarrow>
      case int64FromRedis v1 of Inl err \<Rightarrow> Inl err | Inr previous \<Rightarrow>
        let windowSeconds = window_seconds r;
            elapsed = go_mod unix windowSeconds in
        if estimate fma windowSeconds elapsed current previous \<le> f_of_int (rl_limit r)
        then Inr (unmatched (rl_id r))
        else Inr (matched (rl_id r) (ra_Verdict (rl_onExceed r)) (ra_Code (rl_onExceed r))))"

definition RateLimitRule_Evaluate ::
    "bool \<Rightarrow> 'r RateLimitRule \<Rightarrow> ctx \<Rightarrow> EvalState \<Rightarrow> 'r evaluation" where
  "RateLimitRule_Evaluate fma r c state w =
     (let req = es_Request state in
      if rl_action r \<noteq> [] \<and> ac_Type (dr_Action req) \<noteq> rl_action r
      then (Inr (unmatched (rl_id r)), w)
      else case rl_now r w of (now, w) \<Rightarrow>
        let unix = now div 1000000000;
            windowSeconds = window_seconds r in
        if windowSeconds \<le> 0 then (Inl (Errorf ''rate limit window is below one second''), w)
        else
          let bucket = go_div unix windowSeconds;
              currentKey = bucket_key (keyPrefix r req) bucket;
              previousKey = bucket_key (keyPrefix r req) (bucket - 1);
              ttlSeconds = ttl_seconds r
          in case rd_Run (rl_redis r) c
                 (rateLimitScript (rl_redis r) [currentKey, previousKey] [format_int ttlSeconds]) w of
               (Inl err, w) \<Rightarrow> (Inl (ExtErr err), w)
             | (Inr vs, w) \<Rightarrow> (decide fma r unix vs, w))"

definition rate_limit_rule :: "bool \<Rightarrow> 'r RateLimitRule \<Rightarrow> 'r rule" where
  "rate_limit_rule fma r = \<lparr>rule_ID = rl_id r, rule_Evaluate = RateLimitRule_Evaluate fma r,
     rule_Aware = None\<rparr>"

section \<open>What the rule relies on\<close>

text \<open>
  A successful \<open>Script.Run\<close> returns what the script returned in the state in which the server ran
  it, and a run touches nothing that only the engine writes.
\<close>

definition redis_runs_script :: "'r Cmdable \<Rightarrow> bool" where
  "redis_runs_script client \<longleftrightarrow>
     (\<forall>c s w out w'. rd_Run client c s w = (out, w') \<longrightarrow>
        engine_frame w w' \<and> (\<forall>vs. out = Inr vs \<longrightarrow> (\<exists>r0. s r0 = (Inr vs, ext w'))))"

definition clock_lawful :: "('r world \<Rightarrow> int \<times> 'r world) \<Rightarrow> bool" where
  "clock_lawful now \<longleftrightarrow> (\<forall>w. engine_frame w (snd (now w)))"

definition lawful_limit_config :: "'r Cmdable option \<Rightarrow> 'r RateLimitRuleConfig \<Rightarrow> bool" where
  "lawful_limit_config client cfg \<longleftrightarrow>
     (\<forall>r. client = Some r \<longrightarrow> redis_runs_script r) \<and> (\<forall>now. lc_Now cfg = Some now \<longrightarrow> clock_lawful now)"

lemma time_now_lawful [simp]: "clock_lawful time_now"
  by (simp add: clock_lawful_def time_now_def engine_frame_def)

section \<open>Construction and contract\<close>

definition default_scope :: "string \<Rightarrow> string" where
  "default_scope s = (if s = [] then ''actor'' else s)"

definition valid_limit_config :: "'r RateLimitRuleConfig \<Rightarrow> bool" where
  "valid_limit_config cfg \<longleftrightarrow> TrimSpace (lc_ID cfg) \<noteq> [] \<and>
     default_scope (lc_Scope cfg) \<in> {''actor'', ''actor+action'', ''global''} \<and>
     0 < lc_Window cfg \<and> 0 < lc_Limit cfg \<and> valid_action (lc_OnExceed cfg)"

lemma NewRateLimitRule_Inr:
  assumes "NewRateLimitRule cfg client = Inr r"
  shows "valid_limit_config cfg" and "client = Some (rl_redis r)" and "rl_id r = lc_ID cfg"
    and "rl_scope r = default_scope (lc_Scope cfg)" and "rl_action r = lc_Action cfg"
    and "rl_window r = lc_Window cfg" and "rl_limit r = lc_Limit cfg"
    and "rl_onExceed r = lc_OnExceed cfg"
    and "rl_now r = (case lc_Now cfg of None \<Rightarrow> time_now | Some now \<Rightarrow> now)"
  using assms validate_None_iff [of "lc_OnExceed cfg" "''rate limit on_exceed''"]
  by (auto simp: NewRateLimitRule_def valid_limit_config_def default_scope_def Let_def
      split: if_splits option.splits)

lemma NewRateLimitRule_valid:
  assumes "valid_limit_config cfg"
  shows "\<exists>r. NewRateLimitRule cfg (Some client) = Inr r"
  using assms validate_None_iff [of "lc_OnExceed cfg" "''rate limit on_exceed''"]
  by (auto simp: NewRateLimitRule_def valid_limit_config_def default_scope_def Let_def
      split: if_splits option.splits)

lemma rateLimitScript_values:
  "rateLimitScript client KEYS ARGV r = (Inr vs, r') \<Longrightarrow> \<exists>i s. vs = [AInt i, AString s]"
  by (auto simp: rateLimitScript_def split: prod.splits sum.splits)

lemma Sscanf_d_returns: "Sscanf_d s \<noteq> Inl NoReturn"
  by (auto simp: Sscanf_d_def Let_def split: option.splits list.splits)

lemma decide_pair:
  "decide fma r unix [AInt i, AString s] =
     (case Sscanf_d s of Inl err \<Rightarrow> Inl err | Inr previous \<Rightarrow>
        if estimate fma (window_seconds r) (go_mod unix (window_seconds r)) i previous \<le> f_of_int (rl_limit r)
        then Inr (unmatched (rl_id r))
        else Inr (matched (rl_id r) (ra_Verdict (rl_onExceed r)) (ra_Code (rl_onExceed r))))"
  by (simp add: decide_def int64FromRedis_def Let_def split: sum.splits)

text \<open>The script call of an evaluation at the second \<open>unix\<close>, and the ways through \<open>Evaluate\<close>.\<close>

abbreviation window_script :: "'r RateLimitRule \<Rightarrow> DecideRequest \<Rightarrow> int \<Rightarrow> 'r script" where
  "window_script r req unix \<equiv>
     rateLimitScript (rl_redis r)
       [bucket_key (keyPrefix r req) (go_div unix (window_seconds r)),
        bucket_key (keyPrefix r req) (go_div unix (window_seconds r) - 1)]
       [format_int (ttl_seconds r)]"

definition applies :: "'r RateLimitRule \<Rightarrow> EvalState \<Rightarrow> bool" where
  "applies r state \<longleftrightarrow> rl_action r = [] \<or> ac_Type (dr_Action (es_Request state)) = rl_action r"

lemma RateLimitRule_Evaluate_cases:
  assumes "RateLimitRule_Evaluate fma r c state w = (out, w')"
  obtains (skipped) "\<not> applies r state" "out = Inr (unmatched (rl_id r))" "w' = w"
  | (short) now where "applies r state" "rl_now r w = (now, w')" "window_seconds r \<le> 0"
      "out = Inl (Errorf ''rate limit window is below one second'')"
  | (lost) now w1 err where "applies r state" "rl_now r w = (now, w1)" "0 < window_seconds r"
      "rd_Run (rl_redis r) c (window_script r (es_Request state) (now div 1000000000)) w1 = (Inl err, w')"
      "out = Inl (ExtErr err)"
  | (ran) now w1 vs where "applies r state" "rl_now r w = (now, w1)" "0 < window_seconds r"
      "rd_Run (rl_redis r) c (window_script r (es_Request state) (now div 1000000000)) w1 = (Inr vs, w')"
      "out = decide fma r (now div 1000000000) vs"
proof (cases "applies r state")
  case False
  with assms show ?thesis
    by (intro skipped) (simp_all add: RateLimitRule_Evaluate_def applies_def Let_def)
next
  case True
  obtain now w1 where now: "rl_now r w = (now, w1)" by (cases "rl_now r w")
  show ?thesis
  proof (cases "window_seconds r \<le> 0")
    case short': True
    with assms True now show ?thesis
      by (intro short) (simp_all add: RateLimitRule_Evaluate_def applies_def Let_def split: if_splits)
  next
    case False
    obtain res w2 where run:
      "rd_Run (rl_redis r) c (window_script r (es_Request state) (now div 1000000000)) w1 = (res, w2)"
      by (cases "rd_Run (rl_redis r) c (window_script r (es_Request state) (now div 1000000000)) w1")
    have eq: "RateLimitRule_Evaluate fma r c state w =
        (case res of Inl err \<Rightarrow> (Inl (ExtErr err), w2)
         | Inr vs \<Rightarrow> (decide fma r (now div 1000000000) vs, w2))"
      using True False now run by (cases res) (auto simp: RateLimitRule_Evaluate_def applies_def Let_def)
    show ?thesis
    proof (cases res)
      case (Inl err)
      with lost [OF True now] False run eq assms show ?thesis by simp
    next
      case (Inr vs)
      with ran [OF True now] False run eq assms show ?thesis by simp
    qed
  qed
qed

lemma rate_limit_rule_contract:
  assumes "valid_action (rl_onExceed r)" and "redis_runs_script (rl_redis r)" and "clock_lawful (rl_now r)"
  shows "rule_contract (rate_limit_rule fma r)"
proof -
  have run: "invoke (rate_limit_rule fma r) c state byID = RateLimitRule_Evaluate fma r c state" for c state byID
    by (simp add: invoke_def rate_limit_rule_def fun_eq_iff)
  have redis: "rd_Run (rl_redis r) c s w0 = (o0, w1) \<Longrightarrow> engine_frame w0 w1"
    "rd_Run (rl_redis r) c s w0 = (Inr vs, w1) \<Longrightarrow> \<exists>r0. s r0 = (Inr vs, ext w1)" for c s w0 o0 w1 vs
    using assms(2) unfolding redis_runs_script_def by blast+
  have clock: "engine_frame w w1" if "rl_now r w = (now, w1)" for w now w1
    using assms(3) that unfolding clock_lawful_def by (metis snd_conv)
  show ?thesis
  proof (rule rule_contractI)
    fix c state byID w out w'
    assume "invoke (rate_limit_rule fma r) c state byID w = (out, w')"
    then have e: "RateLimitRule_Evaluate fma r c state w = (out, w')" by (simp add: run)
    from e show "case out of Inl e \<Rightarrow> e \<noteq> NoReturn | Inr res \<Rightarrow> well_formed (rule_ID (rate_limit_rule fma r)) res"
    proof (cases rule: RateLimitRule_Evaluate_cases)
      case (ran now w1 vs)
      from redis(2) [OF ran(4)] obtain r0
        where "window_script r (es_Request state) (now div 1000000000) r0 = (Inr vs, ext w')" ..
      from rateLimitScript_values [OF this] obtain i s where "vs = [AInt i, AString s]"
        by (elim exE)
      then show ?thesis
        using ran(5) Sscanf_d_returns [of s] well_formed_matched [OF assms(1), of "rl_id r"]
        by (auto simp: decide_pair rate_limit_rule_def split: sum.splits)
    qed (simp_all add: rate_limit_rule_def)
    from e show "engine_frame w w'"
    proof (cases rule: RateLimitRule_Evaluate_cases)
      case (short now)
      from clock [OF short(2)] show ?thesis .
    next
      case (lost now w1 err)
      from engine_frame_trans [OF clock [OF lost(2)] redis(1) [OF lost(4)]] show ?thesis .
    next
      case (ran now w1 vs)
      from engine_frame_trans [OF clock [OF ran(2)] redis(1) [OF ran(4)]] show ?thesis .
    qed simp
  qed
qed

interpretation rate_limit: rule_constructor "\<lambda>cfg. NewRateLimitRule cfg client" "rate_limit_rule fma" lc_ID
    "lawful_limit_config client" for client fma
proof
  fix cfg :: "'a RateLimitRuleConfig" and m
  assume m: "NewRateLimitRule cfg client = Inr m"
  from NewRateLimitRule_Inr(3) [OF m] show "rule_ID (rate_limit_rule fma m) = lc_ID cfg"
    by (simp add: rate_limit_rule_def)
  assume "lawful_limit_config client cfg"
  then show "rule_contract (rate_limit_rule fma m)"
    using NewRateLimitRule_Inr [OF m]
    by (intro rate_limit_rule_contract) (auto simp: lawful_limit_config_def valid_limit_config_def split: option.splits)
next
  show "NewRateLimitRule cfg client \<noteq> Inl NoReturn" for cfg
    by (auto simp: NewRateLimitRule_def validate_def Let_def split: option.splits)
qed

section \<open>The estimate\<close>

text \<open>The sliding-window estimate in exact arithmetic.\<close>

definition exact_estimate :: "int \<Rightarrow> int \<Rightarrow> int \<Rightarrow> int \<Rightarrow> rat" where
  "exact_estimate windowSeconds elapsed current previous =
     of_int current + of_int previous * (of_int (windowSeconds - elapsed) / of_int windowSeconds)"

lemma ulp_error_bounds: "0 < ulp_error" "ulp_error < 1"
  by (simp_all add: ulp_error_def)

lemma sum_error:
  fixes c x y d :: rat
  assumes "0 \<le> c" "0 \<le> d" "y \<le> x * (1 + d)"
  shows "c + y \<le> (c + x) * (1 + d)"
proof -
  have "0 \<le> c * d" using assms(1,2) by (rule mult_nonneg_nonneg)
  with assms(3) show ?thesis unfolding distrib_right distrib_left mult_1_right by linarith
qed

lemma sum_error':
  fixes c x y d :: rat
  assumes "0 \<le> c" "0 \<le> d" "x * (1 - d) \<le> y"
  shows "(c + x) * (1 - d) \<le> c + y"
proof -
  have "0 \<le> c * d" using assms(1,2) by (rule mult_nonneg_nonneg)
  with assms(3) show ?thesis unfolding distrib_right right_diff_distrib mult_1_right by linarith
qed

lemma estimate_error:
  assumes "0 \<le> current" "current \<le> 2 ^ 53" "0 \<le> previous" "previous \<le> 2 ^ 53"
    and "0 \<le> elapsed" "elapsed < windowSeconds" "windowSeconds \<le> 2 ^ 53"
  defines "E \<equiv> exact_estimate windowSeconds elapsed current previous"
  shows "estimate fma windowSeconds elapsed current previous \<le> E * (1 + ulp_error) ^ 3"
    and "E * (1 - ulp_error) ^ 3 \<le> estimate fma windowSeconds elapsed current previous"
proof -
  let ?u = ulp_error
  let ?q = "of_int (windowSeconds - elapsed) / of_int windowSeconds :: rat"
  let ?Q = "float64 ?q" and ?p = "of_int previous :: rat" and ?c = "of_int current :: rat"
  note u = ulp_error_bounds
  have q: "0 \<le> ?q" using assms by simp
  have ints: "f_of_int current = ?c" "f_of_int previous = ?p" "f_of_int windowSeconds = of_int windowSeconds"
    "f_of_int (windowSeconds - elapsed) = of_int (windowSeconds - elapsed)"
    using assms by (simp_all add: f_of_int_exact del: of_int_diff)
  have Q: "0 \<le> ?Q" "?q * (1 - ?u) \<le> ?Q" "?Q \<le> ?q * (1 + ?u)"
    using float64_nonneg [OF q] float64_error [OF q] by auto
  have c: "0 \<le> ?c" and p: "0 \<le> ?p" using assms by simp_all
  have pq: "0 \<le> ?p * ?q" and pQ: "0 \<le> ?p * ?Q"
    using mult_nonneg_nonneg [OF p q] mult_nonneg_nonneg [OF p Q(1)] by blast+
  have hi1: "?p * ?Q \<le> (?p * ?q) * (1 + ?u)" using mult_left_mono [OF Q(3) p] by (simp only: mult.assoc)
  have lo1: "(?p * ?q) * (1 - ?u) \<le> ?p * ?Q" using mult_left_mono [OF Q(2) p] by (simp only: mult.assoc)
  have E: "0 \<le> E" "E = ?c + ?p * ?q" using c pq unfolding E_def exact_estimate_def by simp_all
  have grow: "x * (1 + ?u) \<le> x * (1 + ?u) ^ 2" "x * (1 - ?u) ^ 2 \<le> x * (1 - ?u)" if "0 \<le> x" for x
    using that u mult_left_mono [of 1 "1 + ?u" "x * (1 + ?u)"] mult_left_mono [of "1 - ?u" 1 "x * (1 - ?u)"]
    by (simp_all add: power2_eq_square mult.assoc)
  define Y where "Y = (if fma then ?p * ?Q else float64 (?p * ?Q))"
  have est: "estimate fma windowSeconds elapsed current previous = float64 (?c + Y)"
    unfolding estimate_def Let_def f_div_def f_add_def f_mul_def ints Y_def by simp
  have fl: "float64 (?p * ?Q) \<le> (?p * ?Q) * (1 + ?u)" "(?p * ?Q) * (1 - ?u) \<le> float64 (?p * ?Q)"
    using float64_error [OF pQ] by simp_all
  have "(?p * ?Q) * (1 + ?u) \<le> (?p * ?q) * (1 + ?u) ^ 2"
    using mult_right_mono [OF hi1, of "1 + ?u"] u by (simp add: power2_eq_square mult.assoc)
  with fl(1) hi1 grow(1) [OF pq] have hi: "Y \<le> (?p * ?q) * (1 + ?u) ^ 2" by (auto simp: Y_def)
  have "(?p * ?q) * (1 - ?u) ^ 2 \<le> (?p * ?Q) * (1 - ?u)"
    using mult_right_mono [OF lo1, of "1 - ?u"] u by (simp add: power2_eq_square mult.assoc)
  with fl(2) lo1 grow(2) [OF pq] have lo: "(?p * ?q) * (1 - ?u) ^ 2 \<le> Y" by (auto simp: Y_def)
  have Y: "0 \<le> ?c + Y" using c float64_nonneg [OF pQ] pQ by (simp add: Y_def)
  have "1 \<le> (1 + ?u) ^ 2" using u by (intro one_le_power) simp
  then have "?c + Y \<le> E * (1 + ?u) ^ 2"
    using sum_error [OF c, of "(1 + ?u) ^ 2 - 1" Y "?p * ?q"] hi E(2) by simp
  then have "(?c + Y) * (1 + ?u) \<le> E * (1 + ?u) ^ 2 * (1 + ?u)"
    using u by (intro mult_right_mono) simp_all
  from order_trans [OF float64_error(2) [OF Y] this]
  show "estimate fma windowSeconds elapsed current previous \<le> E * (1 + ?u) ^ 3"
    unfolding est by (simp only: power3_eq_cube power2_eq_square mult.assoc)
  have "(1 - ?u) ^ 2 \<le> 1" using u by (intro power_le_one) simp_all
  then have "E * (1 - ?u) ^ 2 \<le> ?c + Y"
    using sum_error' [OF c, of "1 - (1 - ?u) ^ 2" "?p * ?q" Y] lo E(2) by simp
  then have "E * (1 - ?u) ^ 2 * (1 - ?u) \<le> (?c + Y) * (1 - ?u)"
    using u by (intro mult_right_mono) simp_all
  from order_trans [OF this float64_error(1) [OF Y]]
  show "E * (1 - ?u) ^ 3 \<le> estimate fma windowSeconds elapsed current previous"
    unfolding est by (simp only: power3_eq_cube power2_eq_square mult.assoc)
qed

lemma estimate_no_previous:
  "0 \<le> current \<Longrightarrow> current \<le> 2 ^ 53 \<Longrightarrow> estimate fma windowSeconds elapsed current 0 = of_int current"
  by (simp add: estimate_def Let_def f_add_def f_mul_def f_of_int_exact f_of_int_def [of 0]
      f_of_int_def [of current, symmetric])

end
