(* ===== verification/Rule_Order.thy ===== *)
theory Rule_Order
  imports Rule_Action "HOL-Library.Multiset"
begin

text \<open>
  The rule file as it is parsed and \<open>orderRules\<close> of \<open>internal/rules/loader.go\<close>: the depth-first visit
  that puts every combiner after the rules it refers to. The visit recurses through the
  references, so the model carries fuel; one unit more than there are rules is always enough
  (\<open>visit_enough_fuel\<close>), because a nested visit never enters a rule that is being visited.
\<close>

record rawRule =
  rw_ID :: string
  rw_Type :: string
  rw_Enabled :: "bool option"
  rw_Scope :: string
  rw_Action :: string
  rw_Window :: string
  rw_Limit :: int
  rw_Field :: string
  rw_KeywordsFile :: string
  rw_Expr :: string
  rw_OnExceed :: RuleAction
  rw_OnMatch :: RuleAction
  rw_Op :: string
  rw_Of :: "string list"

text \<open>The variables that the closure \<open>visit\<close> captures.\<close>

record order_state =
  os_ordered :: "rawRule list"
  os_temporary :: "string \<Rightarrow> bool"
  os_permanent :: "string \<Rightarrow> bool"

definition cycle_error :: "string \<Rightarrow> gerror" where
  "cycle_error i = ErrFmt ''combiner cycle detected at %s'' [i]"

fun visit :: "(string \<rightharpoonup> rawRule) \<Rightarrow> nat \<Rightarrow> string \<Rightarrow> order_state \<Rightarrow> gerror + order_state" where
  "visit byID 0 i s = Inl NoReturn"
| "visit byID (Suc n) i s =
     (if os_permanent s i then Inr s
      else if os_temporary s i then Inl (cycle_error i)
      else case byID i of
        None \<Rightarrow> Inl (ErrFmt ''unknown referenced rule %q'' [i])
      | Some raw \<Rightarrow>
          let s = s\<lparr>os_temporary := (os_temporary s)(i := True)\<rparr> in
          (case (if rw_Type raw = ''combiner'' then foldE (visit byID n) (rw_Of raw) s else Inr s) of
             Inl err \<Rightarrow> Inl err
           | Inr s \<Rightarrow>
               Inr (s\<lparr>os_temporary := (os_temporary s)(i := False),
                      os_permanent := (os_permanent s)(i := True),
                      os_ordered := os_ordered s @ [raw]\<rparr>)))"

definition index_rules :: "rawRule list \<Rightarrow> (string \<rightharpoonup> rawRule)" where
  "index_rules raws = fold (\<lambda>raw m. m(rw_ID raw \<mapsto> raw)) raws Map.empty"

definition orderRules :: "rawRule list \<Rightarrow> gerror + rawRule list" where
  "orderRules raws =
     (case foldE (\<lambda>raw. visit (index_rules raws) (Suc (length raws)) (rw_ID raw)) raws
        \<lparr>os_ordered = [], os_temporary = (\<lambda>_. False), os_permanent = (\<lambda>_. False)\<rparr> of
        Inl err \<Rightarrow> Inl err
      | Inr s \<Rightarrow> Inr (os_ordered s))"

section \<open>The dependency graph\<close>

definition deps :: "rawRule \<Rightarrow> string list" where
  "deps raw = (if rw_Type raw = ''combiner'' then rw_Of raw else [])"

definition edge :: "(string \<rightharpoonup> rawRule) \<Rightarrow> (string \<times> string) set" where
  "edge byID = {(i, j). \<exists>raw. byID i = Some raw \<and> j \<in> set (deps raw)}"

definition dep_edges :: "rawRule list \<Rightarrow> (string \<times> string) set" where
  "dep_edges raws = {(rw_ID raw, j) | raw j. raw \<in> set raws \<and> j \<in> set (deps raw)}"

text \<open>Every rule comes after the rules it depends on.\<close>

definition deps_before :: "rawRule list \<Rightarrow> bool" where
  "deps_before raws \<longleftrightarrow>
     (\<forall>pre raw post. raws = pre @ raw # post \<longrightarrow> set (deps raw) \<subseteq> rw_ID ` set pre)"

definition keyed :: "(string \<rightharpoonup> rawRule) \<Rightarrow> bool" where
  "keyed byID \<longleftrightarrow> (\<forall>i raw. byID i = Some raw \<longrightarrow> rw_ID raw = i)"

lemma deps_before_Nil [simp]: "deps_before []"
  by (simp add: deps_before_def)

lemma deps_beforeD:
  assumes "deps_before raws" and "raw \<in> set raws"
  shows "set (deps raw) \<subseteq> rw_ID ` set raws"
proof -
  from assms(2) obtain pre post where raws: "raws = pre @ raw # post" by (meson split_list)
  with assms(1) have "set (deps raw) \<subseteq> rw_ID ` set pre" by (simp add: deps_before_def)
  with raws show ?thesis by auto
qed

lemma deps_before_snoc [simp]:
  "deps_before (raws @ [raw]) \<longleftrightarrow> deps_before raws \<and> set (deps raw) \<subseteq> rw_ID ` set raws"
proof
  assume l: "deps_before (raws @ [raw])"
  show "deps_before raws \<and> set (deps raw) \<subseteq> rw_ID ` set raws"
  proof
    show "deps_before raws" unfolding deps_before_def
    proof (intro allI impI)
      fix pre r post
      assume "raws = pre @ r # post"
      then have "raws @ [raw] = pre @ r # (post @ [raw])" by simp
      with l show "set (deps r) \<subseteq> rw_ID ` set pre" unfolding deps_before_def by blast
    qed
    show "set (deps raw) \<subseteq> rw_ID ` set raws" using l unfolding deps_before_def by blast
  qed
next
  assume r: "deps_before raws \<and> set (deps raw) \<subseteq> rw_ID ` set raws"
  show "deps_before (raws @ [raw])" unfolding deps_before_def
  proof (intro allI impI)
    fix pre r' post
    assume eq: "raws @ [raw] = pre @ r' # post"
    show "set (deps r') \<subseteq> rw_ID ` set pre"
    proof (cases post rule: rev_cases)
      case Nil
      with eq r show ?thesis by simp
    next
      case (snoc post' x)
      with eq have "raws = pre @ r' # post'" by simp
      with r show ?thesis unfolding deps_before_def by blast
    qed
  qed
qed

text \<open>The invariant of the visit.\<close>

definition order_inv :: "(string \<rightharpoonup> rawRule) \<Rightarrow> order_state \<Rightarrow> bool" where
  "order_inv byID s \<longleftrightarrow>
     (\<forall>i. os_permanent s i \<longleftrightarrow> i \<in> rw_ID ` set (os_ordered s)) \<and>
     (\<forall>i. os_permanent s i \<longrightarrow> \<not> os_temporary s i) \<and>
     (\<forall>raw \<in> set (os_ordered s). byID (rw_ID raw) = Some raw) \<and>
     distinct (map rw_ID (os_ordered s)) \<and> deps_before (os_ordered s)"

lemma order_inv_snoc:
  assumes inv: "order_inv byID s" and new: "\<not> os_permanent s i"
    and raw: "rw_ID raw = i" "byID i = Some raw"
    and deps: "\<forall>x \<in> set (deps raw). os_permanent s x"
  shows "order_inv byID (s\<lparr>os_temporary := (os_temporary s)(i := False),
    os_permanent := (os_permanent s)(i := True), os_ordered := os_ordered s @ [raw]\<rparr>)"
proof -
  have perm: "os_permanent s j \<longleftrightarrow> j \<in> rw_ID ` set (os_ordered s)" for j
    using inv unfolding order_inv_def by blast
  from deps perm have d: "set (deps raw) \<subseteq> rw_ID ` set (os_ordered s)" by blast
  from new perm have i: "i \<notin> rw_ID ` set (os_ordered s)" by blast
  show ?thesis
    using inv d i raw unfolding order_inv_def by (simp add: perm)
qed

text \<open>What a successful visit adds: it keeps what is there and the marks of the visits around it.\<close>

definition extends :: "order_state \<Rightarrow> order_state \<Rightarrow> bool" where
  "extends s s' \<longleftrightarrow> os_temporary s' = os_temporary s \<and> (\<exists>new. os_ordered s' = os_ordered s @ new) \<and>
     (\<forall>i. os_permanent s i \<longrightarrow> os_permanent s' i)"

lemma extends_refl [simp]: "extends s s"
  by (simp add: extends_def)

lemma extends_trans: "extends s s' \<Longrightarrow> extends s' s'' \<Longrightarrow> extends s s''"
  by (auto simp: extends_def)

lemma foldE_visit:
  assumes step: "\<And>x s s'. x \<in> set xs \<Longrightarrow> order_inv byID s \<Longrightarrow> f x s = Inr s' \<Longrightarrow>
      order_inv byID s' \<and> extends s s' \<and> os_permanent s' (key x)"
    and "order_inv byID s" and "foldE f xs s = Inr s'"
  shows "order_inv byID s' \<and> extends s s' \<and> (\<forall>x \<in> set xs. os_permanent s' (key x))"
  using assms
proof (induction xs arbitrary: s)
  case Nil
  then show ?case by simp
next
  case (Cons x xs)
  from Cons.prems(3) obtain s1 where s1: "f x s = Inr s1" "foldE f xs s1 = Inr s'"
    by (auto split: sum.splits)
  from Cons.prems(1) [OF _ Cons.prems(2) s1(1)] have x: "order_inv byID s1" "extends s s1" "os_permanent s1 (key x)"
    by simp_all
  have "order_inv byID s' \<and> extends s1 s' \<and> (\<forall>x \<in> set xs. os_permanent s' (key x))"
    by (rule Cons.IH [OF _ x(1) s1(2)]) (rule Cons.prems(1); simp)
  with x extends_trans [OF x(2)] show ?case by (auto simp: extends_def)
qed

lemma visit_success:
  assumes "keyed byID"
  shows "order_inv byID s \<Longrightarrow> visit byID n i s = Inr s' \<Longrightarrow>
    order_inv byID s' \<and> extends s s' \<and> os_permanent s' i"
proof (induction n arbitrary: i s s')
  case 0
  then show ?case by simp
next
  case (Suc n)
  show ?case
  proof (cases "os_permanent s i")
    case True
    with Suc.prems show ?thesis by simp
  next
    case False
    with Suc.prems(2) obtain raw where raw: "byID i = Some raw" and t: "\<not> os_temporary s i"
      by (auto split: if_splits option.splits)
    let ?s = "s\<lparr>os_temporary := (os_temporary s)(i := True)\<rparr>"
    have inv: "order_inv byID ?s" using Suc.prems(1) False by (auto simp: order_inv_def)
    from Suc.prems(2) raw t False obtain s1 where
      loop: "foldE (visit byID n) (deps raw) ?s = Inr s1"
      and s': "s' = s1\<lparr>os_temporary := (os_temporary s1)(i := False),
        os_permanent := (os_permanent s1)(i := True), os_ordered := os_ordered s1 @ [raw]\<rparr>"
      by (auto simp: deps_def Let_def split: sum.splits if_splits)
    have "order_inv byID s1 \<and> extends ?s s1 \<and> (\<forall>x \<in> set (deps raw). os_permanent s1 x)"
      by (rule foldE_visit [where key = "\<lambda>x. x", OF _ inv loop]) (rule Suc.IH)
    then have s1: "order_inv byID s1" "extends ?s s1" "\<forall>x \<in> set (deps raw). os_permanent s1 x"
      by blast+
    have "os_temporary s1 i" using s1(2) by (simp add: extends_def)
    with s1(1) have new: "\<not> os_permanent s1 i" unfolding order_inv_def by blast
    from assms raw have "rw_ID raw = i" by (simp add: keyed_def)
    from order_inv_snoc [OF s1(1) new this raw s1(3)] have "order_inv byID s'" unfolding s' .
    moreover have "extends s s'" using s1(2) s' t by (auto simp: extends_def fun_eq_iff)
    ultimately show ?thesis using s' by simp
  qed
qed

text \<open>With enough fuel, a visit ends: what is left to enter shrinks with the depth.\<close>

definition open_ids :: "(string \<rightharpoonup> rawRule) \<Rightarrow> order_state \<Rightarrow> string set" where
  "open_ids byID s = {i \<in> dom byID. \<not> os_temporary s i}"

text \<open>
  An error is a cycle through the reported rule, or a reference outside the map: \<open>blame\<close> is what a
  visit may report when the rules being visited all lead to \<open>i\<close>.
\<close>

definition blame :: "(string \<rightharpoonup> rawRule) \<Rightarrow> string \<Rightarrow> gerror \<Rightarrow> bool" where
  "blame byID i err \<longleftrightarrow>
     (\<exists>x. err = cycle_error x \<and> (x, x) \<in> (edge byID)\<^sup>+) \<or>
     (\<exists>x. err = ErrFmt ''unknown referenced rule %q'' [x] \<and> x \<notin> dom byID \<and> (i, x) \<in> (edge byID)\<^sup>*)"

lemma visit_error:
  assumes "keyed byID" and "finite (dom byID)"
  shows "order_inv byID s \<Longrightarrow> card (open_ids byID s) < n \<Longrightarrow>
    (\<And>t. os_temporary s t \<Longrightarrow> (t, i) \<in> (edge byID)\<^sup>+) \<Longrightarrow>
    visit byID n i s = Inl err \<Longrightarrow> blame byID i err"
proof (induction n arbitrary: i s err)
  case 0
  then show ?case by simp
next
  case (Suc n)
  show ?case
  proof (cases "os_temporary s i \<or> byID i = None")
    case True
    with Suc.prems(3) [of i] Suc.prems(4) show ?thesis
      by (auto simp: blame_def split: if_splits option.splits)
  next
    case False
    then obtain raw where raw: "byID i = Some raw" and t: "\<not> os_temporary s i" by auto
    let ?s = "s\<lparr>os_temporary := (os_temporary s)(i := True)\<rparr>"
    from Suc.prems(4) raw t have np: "\<not> os_permanent s i"
      and err: "foldE (visit byID n) (deps raw) ?s = Inl err"
      by (auto simp: deps_def Let_def split: sum.splits if_splits)
    have inv: "order_inv byID ?s" using Suc.prems(1) np by (auto simp: order_inv_def)
    have "open_ids byID s = insert i (open_ids byID ?s)" "i \<notin> open_ids byID ?s"
      using raw t by (auto simp: open_ids_def)
    moreover have "finite (open_ids byID ?s)" using assms(2) by (simp add: open_ids_def)
    ultimately have fuel: "card (open_ids byID ?s) < n" using Suc.prems(2) by simp
    have dep: "(i, x) \<in> edge byID" if "x \<in> set (deps raw)" for x
      using raw that by (auto simp: edge_def)
    from foldE_Inl [OF err] obtain pre x post s1 where split: "deps raw = pre @ x # post"
      and pre: "foldE (visit byID n) pre ?s = Inr s1" and x: "visit byID n x s1 = Inl err" by blast
    have "order_inv byID s1 \<and> extends ?s s1 \<and> (\<forall>x \<in> set pre. os_permanent s1 x)"
      by (rule foldE_visit [where key = "\<lambda>x. x", OF _ inv pre]) (rule visit_success [OF assms(1)])
    then have s1: "order_inv byID s1" "os_temporary s1 = os_temporary ?s"
      by (auto simp: extends_def)
    from dep split have ix: "(i, x) \<in> edge byID" by simp
    have "(t, x) \<in> (edge byID)\<^sup>+" if "os_temporary s1 t" for t
    proof (cases "t = i")
      case True
      with ix show ?thesis by blast
    next
      case False
      with that s1(2) have "os_temporary s t" by simp
      with Suc.prems(3) ix show ?thesis by (blast intro: trancl_into_trancl)
    qed
    moreover have "card (open_ids byID s1) < n" using fuel s1(2) by (simp add: open_ids_def)
    ultimately have "blame byID x err" using Suc.IH [OF s1(1)] x by blast
    with ix show ?thesis by (auto simp: blame_def intro: converse_rtrancl_into_rtrancl)
  qed
qed

section \<open>orderRules\<close>

lemma index_rules_snoc [simp]:
  "index_rules (raws @ [raw]) = (index_rules raws)(rw_ID raw \<mapsto> raw)"
  by (simp add: index_rules_def)

lemma index_rules_Nil [simp]: "index_rules [] = Map.empty"
  by (simp add: index_rules_def)

lemma keyed_index_rules: "keyed (index_rules raws)"
  by (induction raws rule: rev_induct) (auto simp: keyed_def)

lemma dom_index_rules: "dom (index_rules raws) = rw_ID ` set raws"
  by (induction raws rule: rev_induct) (simp_all del: fun_upd_apply)

lemma index_rules_Some:
  "index_rules raws i = Some raw \<Longrightarrow> raw \<in> set raws \<and> rw_ID raw = i"
  by (induction raws rule: rev_induct) (auto split: if_splits)

lemma index_rules_distinct:
  "distinct (map rw_ID raws) \<Longrightarrow> raw \<in> set raws \<Longrightarrow> index_rules raws (rw_ID raw) = Some raw"
  by (induction raws rule: rev_induct) (auto simp: image_iff)

lemma edge_index_rules:
  "distinct (map rw_ID raws) \<Longrightarrow> edge (index_rules raws) = dep_edges raws"
  using index_rules_Some index_rules_distinct by (fastforce simp: edge_def dep_edges_def)

text \<open>An order in which dependencies come first shows that there is no cycle.\<close>

lemma deps_before_positions:
  "deps_before raws \<Longrightarrow> distinct (map rw_ID raws) \<Longrightarrow>
     \<exists>pos :: string \<Rightarrow> nat. (\<forall>raw \<in> set raws. pos (rw_ID raw) < length raws) \<and>
       (\<forall>(i, j) \<in> dep_edges raws. pos j < pos i)"
proof (induction raws rule: rev_induct)
  case Nil
  then show ?case by (simp add: dep_edges_def)
next
  case (snoc raw raws)
  then obtain pos :: "string \<Rightarrow> nat" where pos: "\<forall>raw \<in> set raws. pos (rw_ID raw) < length raws"
    "\<forall>(i, j) \<in> dep_edges raws. pos j < pos i" by auto
  from snoc.prems have new: "rw_ID raw \<notin> rw_ID ` set raws" "set (deps raw) \<subseteq> rw_ID ` set raws"
    by auto
  have old: "j \<in> rw_ID ` set raws" if "(i, j) \<in> dep_edges raws" for i j
  proof -
    from that obtain r where r: "r \<in> set raws" "j \<in> set (deps r)" by (auto simp: dep_edges_def)
    with deps_beforeD [of raws r] snoc.prems(1) show ?thesis by auto
  qed
  let ?pos = "pos(rw_ID raw := length raws)"
  have "?pos j < ?pos i" if "(i, j) \<in> dep_edges (raws @ [raw])" for i j
  proof (cases "(i, j) \<in> dep_edges raws")
    case True
    then have "i \<in> rw_ID ` set raws" by (auto simp: dep_edges_def)
    with old [OF True] new(1) have "i \<noteq> rw_ID raw" "j \<noteq> rw_ID raw" by blast+
    with True pos(2) show ?thesis by auto
  next
    case False
    with that have "i = rw_ID raw" "j \<in> set (deps raw)" by (auto simp: dep_edges_def)
    with new pos(1) show ?thesis by auto
  qed
  moreover have "?pos (rw_ID r) < length (raws @ [raw])" if "r \<in> set (raws @ [raw])" for r
    using that pos(1) by (auto simp: less_SucI)
  ultimately show ?case by blast
qed

lemma deps_before_acyclic:
  assumes "deps_before raws" and "distinct (map rw_ID raws)"
  shows "acyclic (dep_edges raws)"
proof -
  obtain pos :: "string \<Rightarrow> nat" where pos: "\<And>i j. (i, j) \<in> dep_edges raws \<Longrightarrow> pos j < pos i"
    using deps_before_positions [OF assms] by blast
  have "(i, j) \<in> (dep_edges raws)\<^sup>+ \<Longrightarrow> pos j < pos i" for i j
    by (induction rule: trancl_induct) (auto dest: pos)
  then show ?thesis by (meson acyclic_def less_irrefl)
qed

lemma orderRules_cases:
  assumes "distinct (map rw_ID raws)"
  shows "(\<exists>sorted. orderRules raws = Inr sorted \<and> mset sorted = mset raws \<and> deps_before sorted) \<or>
    (\<exists>err raw. orderRules raws = Inl err \<and> raw \<in> set raws \<and>
       blame (index_rules raws) (rw_ID raw) err)"
proof -
  let ?byID = "index_rules raws" and ?n = "Suc (length raws)"
  let ?s = "\<lparr>os_ordered = [], os_temporary = (\<lambda>_. False), os_permanent = (\<lambda>_. False)\<rparr>"
  let ?f = "\<lambda>raw. visit ?byID ?n (rw_ID raw)"
  have inv: "order_inv ?byID ?s" by (simp add: order_inv_def)
  note ok = visit_success [OF keyed_index_rules]
  show ?thesis
  proof (cases "foldE ?f raws ?s")
    case (Inr s)
    have "order_inv ?byID s \<and> extends ?s s \<and> (\<forall>raw \<in> set raws. os_permanent s (rw_ID raw))"
      by (rule foldE_visit [where key = rw_ID, OF _ inv Inr]) (rule ok)
    then have s: "order_inv ?byID s" "\<forall>raw \<in> set raws. os_permanent s (rw_ID raw)" by auto
    have perm: "os_permanent s i \<longleftrightarrow> i \<in> rw_ID ` set (os_ordered s)"
      and byID: "raw \<in> set (os_ordered s) \<Longrightarrow> ?byID (rw_ID raw) = Some raw" for i raw
      using s(1) unfolding order_inv_def by blast+
    have d: "distinct (map rw_ID (os_ordered s))" "deps_before (os_ordered s)"
      using s(1) unfolding order_inv_def by blast+
    have "raw \<in> set (os_ordered s) \<longleftrightarrow> raw \<in> set raws" for raw
    proof
      show "raw \<in> set raws" if "raw \<in> set (os_ordered s)" using byID [OF that] index_rules_Some by blast
      assume raw: "raw \<in> set raws"
      with s(2) perm obtain r where "r \<in> set (os_ordered s)" "rw_ID raw = rw_ID r" by force
      with byID index_rules_distinct [OF assms raw] show "raw \<in> set (os_ordered s)" by force
    qed
    then have "mset (os_ordered s) = mset raws"
      using d(1) assms by (metis distinct_map set_eq_iff set_eq_iff_mset_eq_distinct)
    with Inr d(2) show ?thesis by (simp add: orderRules_def)
  next
    case (Inl err)
    from foldE_Inl [OF Inl] obtain pre raw post s1 where split: "raws = pre @ raw # post"
      and pre: "foldE ?f pre ?s = Inr s1" and x: "visit ?byID ?n (rw_ID raw) s1 = Inl err" by blast
    have "order_inv ?byID s1 \<and> extends ?s s1 \<and> (\<forall>raw \<in> set pre. os_permanent s1 (rw_ID raw))"
      by (rule foldE_visit [where key = rw_ID, OF _ inv pre]) (rule ok)
    then have s1: "order_inv ?byID s1" "os_temporary s1 = (\<lambda>_. False)" by (auto simp: extends_def)
    have "card (open_ids ?byID s1) \<le> length raws"
      using s1(2) by (simp add: open_ids_def dom_index_rules)
        (metis card_length length_map list.set_map)
    with s1(2) have "blame ?byID (rw_ID raw) err"
      by (intro visit_error [OF keyed_index_rules _ s1(1) _ _ x]) (simp_all add: dom_index_rules)
    with Inl split show ?thesis by (auto simp: orderRules_def)
  qed
qed

text \<open>Visiting rules that are already in place changes nothing.\<close>

lemma foldE_visit_permanent:
  "0 < n \<Longrightarrow> \<forall>x \<in> set xs. os_permanent s x \<Longrightarrow> foldE (visit byID n) xs s = Inr s"
  by (induction xs) (auto simp: gr0_conv_Suc)

lemma orderRules_prefix:
  assumes "deps_before raws" and "distinct (map rw_ID raws)"
  shows "raws = pre @ post \<Longrightarrow>
    foldE (\<lambda>raw. visit (index_rules raws) (Suc (length raws)) (rw_ID raw)) pre
      \<lparr>os_ordered = [], os_temporary = (\<lambda>_. False), os_permanent = (\<lambda>_. False)\<rparr> =
    Inr \<lparr>os_ordered = pre, os_temporary = (\<lambda>_. False), os_permanent = (\<lambda>i. i \<in> rw_ID ` set pre)\<rparr>"
proof (induction pre arbitrary: post rule: rev_induct)
  case Nil
  then show ?case by simp
next
  case (snoc raw pre)
  let ?s = "\<lparr>os_ordered = pre, os_temporary = (\<lambda>_. False), os_permanent = (\<lambda>i. i \<in> rw_ID ` set pre)\<rparr>"
  from snoc.prems have raws: "raws = pre @ raw # post" by simp
  with assms(1) have deps: "set (deps raw) \<subseteq> rw_ID ` set pre" by (simp add: deps_before_def)
  have raw: "index_rules raws (rw_ID raw) = Some raw"
    using index_rules_distinct [OF assms(2)] raws by simp
  have new: "rw_ID raw \<notin> rw_ID ` set pre" using assms(2) raws by simp
  let ?t = "?s\<lparr>os_temporary := (os_temporary ?s)(rw_ID raw := True)\<rparr>"
  have "0 < length raws" using raws by simp
  then have "foldE (visit (index_rules raws) (length raws)) (deps raw) ?t = Inr ?t"
    using deps by (intro foldE_visit_permanent) auto
  then have "visit (index_rules raws) (Suc (length raws)) (rw_ID raw) ?s =
      Inr \<lparr>os_ordered = pre @ [raw], os_temporary = (\<lambda>_. False),
        os_permanent = (\<lambda>i. i \<in> rw_ID ` set (pre @ [raw]))\<rparr>"
    using raw new by (auto simp: deps_def Let_def fun_eq_iff split: if_splits)
  with snoc.IH [OF raws] show ?case by (simp add: foldE_append)
qed

section \<open>Properties\<close>

text \<open>
  C8. \<open>orderRules\<close> is a correct topological sort and always ends: for rules with distinct ids whose
  references all exist, it either returns a permutation of the rules in which every combiner comes
  after the rules it refers to, and then there is no dependency cycle, or it reports a cycle
  through a rule that really lies on one.
\<close>

theorem orderRules_correct:
  assumes "distinct (map rw_ID raws)" and "(\<Union>raw \<in> set raws. set (deps raw)) \<subseteq> rw_ID ` set raws"
  shows "(\<exists>sorted. orderRules raws = Inr sorted \<and> mset sorted = mset raws \<and> deps_before sorted \<and>
      acyclic (dep_edges raws)) \<or>
    (\<exists>i. orderRules raws = Inl (cycle_error i) \<and> (i, i) \<in> (dep_edges raws)\<^sup>+)"
  using orderRules_cases [OF assms(1)]
proof
  assume "\<exists>sorted. orderRules raws = Inr sorted \<and> mset sorted = mset raws \<and> deps_before sorted"
  then obtain sorted where s: "orderRules raws = Inr sorted" "mset sorted = mset raws" "deps_before sorted"
    by blast
  from s(2) have "set sorted = set raws" by (rule mset_eq_setD)
  moreover from s(2) assms(1) have "distinct (map rw_ID sorted)"
    by (metis mset_eq_imp_distinct_iff mset_map)
  ultimately have "acyclic (dep_edges raws)"
    using deps_before_acyclic [OF s(3)] by (simp add: dep_edges_def)
  with s show ?thesis by blast
next
  assume "\<exists>err raw. orderRules raws = Inl err \<and> raw \<in> set raws \<and>
    blame (index_rules raws) (rw_ID raw) err"
  then obtain err raw where e: "orderRules raws = Inl err" "raw \<in> set raws"
    "blame (index_rules raws) (rw_ID raw) err" by blast
  have "x \<in> rw_ID ` set raws" if "(rw_ID raw, x) \<in> (dep_edges raws)\<^sup>*" for x
    using that by (cases rule: rtranclE) (use e(2) assms(2) in \<open>auto simp: dep_edges_def\<close>)
  with e show ?thesis
    by (auto simp: blame_def dom_index_rules edge_index_rules [OF assms(1)])
qed

definition order_sample :: "string \<Rightarrow> string list \<Rightarrow> rawRule" where
  "order_sample i refs = \<lparr>rw_ID = i, rw_Type = (if refs = [] then ''cel'' else ''combiner''),
     rw_Enabled = None, rw_Scope = [], rw_Action = [], rw_Window = [], rw_Limit = 0, rw_Field = [],
     rw_KeywordsFile = [], rw_Expr = [], rw_OnExceed = \<lparr>ra_Verdict = [], ra_Code = []\<rparr>,
     rw_OnMatch = \<lparr>ra_Verdict = [], ra_Code = []\<rparr>, rw_Op = [], rw_Of = refs\<rparr>"

theorem orderRules_correct_witness:
  "(\<exists>sorted. orderRules [order_sample ''c'' [''a'', ''b''], order_sample ''b'' [''a''], order_sample ''a'' []] =
      Inr sorted \<and> deps_before sorted) \<and>
   (\<exists>i. orderRules [order_sample ''a'' [''b''], order_sample ''b'' [''a'']] = Inl (cycle_error i))"
proof
  let ?r = "[order_sample ''c'' [''a'', ''b''], order_sample ''b'' [''a''], order_sample ''a'' []]"
  have ok: "orderRules ?r = Inr (rev ?r)" by code_simp
  have "(\<exists>sorted. orderRules ?r = Inr sorted \<and> mset sorted = mset ?r \<and> deps_before sorted \<and>
      acyclic (dep_edges ?r)) \<or>
    (\<exists>i. orderRules ?r = Inl (cycle_error i) \<and> (i, i) \<in> (dep_edges ?r)\<^sup>+)"
    by (rule orderRules_correct) (auto simp: order_sample_def deps_def)
  with ok show "\<exists>sorted. orderRules ?r = Inr sorted \<and> deps_before sorted" by simp
next
  have "orderRules [order_sample ''a'' [''b''], order_sample ''b'' [''a'']] = Inl (cycle_error ''a'')"
    by code_simp
  then show "\<exists>i. orderRules [order_sample ''a'' [''b''], order_sample ''b'' [''a'']] = Inl (cycle_error i)"
    by blast
qed

text \<open>
  \<open>orderRules\<close> is stable: a rule file that already lists every combiner after the rules it refers
  to is evaluated in the order of the file.
\<close>

theorem orderRules_stable:
  assumes "distinct (map rw_ID raws)" and "deps_before raws"
  shows "orderRules raws = Inr raws"
  using orderRules_prefix [OF assms(2,1), of raws "[]"] by (simp add: orderRules_def)

theorem orderRules_stable_witness:
  "orderRules [order_sample ''a'' [], order_sample ''z'' [], order_sample ''c'' [''a'']] =
     Inr [order_sample ''a'' [], order_sample ''z'' [], order_sample ''c'' [''a'']]"
proof (rule orderRules_stable)
  have "deps_before ([] @ [order_sample ''a'' []] @ [order_sample ''z'' []] @ [order_sample ''c'' [''a'']])"
    unfolding append_assoc [symmetric] deps_before_snoc
    by (simp add: order_sample_def deps_def)
  then show "deps_before [order_sample ''a'' [], order_sample ''z'' [], order_sample ''c'' [''a'']]"
    by simp
qed (simp add: order_sample_def)

end
