(* ===== verification/Go_Path_Time.thy ===== *)
theory Go_Path_Time
  imports Go_Strings Go_Float
begin

text \<open>
  What the loader uses of the packages \<open>path/filepath\<close> (on Unix), \<open>time\<close> and \<open>encoding/hex\<close>: lexical
  path operations, \<open>time.ParseDuration\<close> and the hexadecimal encoding of bytes.
\<close>

section \<open>Paths\<close>

text \<open>One path element: an empty one and a dot vanish, a double dot removes the element before it.\<close>

definition clean_step :: "bool \<Rightarrow> string list \<Rightarrow> string \<Rightarrow> string list" where
  "clean_step rooted out elem =
     (if elem = [] \<or> elem = ''.'' then out
      else if elem = ''..'' then
        (if out \<noteq> [] \<and> last out \<noteq> ''..'' then butlast out
         else if rooted then out else out @ [elem])
      else out @ [elem])"

definition IsAbs :: "string \<Rightarrow> bool" where
  "IsAbs path \<longleftrightarrow> (case path of c # _ \<Rightarrow> c = CHR ''/'' | [] \<Rightarrow> False)"

definition Clean :: "string \<Rightarrow> string" where
  "Clean path =
     (let out = Join (foldl (clean_step (IsAbs path)) [] (Split path CHR ''/'')) ''/'' in
      if IsAbs path then ''/'' @ out else if out = [] then ''.'' else out)"

definition Dir :: "string \<Rightarrow> string" where
  "Dir path = Clean (rev (dropWhile (\<lambda>c. c \<noteq> CHR ''/'') (rev path)))"

definition Join_path :: "string \<Rightarrow> string \<Rightarrow> string" where
  "Join_path a b =
     (if a \<noteq> [] then Clean (a @ ''/'' @ b) else if b \<noteq> [] then Clean b else [])"

lemma path_examples:
  "Clean ''a/./b//../c'' = ''a/c''" "Clean ''/../x'' = ''/x''" "Clean [] = ''.''"
  "Dir ''config/rules.yaml'' = ''config''" "Dir ''rules.yaml'' = ''.''" "Dir ''/rules.yaml'' = ''/''"
  "Join_path ''config'' ''words.txt'' = ''config/words.txt''"
  by code_simp+

section \<open>Durations\<close>

text \<open>
  \<open>time.ParseDuration\<close>: an optional sign and then numbers with units, each an integer part with an
  optional fraction. Sums and products are checked against \<open>2 ^ 63\<close>; the fraction is scaled in
  floating point.
\<close>

definition digit_or_dot :: "char \<Rightarrow> bool" where
  "digit_or_dot c \<longleftrightarrow> c = CHR ''.'' \<or> is_digit c"

fun leadingInt :: "int \<Rightarrow> string \<Rightarrow> (int \<times> string) option" where
  "leadingInt x [] = Some (x, [])"
| "leadingInt x (c # s) =
     (if \<not> is_digit c then Some (x, c # s)
      else if x > 2 ^ 63 div 10 then None
      else let x = x * 10 + (of_char c - 0x30) in
           if x > 2 ^ 63 then None else leadingInt x s)"

fun leadingFraction :: "int \<Rightarrow> rat \<Rightarrow> bool \<Rightarrow> string \<Rightarrow> int \<times> rat \<times> string" where
  "leadingFraction x scale overflow [] = (x, scale, [])"
| "leadingFraction x scale overflow (c # s) =
     (if \<not> is_digit c then (x, scale, c # s)
      else if overflow \<or> x > (2 ^ 63 - 1) div 10 then leadingFraction x scale True s
      else let y = x * 10 + (of_char c - 0x30) in
           if y > 2 ^ 63 then leadingFraction x scale True s
           else leadingFraction y (f_mul scale 10) overflow s)"

definition unitMap :: "string \<Rightarrow> int option" where
  "unitMap = map_of [(''ns'', 1), (''us'', 1000), ([CHR 0xC2, CHR 0xB5, CHR ''s''], 1000),
     ([CHR 0xCE, CHR 0xBC, CHR ''s''], 1000), (''ms'', 1000000), (''s'', 1000000000),
     (''m'', 60000000000), (''h'', 3600000000000)]"

text \<open>One number with its unit, in nanoseconds, and the rest of the string.\<close>

definition duration_part :: "string \<Rightarrow> string \<Rightarrow> gerror + int \<times> string" where
  "duration_part orig s =
     (let invalid = Inl (ErrFmt ''time: invalid duration %s'' [orig]) in
      if \<not> digit_or_dot (hd s) then invalid
      else case leadingInt 0 s of None \<Rightarrow> invalid | Some (v, s1) \<Rightarrow>
        let pre = (length s1 \<noteq> length s);
            frac = (s1 \<noteq> [] \<and> hd s1 = CHR ''.'') in
        case (if frac then leadingFraction 0 1 False (tl s1) else (0, 1, s1)) of (f, scale, s2) \<Rightarrow>
          let post = (frac \<and> length s2 \<noteq> length (tl s1));
              u = takeWhile (\<lambda>c. \<not> digit_or_dot c) s2;
              rest = drop (length u) s2 in
          if \<not> pre \<and> \<not> post then invalid
          else if u = [] then Inl (ErrFmt ''time: missing unit in duration %s'' [orig])
          else case unitMap u of
            None \<Rightarrow> Inl (ErrFmt ''time: unknown unit %s in duration %s'' [u, orig])
          | Some unit \<Rightarrow>
              if v > 2 ^ 63 div unit then invalid
              else
                let v = v * unit;
                    v = (if f > 0 then v + f_to_int (f_mul (f_of_int f) (f_div (f_of_int unit) scale)) else v) in
                if v > 2 ^ 63 then invalid else Inr (v, rest))"

lemma leadingInt_length: "leadingInt x s = Some (v, s') \<Longrightarrow> length s' \<le> length s"
  by (induction x s rule: leadingInt.induct) (auto simp: Let_def split: if_splits)

lemma leadingFraction_length: "leadingFraction x scale ovf s = (f, scale', s') \<Longrightarrow> length s' \<le> length s"
  by (induction x scale ovf s rule: leadingFraction.induct) (force simp: Let_def split: if_splits)+

lemma duration_part_length:
  assumes "duration_part orig s = Inr (v, rest)"
  shows "length rest < length s"
proof -
  from assms obtain n s1 where n: "leadingInt 0 s = Some (n, s1)"
    by (auto simp: duration_part_def Let_def split: if_splits option.splits)
  obtain f scale s2 where f: "(if s1 \<noteq> [] \<and> hd s1 = CHR ''.'' then leadingFraction 0 1 False (tl s1) else (0, 1, s1)) =
    (f, scale, s2)" by (metis prod_cases3)
  from f have "length s2 \<le> length s1"
    using leadingFraction_length [of 0 1 False "tl s1" f scale s2]
    by (cases s1) (auto split: if_splits)
  with leadingInt_length [OF n] have s2: "length s2 \<le> length s" by simp
  let ?u = "takeWhile (\<lambda>c. \<not> digit_or_dot c) s2"
  from assms n f have "?u \<noteq> []" "rest = drop (length ?u) s2"
    by (auto simp: duration_part_def Let_def split: if_splits option.splits)
  moreover have "length ?u \<le> length s2" by (rule length_takeWhile_le)
  ultimately show ?thesis using s2 by (cases ?u) auto
qed

function duration_parts :: "string \<Rightarrow> string \<Rightarrow> int \<Rightarrow> gerror + int" where
  "duration_parts orig s d =
     (if s = [] then Inr d
      else case duration_part orig s of
        Inl err \<Rightarrow> Inl err
      | Inr (v, rest) \<Rightarrow>
          if d + v > 2 ^ 63 then Inl (ErrFmt ''time: invalid duration %s'' [orig])
          else duration_parts orig rest (d + v))"
  by pat_completeness auto
termination
  by (relation "measure (\<lambda>(_, s, _). length s)") (auto dest: sym intro: duration_part_length)

declare duration_parts.simps [simp del]

definition ParseDuration :: "string \<Rightarrow> gerror + int" where
  "ParseDuration orig =
     (let sign = (orig \<noteq> [] \<and> (hd orig = CHR ''-'' \<or> hd orig = CHR ''+''));
          neg = (orig \<noteq> [] \<and> hd orig = CHR ''-'');
          s = (if sign then tl orig else orig) in
      if s = ''0'' then Inr 0
      else if s = [] then Inl (ErrFmt ''time: invalid duration %s'' [orig])
      else case duration_parts orig s 0 of
        Inl err \<Rightarrow> Inl err
      | Inr d \<Rightarrow>
          if neg then Inr (- d)
          else if d > 2 ^ 63 - 1 then Inl (ErrFmt ''time: invalid duration %s'' [orig])
          else Inr d)"

declare duration_parts.simps [code]

lemma duration_examples:
  "ParseDuration ''24h'' = Inr 86400000000000" "ParseDuration ''1m30s'' = Inr 90000000000"
  "ParseDuration ''-1.5s'' = Inr (- 1500000000)"
  "ParseDuration ''10'' = Inl (ErrFmt ''time: missing unit in duration %s'' [''10''])"
  by code_simp+

lemma duration_part_returns: "duration_part orig s \<noteq> Inl NoReturn"
  by (auto simp: duration_part_def Let_def split: option.splits prod.splits)

lemma duration_parts_returns: "duration_parts orig s d \<noteq> Inl NoReturn"
proof (induction orig s d rule: duration_parts.induct)
  case (1 orig s d)
  show ?case
    using 1 duration_part_returns [of orig s]
    by (subst duration_parts.simps) (auto split: sum.splits prod.splits)
qed

lemma ParseDuration_returns: "ParseDuration s \<noteq> Inl NoReturn"
  using duration_parts_returns by (auto simp: ParseDuration_def Let_def split: sum.splits)

section \<open>Hexadecimal\<close>

definition hex_digit :: "nat \<Rightarrow> char" where
  "hex_digit n = (if n < 10 then digit n else char_of (0x61 + n - 10))"

definition EncodeToString :: "string \<Rightarrow> string" where
  "EncodeToString bytes = concat (map (\<lambda>c. let n = of_char c :: nat in
     [hex_digit (n div 16), hex_digit (n mod 16)]) bytes)"

end
