(* ===== verification/Loader.thy ===== *)
theory Loader
  imports Keyword_Rule Combiner_Rule CEL_Rule Rate_Limit Rule_Order Go_Path_Time
begin

text \<open>
  \<open>internal/rules/loader.go\<close>: from the bytes of a rule file to the rules of the engine. Reading a
  file, parsing YAML, SHA-256, the CEL library, the Unicode case table, the order of map iteration
  and the fusing of floating-point operations are parameters, collected in one record. An enabled
  rule becomes a value of the engine's interface through the constructor of its type.
\<close>

section \<open>The data\<close>

record defaults =
  df_OnEvalError :: string

record ruleFile =
  rf_Version :: int
  rf_Defaults :: defaults
  rf_Rules :: "rawRule list"

record 'r LoaderOptions =
  lo_BaseDir :: string
  lo_Redis :: "'r Cmdable option"
  lo_Now :: "('r world \<Rightarrow> int \<times> 'r world) option"

record 'r Snapshot =
  sn_Version :: string
  sn_Rules :: "'r rule list"

record ('env, 'ast, 'p) platform =
  pf_ReadFile :: "string \<Rightarrow> string + string"
  pf_Unmarshal :: "string \<Rightarrow> string + ruleFile"
  pf_Sum256 :: "string \<Rightarrow> string"
  pf_ulow :: "nat \<Rightarrow> nat"
  pf_order :: "string \<Rightarrow> map_order"
  pf_cel :: "('env, 'ast, 'p) cel"
  pf_fma :: bool

section \<open>Keywords\<close>

definition readKeywords ::
    "('env, 'ast, 'p) platform \<Rightarrow> string \<Rightarrow> string \<Rightarrow> gerror + string list" where
  "readKeywords pf path baseDir =
     (if TrimSpace path = [] then Inl (Errorf ''keywords_file is required'')
      else
        let path = (if \<not> IsAbs path then Join_path baseDir path else path) in
        case pf_ReadFile pf path of
          Inl err \<Rightarrow> Inl (ExtErr err)
        | Inr data \<Rightarrow> Inr (filter (\<lambda>line. line \<noteq> []) (map TrimSpace (Split data (CHR 0x0A)))))"

section \<open>One rule\<close>

definition knownRuleType :: "string \<Rightarrow> bool" where
  "knownRuleType ruleType \<longleftrightarrow>
     ruleType = ''rate_limit'' \<or> ruleType = ''keyword_match'' \<or> ruleType = ''cel'' \<or> ruleType = ''combiner''"

definition ruleEnabled :: "bool option \<Rightarrow> bool" where
  "ruleEnabled enabled \<longleftrightarrow> (case enabled of None \<Rightarrow> True | Some b \<Rightarrow> b)"

definition as_rule :: "('m \<Rightarrow> 'r rule) \<Rightarrow> gerror + 'm \<Rightarrow> gerror + 'r rule" where
  "as_rule iface built = (case built of Inl err \<Rightarrow> Inl err | Inr m \<Rightarrow> Inr (iface m))"

definition buildRule ::
    "('env, 'ast, 'p) platform \<Rightarrow> 'r LoaderOptions \<Rightarrow> rawRule \<Rightarrow> gerror + 'r rule" where
  "buildRule pf opts raw =
     (if rw_Type raw = ''keyword_match'' then
        (case readKeywords pf (rw_KeywordsFile raw) (lo_BaseDir opts) of
           Inl err \<Rightarrow> Inl (ErrWrap ''keyword rule %s: %w'' [rw_ID raw] err)
         | Inr ks \<Rightarrow>
             as_rule (keyword_rule (pf_ulow pf)) (NewKeywordRule (pf_ulow pf) (pf_order pf (rw_ID raw))
               \<lparr>kc_ID = rw_ID raw, kc_Field = rw_Field raw, kc_Keywords = ks, kc_OnMatch = rw_OnMatch raw\<rparr>))
      else if rw_Type raw = ''rate_limit'' then
        (case ParseDuration (rw_Window raw) of
           Inl err \<Rightarrow> Inl (ErrWrap ''rate limit rule %s window: %w'' [rw_ID raw] err)
         | Inr window \<Rightarrow>
             as_rule (rate_limit_rule (pf_fma pf)) (NewRateLimitRule
               \<lparr>lc_ID = rw_ID raw, lc_Scope = rw_Scope raw, lc_Action = rw_Action raw, lc_Window = window,
                lc_Limit = rw_Limit raw, lc_OnExceed = rw_OnExceed raw, lc_Now = lo_Now opts\<rparr>
               (lo_Redis opts)))
      else if rw_Type raw = ''cel'' then
        as_rule (cel_rule (pf_cel pf)) (NewCELRule (pf_cel pf)
          \<lparr>cc_ID = rw_ID raw, cc_Expr = rw_Expr raw, cc_OnMatch = rw_OnMatch raw\<rparr>)
      else if rw_Type raw = ''combiner'' then
        as_rule combiner_rule (NewCombinerRule
          \<lparr>bc_ID = rw_ID raw, bc_Op = rw_Op raw, bc_Of = rw_Of raw, bc_OnMatch = rw_OnMatch raw\<rparr>)
      else Inl (ErrFmt ''unknown rule type %q for %s'' [rw_Type raw, rw_ID raw]))"

section \<open>The file\<close>

text \<open>The first loop collects the ids, the second checks the references of the combiners.\<close>

definition declare_rule :: "rawRule \<Rightarrow> string set \<Rightarrow> gerror + string set" where
  "declare_rule raw ids =
     (if TrimSpace (rw_ID raw) = [] then Inl (Errorf ''rule id is required'')
      else if rw_ID raw \<in> ids then Inl (ErrFmt ''duplicate rule id %q'' [rw_ID raw])
      else if \<not> knownRuleType (rw_Type raw)
      then Inl (ErrFmt ''unknown rule type %q for %s'' [rw_Type raw, rw_ID raw])
      else Inr (insert (rw_ID raw) ids))"

definition check_ref :: "string set \<Rightarrow> string \<Rightarrow> string \<Rightarrow> unit \<Rightarrow> gerror + unit" where
  "check_ref ids i ref u =
     (if ref \<notin> ids then Inl (ErrFmt ''combiner %s references unknown referenced rule %q'' [i, ref])
      else Inr u)"

definition check_refs :: "string set \<Rightarrow> rawRule \<Rightarrow> unit \<Rightarrow> gerror + unit" where
  "check_refs ids raw u =
     (if rw_Type raw \<noteq> ''combiner'' then Inr u
      else foldE (check_ref ids (rw_ID raw)) (rw_Of raw) u)"

definition build_step ::
    "('env, 'ast, 'p) platform \<Rightarrow> 'r LoaderOptions \<Rightarrow> rawRule \<Rightarrow> 'r rule list \<Rightarrow> gerror + 'r rule list" where
  "build_step pf opts raw built =
     (if \<not> ruleEnabled (rw_Enabled raw) then Inr built
      else case buildRule pf opts raw of Inl err \<Rightarrow> Inl err | Inr rule \<Rightarrow> Inr (built @ [rule]))"

definition LoadBytes ::
    "('env, 'ast, 'p) platform \<Rightarrow> string \<Rightarrow> 'r LoaderOptions \<Rightarrow> gerror + 'r Snapshot" where
  "LoadBytes pf data opts =
     (case pf_Unmarshal pf data of Inl err \<Rightarrow> Inl (ExtErr err) | Inr parsed \<Rightarrow>
      if rf_Version parsed \<noteq> 1
      then Inl (ErrFmt ''unsupported rules version %d'' [format_int (rf_Version parsed)])
      else if df_OnEvalError (rf_Defaults parsed) \<noteq> [] \<and> df_OnEvalError (rf_Defaults parsed) \<noteq> ''allow''
      then Inl (Errorf ''defaults.on_eval_error must be allow'')
      else
        case foldE declare_rule (rf_Rules parsed) {} of Inl err \<Rightarrow> Inl err | Inr ids \<Rightarrow>
        case foldE (check_refs ids) (rf_Rules parsed) () of Inl err \<Rightarrow> Inl err | Inr _ \<Rightarrow>
        case orderRules (rf_Rules parsed) of Inl err \<Rightarrow> Inl err | Inr ordered \<Rightarrow>
        case foldE (build_step pf opts) ordered [] of Inl err \<Rightarrow> Inl err | Inr built \<Rightarrow>
          Inr \<lparr>sn_Version = ''sha256:'' @ EncodeToString (pf_Sum256 pf data), sn_Rules = built\<rparr>)"

definition LoadFile ::
    "('env, 'ast, 'p) platform \<Rightarrow> string \<Rightarrow> 'r LoaderOptions \<Rightarrow> gerror + 'r Snapshot" where
  "LoadFile pf path opts =
     (case pf_ReadFile pf path of
        Inl err \<Rightarrow> Inl (ExtErr err)
      | Inr data \<Rightarrow>
          LoadBytes pf data (if lo_BaseDir opts = [] then opts\<lparr>lo_BaseDir := Dir path\<rparr> else opts))"

section \<open>What the checks accept\<close>

definition well_declared :: "rawRule list \<Rightarrow> bool" where
  "well_declared raws \<longleftrightarrow> distinct (map rw_ID raws) \<and>
     (\<forall>raw \<in> set raws. TrimSpace (rw_ID raw) \<noteq> [] \<and> knownRuleType (rw_Type raw))"

lemma declare_rules:
  "foldE declare_rule raws ids = Inr ids' \<longleftrightarrow>
     well_declared raws \<and> rw_ID ` set raws \<inter> ids = {} \<and> ids' = rw_ID ` set raws \<union> ids"
proof (induction raws arbitrary: ids)
  case Nil
  then show ?case by (auto simp: well_declared_def)
next
  case (Cons raw raws)
  show ?case
  proof (cases "declare_rule raw ids")
    case (Inl err)
    then show ?thesis by (auto simp: declare_rule_def well_declared_def split: if_splits)
  next
    case (Inr ids1)
    then have raw: "TrimSpace (rw_ID raw) \<noteq> []" "rw_ID raw \<notin> ids" "knownRuleType (rw_Type raw)"
      and ids1: "ids1 = insert (rw_ID raw) ids"
      by (auto simp: declare_rule_def split: if_splits)
    have eq: "foldE declare_rule (raw # raws) ids = foldE declare_rule raws ids1" by (simp add: Inr)
    show ?thesis unfolding eq Cons.IH using raw by (auto simp: ids1 well_declared_def)
  qed
qed

lemma check_refs_iff:
  "foldE (check_refs ids) raws () = Inr () \<longleftrightarrow> (\<forall>raw \<in> set raws. set (deps raw) \<subseteq> ids)"
proof -
  have refs: "foldE (check_ref ids i) refs () = Inr () \<longleftrightarrow> set refs \<subseteq> ids" for i refs
    by (induction refs) (auto simp: check_ref_def)
  have one: "check_refs ids raw () = Inr () \<longleftrightarrow> set (deps raw) \<subseteq> ids" for raw
    by (simp add: check_refs_def deps_def refs)
  show ?thesis
  proof (induction raws)
    case Nil
    then show ?case by simp
  next
    case (Cons raw raws)
    then show ?case using one [of raw] by (auto split: sum.splits)
  qed
qed

definition enabled_rules :: "rawRule list \<Rightarrow> rawRule list" where
  "enabled_rules raws = filter (\<lambda>raw. ruleEnabled (rw_Enabled raw)) raws"

lemma build_rules:
  "foldE (build_step pf opts) raws built = Inr built' \<longleftrightarrow>
     (\<exists>rules. built' = built @ rules \<and> list_all2 (\<lambda>raw rule. buildRule pf opts raw = Inr rule) (enabled_rules raws) rules)"
proof (induction raws arbitrary: built)
  case Nil
  then show ?case by (auto simp: enabled_rules_def)
next
  case (Cons raw raws)
  show ?case
  proof (cases "ruleEnabled (rw_Enabled raw)")
    case False
    with Cons show ?thesis by (simp add: build_step_def enabled_rules_def)
  next
    case True
    with Cons show ?thesis
      by (cases "buildRule pf opts raw") (auto simp: build_step_def enabled_rules_def list_all2_Cons1)
  qed
qed

definition lawful_options :: "'r LoaderOptions \<Rightarrow> bool" where
  "lawful_options opts \<longleftrightarrow>
     (\<forall>client. lo_Redis opts = Some client \<longrightarrow> redis_runs_script client) \<and>
     (\<forall>now. lo_Now opts = Some now \<longrightarrow> clock_lawful now)"

lemma as_rule_Inr: "as_rule iface built = Inr rule \<longleftrightarrow> (\<exists>m. built = Inr m \<and> rule = iface m)"
  by (cases built) (auto simp: as_rule_def)

lemma buildRule_cases:
  assumes "buildRule pf opts raw = Inr rule"
  obtains (keyword) cfg m where "NewKeywordRule (pf_ulow pf) (pf_order pf (rw_ID raw)) cfg = Inr m"
      "rule = keyword_rule (pf_ulow pf) m" "kc_ID cfg = rw_ID raw"
  | (limit) cfg m where "NewRateLimitRule cfg (lo_Redis opts) = Inr m"
      "rule = rate_limit_rule (pf_fma pf) m" "lc_ID cfg = rw_ID raw" "lc_Now cfg = lo_Now opts"
  | (cel) cfg m where "NewCELRule (pf_cel pf) cfg = Inr m" "rule = cel_rule (pf_cel pf) m" "cc_ID cfg = rw_ID raw"
  | (combiner) cfg m where "NewCombinerRule cfg = Inr m" "rule = combiner_rule m" "bc_ID cfg = rw_ID raw"
proof -
  consider "rw_Type raw = ''keyword_match''" | "rw_Type raw = ''rate_limit''" | "rw_Type raw = ''cel''"
    | "rw_Type raw = ''combiner''"
    using assms by (auto simp: buildRule_def split: if_splits)
  then show thesis
  proof cases
    case 1
    with assms keyword show ?thesis
      by (auto simp: buildRule_def as_rule_Inr split: sum.splits)
  next
    case 2
    with assms limit show ?thesis
      by (auto simp: buildRule_def as_rule_Inr split: sum.splits)
  next
    case 3
    with assms cel show ?thesis by (auto simp: buildRule_def as_rule_Inr)
  next
    case 4
    with assms combiner show ?thesis by (auto simp: buildRule_def as_rule_Inr)
  qed
qed

lemma buildRule_ID:
  assumes "buildRule pf opts raw = Inr rule"
  shows "rule_ID rule = rw_ID raw"
  using assms
proof (cases rule: buildRule_cases)
  case (keyword cfg m)
  with keyword.construct_id [OF keyword(1)] show ?thesis by simp
next
  case (limit cfg m)
  with rate_limit.construct_id [OF limit(1)] show ?thesis by simp
next
  case (cel cfg m)
  with cel.construct_id [OF cel(1)] show ?thesis by simp
next
  case (combiner cfg m)
  with combiner.construct_id [OF combiner(1)] show ?thesis by simp
qed

lemma buildRule_contract:
  assumes "buildRule pf opts raw = Inr rule" and "lawful_options opts"
  shows "rule_contract rule"
  using assms(1)
proof (cases rule: buildRule_cases)
  case (keyword cfg m)
  with keyword.construct_contract [OF keyword(1)] show ?thesis by simp
next
  case (limit cfg m)
  have "lawful_limit_config (lo_Redis opts) cfg"
    using assms(2) limit(4) by (simp add: lawful_options_def lawful_limit_config_def)
  with limit rate_limit.construct_contract [OF limit(1)] show ?thesis by simp
next
  case (cel cfg m)
  with cel.construct_contract [OF cel(1)] show ?thesis by simp
next
  case (combiner cfg m)
  with combiner.construct_contract [OF combiner(1)] show ?thesis by simp
qed

lemma buildRule_combiner:
  assumes "buildRule pf opts raw = Inr rule" and "rw_Type raw = ''combiner''"
  shows "rule = combiner_rule \<lparr>cr_id = rw_ID raw, cr_op = rw_Op raw, cr_of = rw_Of raw, cr_onMatch = rw_OnMatch raw\<rparr>"
  using assms by (auto simp: buildRule_def as_rule_Inr NewCombinerRule_Inr)

text \<open>A file that every check before the construction of the rules accepts.\<close>

definition valid_file :: "ruleFile \<Rightarrow> bool" where
  "valid_file f \<longleftrightarrow> rf_Version f = 1 \<and> df_OnEvalError (rf_Defaults f) \<in> {[], ''allow''} \<and>
     well_declared (rf_Rules f) \<and>
     (\<forall>raw \<in> set (rf_Rules f). set (deps raw) \<subseteq> rw_ID ` set (rf_Rules f)) \<and>
     acyclic (dep_edges (rf_Rules f))"

lemma orderRules_valid:
  assumes "well_declared raws" and "\<forall>raw \<in> set raws. set (deps raw) \<subseteq> rw_ID ` set raws"
  shows "(\<exists>sorted. orderRules raws = Inr sorted) \<longleftrightarrow> acyclic (dep_edges raws)"
proof -
  have d: "distinct (map rw_ID raws)" using assms(1) by (simp add: well_declared_def)
  have edges: "edge (index_rules raws) = dep_edges raws" by (rule edge_index_rules [OF d])
  have closed: "x \<in> rw_ID ` set raws" if "(i, x) \<in> (dep_edges raws)\<^sup>*" "i \<in> rw_ID ` set raws" for i x
    using that(1,2) assms(2) by (induction rule: rtrancl_induct) (auto simp: dep_edges_def)
  consider (sorted) sorted where "orderRules raws = Inr sorted" "mset sorted = mset raws" "deps_before sorted"
    | (error) err raw where "orderRules raws = Inl err" "raw \<in> set raws" "blame (index_rules raws) (rw_ID raw) err"
    using orderRules_cases [OF d] by blast
  then show ?thesis
  proof cases
    case sorted
    from sorted(2) have same: "set sorted = set raws" by (rule mset_eq_setD)
    have "mset (map rw_ID sorted) = mset (map rw_ID raws)" using sorted(2) by simp
    with d have "distinct (map rw_ID sorted)" using mset_eq_imp_distinct_iff by blast
    from deps_before_acyclic [OF sorted(3) this] have "acyclic (dep_edges raws)"
      by (simp add: dep_edges_def same)
    with sorted(1) show ?thesis by simp
  next
    case error
    from error(2) have start: "rw_ID raw \<in> rw_ID ` set raws" by simp
    have "\<exists>x. (x, x) \<in> (dep_edges raws)\<^sup>+"
      using error(3) closed [OF _ start] by (auto simp: blame_def edges dom_index_rules)
    with error(1) show ?thesis by (auto simp: acyclic_def)
  qed
qed

lemma orderRules_sorted:
  assumes "well_declared raws" and "orderRules raws = Inr ordered"
  shows "mset ordered = mset raws" and "deps_before ordered"
  using orderRules_cases [of raws] assms by (auto simp: well_declared_def)

text \<open>What a successful load went through, and what it gives.\<close>

definition loads ::
    "('env, 'ast, 'p) platform \<Rightarrow> string \<Rightarrow> 'r LoaderOptions \<Rightarrow> ruleFile \<Rightarrow> rawRule list \<Rightarrow> 'r Snapshot \<Rightarrow> bool" where
  "loads pf data opts f ordered snap \<longleftrightarrow> pf_Unmarshal pf data = Inr f \<and> valid_file f \<and>
     orderRules (rf_Rules f) = Inr ordered \<and>
     sn_Version snap = ''sha256:'' @ EncodeToString (pf_Sum256 pf data) \<and>
     list_all2 (\<lambda>raw rule. buildRule pf opts raw = Inr rule) (enabled_rules ordered) (sn_Rules snap)"

lemma LoadBytes_checks:
  assumes "pf_Unmarshal pf data = Inr f"
  shows "LoadBytes pf data opts = Inr snap \<longleftrightarrow> (\<exists>ordered. loads pf data opts f ordered snap)"
proof -
  let ?raws = "rf_Rules f" and ?ids = "rw_ID ` set (rf_Rules f)"
  have ids: "foldE declare_rule ?raws {} = Inr ids \<longleftrightarrow> well_declared ?raws \<and> ids = ?ids" for ids
    by (simp add: declare_rules)
  have snap: "Inr \<lparr>sn_Version = v, sn_Rules = built\<rparr> = Inr snap \<longleftrightarrow> sn_Version snap = v \<and> built = sn_Rules snap"
    for v built by (cases snap) auto
  let ?head = "rf_Version f = 1 \<and> df_OnEvalError (rf_Defaults f) \<in> {[], ''allow''}"
  have "LoadBytes pf data opts = Inr snap \<longleftrightarrow> ?head \<and> well_declared ?raws \<and>
      foldE (check_refs ?ids) ?raws () = Inr () \<and>
      (\<exists>ordered. orderRules ?raws = Inr ordered \<and> foldE (build_step pf opts) ordered [] = Inr (sn_Rules snap)) \<and>
      sn_Version snap = ''sha256:'' @ EncodeToString (pf_Sum256 pf data)"
  proof (cases "well_declared ?raws")
    case True
    with ids have "foldE declare_rule ?raws {} = Inr ?ids" by simp
    with True show ?thesis by (auto simp: LoadBytes_def assms snap split: sum.splits)
  next
    case False
    with ids obtain err where "foldE declare_rule ?raws {} = Inl err"
      by (cases "foldE declare_rule ?raws {}") auto
    with False show ?thesis by (auto simp: LoadBytes_def assms)
  qed
  then show ?thesis
    using orderRules_valid [of ?raws]
    by (auto simp: loads_def assms valid_file_def check_refs_iff build_rules)
qed

lemma LoadBytes_Inr:
  "LoadBytes pf data opts = Inr snap \<longleftrightarrow> (\<exists>f ordered. loads pf data opts f ordered snap)"
proof (cases "pf_Unmarshal pf data")
  case (Inl err)
  then show ?thesis by (simp add: LoadBytes_def loads_def)
next
  case (Inr f)
  from LoadBytes_checks [OF this, of opts snap] Inr show ?thesis by (auto simp: loads_def)
qed

section \<open>What a load gives\<close>

lemma enabled_rules_append [simp]: "enabled_rules (xs @ ys) = enabled_rules xs @ enabled_rules ys"
  by (simp add: enabled_rules_def)

lemma enabled_rules_Cons:
  "enabled_rules (raw # raws) = (if ruleEnabled (rw_Enabled raw) then raw # enabled_rules raws else enabled_rules raws)"
  by (simp add: enabled_rules_def)

lemma set_enabled_rules [simp]: "raw \<in> set (enabled_rules raws) \<longleftrightarrow> raw \<in> set raws \<and> ruleEnabled (rw_Enabled raw)"
  by (simp add: enabled_rules_def)

lemma list_all2_ids:
  "list_all2 (\<lambda>raw rule. buildRule pf opts raw = Inr rule) raws rules \<Longrightarrow>
     map rule_ID rules = map rw_ID raws"
  by (induction rule: list_all2_induct) (simp_all add: buildRule_ID)

lemma loads_ids: "loads pf data opts f ordered snap \<Longrightarrow> map rule_ID (sn_Rules snap) = map rw_ID (enabled_rules ordered)"
  unfolding loads_def using list_all2_ids by blast

lemma loads_order:
  assumes "loads pf data opts f ordered snap"
  shows "mset ordered = mset (rf_Rules f)" and "deps_before ordered" and "distinct (map rw_ID ordered)"
proof -
  have f: "well_declared (rf_Rules f)" "orderRules (rf_Rules f) = Inr ordered"
    using assms by (simp_all add: loads_def valid_file_def)
  from orderRules_sorted [OF f] show m: "mset ordered = mset (rf_Rules f)" and "deps_before ordered" .
  have "mset (map rw_ID ordered) = mset (map rw_ID (rf_Rules f))" using m by simp
  with f(1) show "distinct (map rw_ID ordered)"
    unfolding well_declared_def using mset_eq_imp_distinct_iff by blast
qed

lemma loads_contracts:
  assumes "loads pf data opts f ordered snap" and "lawful_options opts" and "rule \<in> set (sn_Rules snap)"
  shows "rule_contract rule"
proof -
  have l: "list_all2 (\<lambda>raw rule. buildRule pf opts raw = Inr rule) (enabled_rules ordered) (sn_Rules snap)"
    using assms(1) by (simp add: loads_def)
  from assms(3) obtain k where k: "k < length (sn_Rules snap)" "rule = sn_Rules snap ! k" by (auto simp: in_set_conv_nth)
  with l have "buildRule pf opts (enabled_rules ordered ! k) = Inr rule" by (simp add: list_all2_conv_all_nth)
  with assms(2) show ?thesis by (rule buildRule_contract [rotated])
qed

text \<open>The rules of a load, none when it fails or when a collaborator is not lawful.\<close>

definition loaded_rules :: "('env, 'ast, 'p) platform \<Rightarrow> string \<Rightarrow> 'r LoaderOptions \<Rightarrow> 'r rule list" where
  "loaded_rules pf data opts =
     (if lawful_options opts then (case LoadBytes pf data opts of Inl _ \<Rightarrow> [] | Inr snap \<Rightarrow> sn_Rules snap) else [])"

lemma loaded_rules_contract:
  assumes "rule \<in> set (loaded_rules pf data opts)"
  shows "rule_contract rule"
proof (cases "LoadBytes pf data opts")
  case (Inl err)
  with assms show ?thesis by (cases "lawful_options opts") (simp_all add: loaded_rules_def)
next
  case (Inr snap)
  then obtain f ordered where l: "loads pf data opts f ordered snap" unfolding LoadBytes_Inr by blast
  from assms Inr have "lawful_options opts" "rule \<in> set (sn_Rules snap)"
    by (cases "lawful_options opts"; simp add: loaded_rules_def)+
  with l show ?thesis by (rule loads_contracts)
qed

interpretation loaded: rule_set "loaded_rules pf data opts" for pf data opts
  by unfold_locales (rule loaded_rules_contract)

lemma as_rule_Inl: "as_rule iface built = Inl err \<longleftrightarrow> built = Inl err"
  by (cases built) (auto simp: as_rule_def)

lemma buildRule_returns: "buildRule pf opts raw \<noteq> Inl NoReturn"
proof -
  have limit: "NewRateLimitRule cfg client \<noteq> Inl NoReturn" for cfg and client :: "'a Cmdable option"
    by (rule rate_limit.construct_returns)
  show ?thesis
    by (simp add: buildRule_def as_rule_Inl keyword.construct_returns limit cel.construct_returns
        combiner.construct_returns split: sum.split)
qed

lemma build_rules_returns: "foldE (build_step pf opts) raws built \<noteq> Inl NoReturn"
proof (induction raws arbitrary: built)
  case Nil
  then show ?case by simp
next
  case (Cons raw raws)
  have "build_step pf opts raw built \<noteq> Inl NoReturn"
    using buildRule_returns [of pf opts raw] by (auto simp: build_step_def split: sum.splits)
  with Cons show ?case by (auto split: sum.splits)
qed

lemma LoadBytes_returns: "LoadBytes pf data opts \<noteq> Inl NoReturn"
proof
  assume l: "LoadBytes pf data opts = Inl NoReturn"
  have decl: "foldE declare_rule raws ids \<noteq> Inl NoReturn" for raws ids
    by (induction raws arbitrary: ids) (auto simp: declare_rule_def split: if_splits)
  have "foldE (check_ref ids i) refs () \<noteq> Inl NoReturn" for ids i refs
    by (induction refs) (auto simp: check_ref_def split: if_splits)
  then have one: "check_refs ids raw () \<noteq> Inl NoReturn" for ids raw
    by (auto simp: check_refs_def split: if_splits)
  have refs: "foldE (check_refs ids) raws () \<noteq> Inl NoReturn" for ids raws
    using one by (induction raws) (auto split: sum.splits)
  have order: "orderRules raws \<noteq> Inl NoReturn" if "well_declared raws" for raws
    using orderRules_cases [of raws] that by (auto simp: blame_def cycle_error_def well_declared_def)
  obtain f where f: "pf_Unmarshal pf data = Inr f" using l by (auto simp: LoadBytes_def split: sum.splits)
  obtain ids where ids: "foldE declare_rule (rf_Rules f) {} = Inr ids"
    using l f decl [of "rf_Rules f" "{}"] by (auto simp: LoadBytes_def split: sum.splits if_splits)
  then have "well_declared (rf_Rules f)" by (simp add: declare_rules)
  from order [OF this] l f ids refs [of ids "rf_Rules f"] build_rules_returns [of pf opts]
  show False by (auto simp: LoadBytes_def split: sum.splits if_splits)
qed

section \<open>Properties\<close>

lemma builds_all:
  assumes "\<forall>raw \<in> set raws. \<exists>rule. buildRule pf opts raw = Inr rule"
  shows "list_all2 (\<lambda>raw rule. buildRule pf opts raw = Inr rule) raws (map (\<lambda>raw. projr (buildRule pf opts raw)) raws)"
  using assms by (induction raws) auto

lemma list_all2_builds:
  "list_all2 (\<lambda>raw rule. buildRule pf opts raw = Inr rule) raws rules \<Longrightarrow>
     \<forall>raw \<in> set raws. \<exists>rule. buildRule pf opts raw = Inr rule"
  by (induction rule: list_all2_induct) auto

lemma valid_file_loads:
  assumes "pf_Unmarshal pf data = Inr f" and "valid_file f"
    and "\<forall>raw \<in> set (enabled_rules (rf_Rules f)). \<exists>rule. buildRule pf opts raw = Inr rule"
  shows "\<exists>ordered snap. loads pf data opts f ordered snap"
proof -
  from assms(2) orderRules_valid [of "rf_Rules f"] obtain ordered where o: "orderRules (rf_Rules f) = Inr ordered"
    by (auto simp: valid_file_def)
  with assms(2) have "mset ordered = mset (rf_Rules f)" by (simp add: orderRules_sorted(1) valid_file_def)
  then have "set ordered = set (rf_Rules f)" by (rule mset_eq_setD)
  with assms(3) have "\<forall>raw \<in> set (enabled_rules ordered). \<exists>rule. buildRule pf opts raw = Inr rule" by simp
  from builds_all [OF this] assms(1,2) o
  have "loads pf data opts f ordered \<lparr>sn_Version = ''sha256:'' @ EncodeToString (pf_Sum256 pf data),
      sn_Rules = map (\<lambda>raw. projr (buildRule pf opts raw)) (enabled_rules ordered)\<rparr>"
    by (simp add: loads_def)
  then show ?thesis by blast
qed

text \<open>
  C9. Exactly the well-formed rule files load. \<open>LoadBytes\<close> always returns, and it succeeds precisely
  when the YAML parses, the version is 1, \<open>on_eval_error\<close> is absent or \<open>allow\<close>, the ids are distinct and
  not blank, the types are known, combiners refer to declared rules without a cycle, and each
  enabled rule can be built from its configuration; a disabled rule need not be buildable.
\<close>

theorem loader_accepts:
  "LoadBytes pf data opts \<noteq> Inl NoReturn \<and>
   ((\<exists>snap. LoadBytes pf data opts = Inr snap) \<longleftrightarrow>
    (\<exists>f. pf_Unmarshal pf data = Inr f \<and> valid_file f \<and>
       (\<forall>raw \<in> set (enabled_rules (rf_Rules f)). \<exists>rule. buildRule pf opts raw = Inr rule)))"
proof (intro conjI iffI LoadBytes_returns)
  assume "\<exists>snap. LoadBytes pf data opts = Inr snap"
  then obtain snap f ordered where l: "loads pf data opts f ordered snap" unfolding LoadBytes_Inr by blast
  have "set ordered = set (rf_Rules f)" using loads_order(1) [OF l] by (rule mset_eq_setD)
  moreover have "\<forall>raw \<in> set (enabled_rules ordered). \<exists>rule. buildRule pf opts raw = Inr rule"
    using l list_all2_builds unfolding loads_def by blast
  ultimately show "\<exists>f. pf_Unmarshal pf data = Inr f \<and> valid_file f \<and>
      (\<forall>raw \<in> set (enabled_rules (rf_Rules f)). \<exists>rule. buildRule pf opts raw = Inr rule)"
    using l by (intro exI [of _ f]) (simp add: loads_def)
next
  assume "\<exists>f. pf_Unmarshal pf data = Inr f \<and> valid_file f \<and>
      (\<forall>raw \<in> set (enabled_rules (rf_Rules f)). \<exists>rule. buildRule pf opts raw = Inr rule)"
  then show "\<exists>snap. LoadBytes pf data opts = Inr snap"
    unfolding LoadBytes_Inr using valid_file_loads [of pf data] by blast
qed

text \<open>
  A rule file for the witnesses: a combiner before the CEL rule it refers to, a disabled rule that
  has no expression, and a combiner that refers to both.
\<close>

definition flag_action :: RuleAction where
  "flag_action = \<lparr>ra_Verdict = ''flag'', ra_Code = ''blind''\<rparr>"

definition sample_file :: ruleFile where
  "sample_file = \<lparr>rf_Version = 1, rf_Defaults = \<lparr>df_OnEvalError = ''allow''\<rparr>,
     rf_Rules = [(order_sample ''c'' [''a''])\<lparr>rw_Op := ''any'', rw_OnMatch := flag_action\<rparr>,
                 (order_sample ''a'' [])\<lparr>rw_Expr := ''feature_provider'', rw_OnMatch := flag_action\<rparr>,
                 (order_sample ''b'' [])\<lparr>rw_Enabled := Some False\<rparr>,
                 (order_sample ''d'' [''a'', ''b''])\<lparr>rw_Op := ''any'', rw_OnMatch := flag_action\<rparr>]\<rparr>"

text \<open>A CEL library whose programs are names of booleans under \<open>degraded\<close>.\<close>

definition field_cel :: "(unit, string, string) cel" where
  "field_cel = \<lparr>cel_NewEnv = (\<lambda>_. Inr ()), cel_Compile = (\<lambda>_ s. Inr s), cel_Program = (\<lambda>_ s. Inr s),
     cel_Eval = (\<lambda>p act. case select act ''degraded'' p of Some v \<Rightarrow> Inr v | None \<Rightarrow> Inl ''no such key'')\<rparr>"

definition sample_platform :: "ruleFile \<Rightarrow> (unit, string, string) platform" where
  "sample_platform f = \<lparr>pf_ReadFile = (\<lambda>_. Inr []), pf_Unmarshal = (\<lambda>_. Inr f),
     pf_Sum256 = (\<lambda>_. [CHR 0xAB]), pf_ulow = id, pf_order = (\<lambda>_ _. []), pf_cel = field_cel, pf_fma = False\<rparr>"

definition no_options :: "'r LoaderOptions" where
  "no_options = \<lparr>lo_BaseDir = [], lo_Redis = None, lo_Now = None\<rparr>"

lemma sample_file_valid: "valid_file sample_file"
proof -
  have "orderRules (rf_Rules sample_file) \<noteq> Inl e" for e by code_simp
  moreover have "well_declared (rf_Rules sample_file)" by code_simp
  moreover have "\<forall>raw \<in> set (rf_Rules sample_file). set (deps raw) \<subseteq> rw_ID ` set (rf_Rules sample_file)"
    by code_simp
  ultimately have "acyclic (dep_edges (rf_Rules sample_file))"
    using orderRules_valid by (metis sum.exhaust)
  then show ?thesis
    using \<open>well_declared (rf_Rules sample_file)\<close>
      \<open>\<forall>raw \<in> set (rf_Rules sample_file). set (deps raw) \<subseteq> rw_ID ` set (rf_Rules sample_file)\<close>
    by (simp add: valid_file_def sample_file_def)
qed

lemma sample_rules_build:
  "\<forall>raw \<in> set (enabled_rules (rf_Rules sample_file)).
     \<exists>rule. buildRule (sample_platform f) opts raw = Inr rule"
proof -
  have trim: "TrimSpace ''a'' \<noteq> []" "TrimSpace ''c'' \<noteq> []" "TrimSpace ''d'' \<noteq> []" "TrimSpace ''feature_provider'' \<noteq> []" by code_simp+
  show ?thesis
    using trim
    by (simp add: sample_file_def enabled_rules_def ruleEnabled_def order_sample_def buildRule_def
        as_rule_Inr NewCombinerRule_def NewCELRule_def sample_platform_def field_cel_def flag_action_def
        validate_def VerdictAllow_def VerdictFlag_def VerdictBlock_def)
qed

lemma sample_parsed: "pf_Unmarshal (sample_platform f) [] = Inr f"
  by (simp add: sample_platform_def)

lemma sample_loads:
  "\<exists>ordered snap. loads (sample_platform sample_file) [] no_options sample_file ordered snap"
  using sample_parsed sample_file_valid sample_rules_build by (rule valid_file_loads)

theorem loader_accepts_witness:
  "\<exists>snap. LoadBytes (sample_platform sample_file) [] no_options = Inr snap"
proof -
  from sample_parsed [of sample_file] sample_file_valid sample_rules_build [of sample_file no_options]
    loader_accepts [of "sample_platform sample_file" "[]" no_options]
  show ?thesis by blast
qed

text \<open>
  C30. A loaded snapshot holds the enabled rules of the file, each once, every combiner after the enabled
  rules it refers to; its version is the hash of the bytes.
\<close>

theorem loader_order:
  assumes "LoadBytes pf data opts = Inr snap"
  shows "\<exists>f ordered. pf_Unmarshal pf data = Inr f \<and> mset ordered = mset (rf_Rules f) \<and> deps_before ordered \<and>
    map rule_ID (sn_Rules snap) = map rw_ID (enabled_rules ordered) \<and> distinct (map rule_ID (sn_Rules snap)) \<and>
    sn_Version snap = ''sha256:'' @ EncodeToString (pf_Sum256 pf data)"
proof -
  from assms obtain f ordered where l: "loads pf data opts f ordered snap" unfolding LoadBytes_Inr by blast
  have "distinct (map rule_ID (sn_Rules snap))"
    using loads_ids [OF l] loads_order(3) [OF l] by (simp add: enabled_rules_def distinct_map_filter)
  then show ?thesis
    using l loads_ids [OF l] loads_order [OF l] unfolding loads_def by blast
qed

theorem loader_order_witness:
  "\<exists>snap :: unit Snapshot. LoadBytes (sample_platform sample_file) [] no_options = Inr snap \<and>
     mset (map rule_ID (sn_Rules snap)) = {#''a'', ''c'', ''d''#}"
proof -
  from sample_loads obtain ordered0 and snap :: "unit Snapshot"
    where "loads (sample_platform sample_file) [] no_options sample_file ordered0 snap" by blast
  then have s: "LoadBytes (sample_platform sample_file) [] no_options = Inr snap" unfolding LoadBytes_Inr by blast
  from loader_order [OF s] sample_parsed [of sample_file] obtain f ordered where "f = sample_file"
    "mset ordered = mset (rf_Rules f)" "map rule_ID (sn_Rules snap) = map rw_ID (enabled_rules ordered)" by auto
  then have "mset (map rule_ID (sn_Rules snap)) = image_mset rw_ID (filter_mset (\<lambda>raw. ruleEnabled (rw_Enabled raw))
      (mset (rf_Rules sample_file)))"
    by (simp add: enabled_rules_def)
  also have "\<dots> = {#''a'', ''c'', ''d''#}"
    by (simp add: sample_file_def ruleEnabled_def order_sample_def)
  finally show ?thesis using s by blast
qed

end
