(* ===== verification/API.thy ===== *)
theory API
  imports Loader
begin

text \<open>
  \<open>internal/api\<close>: the HTTP handlers and their routes (\<open>http.go\<close>), the gRPC service (\<open>grpc.go\<close>) and the
  middleware (\<open>middleware.go\<close>). The handlers run on the state of the process, a pair of what the
  process itself holds (of type \<open>'h\<close>: the current engine, in the server) and the world. The JSON
  decoder, the matching of routes by \<open>chi\<close>, the metrics page and the \<open>Struct\<close> type of protobuf are
  parameters.
\<close>

section \<open>HTTP\<close>

type_synonym ('h, 'r) app = "'h \<times> 'r world"

type_synonym ('h, 'r) app_engine =
  "ctx \<Rightarrow> DecideRequest \<Rightarrow> ('h, 'r) app \<Rightarrow> (gerror + DecideResponse) \<times> ('h, 'r) app"

type_synonym ('h, 'r) app_check = "ctx \<Rightarrow> ('h, 'r) app \<Rightarrow> gerror option \<times> ('h, 'r) app"

text \<open>An engine as a component of the process.\<close>

definition as_engine :: "'r DecisionEngine \<Rightarrow> ('h, 'r) app_engine" where
  "as_engine Evaluate c req = (\<lambda>(h, w). case Evaluate c req w of (out, w) \<Rightarrow> (out, h, w))"

record http_request =
  hq_Method :: string
  hq_Path :: string
  hq_Header :: "string \<Rightarrow> string"
  hq_Body :: string
  hq_Context :: ctx

text \<open>What is written: a map of texts or a response, through the JSON encoder, or a page of another package.\<close>

datatype payload = Fields "(string \<times> string) list" | Decision DecideResponse | Page string

record http_response =
  hr_Status :: int
  hr_ContentType :: string
  hr_Payload :: payload

type_synonym ('h, 'r) handler = "http_request \<Rightarrow> ('h, 'r) app \<Rightarrow> http_response \<times> ('h, 'r) app"

text \<open>The JSON decoder on a request body (unknown fields are errors) and the formatting of error texts.\<close>

record api_codec =
  ac_Decode :: "string \<Rightarrow> string + DecideRequest"
  ac_sprintf :: "string \<Rightarrow> string list \<Rightarrow> string"

definition writeJSON :: "int \<Rightarrow> payload \<Rightarrow> http_response" where
  "writeJSON status body = \<lparr>hr_Status = status, hr_ContentType = ''application/json'', hr_Payload = body\<rparr>"

definition writeError :: "int \<Rightarrow> string \<Rightarrow> http_response" where
  "writeError status message = writeJSON status (Fields [(''error'', message)])"

definition validateDecideRequest :: "DecideRequest \<Rightarrow> gerror option" where
  "validateDecideRequest req =
     (if TrimSpace (dr_ActorID req) = [] then Some (Errorf ''actor_id is required'')
      else if TrimSpace (ac_Type (dr_Action req)) = [] then Some (Errorf ''action.type is required'')
      else None)"

definition healthz :: "('h, 'r) handler" where
  "healthz r s = (writeJSON 200 (Fields [(''status'', ''ok'')]), s)"

definition readyz :: "api_codec \<Rightarrow> ('h, 'r) app_check \<Rightarrow> ('h, 'r) handler" where
  "readyz ac check r s =
     (case check (hq_Context r) s of
        (Some err, s) \<Rightarrow>
          (writeJSON 503 (Fields [(''status'', ''unavailable''), (''error'', error_text (ac_sprintf ac) err)]), s)
      | (None, s) \<Rightarrow> (writeJSON 200 (Fields [(''status'', ''ready'')]), s))"

definition HTTP_decide :: "api_codec \<Rightarrow> ('h, 'r) app_engine \<Rightarrow> ('h, 'r) handler" where
  "HTTP_decide ac Evaluate r = (\<lambda>(h, w).
     let clientID = TrimSpace (hq_Header r ''X-Client-Id'') in
     if clientID = [] then (writeError 400 ''missing X-Client-Id'', h, w)
     else case ac_Decode ac (hq_Body r) of
       Inl err \<Rightarrow> (writeError 400 ''malformed request'', h, w)
     | Inr req \<Rightarrow>
         (case validateDecideRequest req of
            Some err \<Rightarrow> (writeError 400 (error_text (ac_sprintf ac) err), h, w)
          | None \<Rightarrow>
              let requestID = TrimSpace (hq_Header r ''X-Request-Id'') in
              case (if requestID = [] then new_uuid w else (requestID, w)) of (requestID, w) \<Rightarrow>
              (case Evaluate (hq_Context r) (req\<lparr>dr_ClientID := clientID, dr_RequestID := requestID\<rparr>) (h, w) of
                 (Inl err, s) \<Rightarrow> (writeError 500 ''decision engine failed'', s)
               | (Inr response, s) \<Rightarrow> (writeJSON 200 (Decision response), s))))"

definition HTTP_reload :: "api_codec \<Rightarrow> ('h, 'r) app_check \<Rightarrow> ('h, 'r) handler" where
  "HTTP_reload ac fn r s =
     (case fn (hq_Context r) s of
        (Some err, s) \<Rightarrow> (writeJSON 500 (Fields [(''error'', error_text (ac_sprintf ac) err)]), s)
      | (None, s) \<Rightarrow> (writeJSON 200 (Fields [(''status'', ''reloaded'')]), s))"

text \<open>\<open>Dependencies\<close>, which can be nil, and the routes: a method (or any), a path and a handler.\<close>

record ('h, 'r) RouterDependencies =
  dn_Engine :: "('h, 'r) app_engine option"
  dn_Ready :: "('h, 'r) app_check option"
  dn_Reload :: "('h, 'r) app_check option"

definition no_check :: "('h, 'r) app_check" where
  "no_check c s = (None, s)"

definition default_engine :: "('h, 'r) app_engine option \<Rightarrow> ('h, 'r) app_engine" where
  "default_engine ptr =
     (case ptr of None \<Rightarrow> as_engine (AllowEngine_Evaluate (NewAllowEngine ''bootstrap'')) | Some Evaluate \<Rightarrow> Evaluate)"

definition NewRouter ::
    "api_codec \<Rightarrow> ('h, 'r) handler \<Rightarrow> ('h, 'r) RouterDependencies \<Rightarrow> (string option \<times> string \<times> ('h, 'r) handler) list" where
  "NewRouter ac metrics d =
     (let Ready = (case dn_Ready d of None \<Rightarrow> no_check | Some f \<Rightarrow> f);
          Reload = (case dn_Reload d of None \<Rightarrow> no_check | Some f \<Rightarrow> f) in
      [(Some ''GET'', ''/healthz'', healthz),
       (Some ''GET'', ''/readyz'', readyz ac Ready),
       (None, ''/metrics'', metrics),
       (Some ''POST'', ''/v1/decide'', HTTP_decide ac (default_engine (dn_Engine d))),
       (Some ''POST'', ''/v1/admin/reload'', HTTP_reload ac Reload)])"

text \<open>
  What \<open>chi\<close> does with routes that hold no pattern: the handler of the method and path of the request,
  or its own answer (404 or 405).
\<close>

definition ServeHTTP ::
    "(string option \<times> string \<times> ('h, 'r) handler) list \<Rightarrow> ('h, 'r) handler \<Rightarrow> ('h, 'r) handler" where
  "ServeHTTP routes unrouted r =
     (case find (\<lambda>(method, path, _). path = hq_Path r \<and> (method = None \<or> method = Some (hq_Method r))) routes of
        Some (_, _, handler) \<Rightarrow> handler r
      | None \<Rightarrow> unrouted r)"

text \<open>
  The middleware: the request header gets an id if it has none, and the answer carries it. The handler
  gets the request with the header set; the answer is paired with the header added to it.
\<close>

definition RequestID ::
    "('h, 'r) handler \<Rightarrow> http_request \<Rightarrow> ('h, 'r) app \<Rightarrow> (string \<times> http_response) \<times> ('h, 'r) app" where
  "RequestID handle r = (\<lambda>(h, w).
     case (let requestID = hq_Header r ''X-Request-Id'' in
           if requestID = [] then
             (case new_uuid w of (requestID, w) \<Rightarrow>
                (requestID, r\<lparr>hq_Header := (hq_Header r)(''X-Request-Id'' := requestID)\<rparr>, w))
           else (requestID, r, w))
     of (requestID, r, w) \<Rightarrow>
       (case handle r (h, w) of (answer, s) \<Rightarrow> ((requestID, answer), s)))"

section \<open>gRPC\<close>

text \<open>The messages of \<open>pds.proto\<close>; \<open>None\<close> is a message that is not set, and \<open>'st\<close> the type \<open>Struct\<close>.\<close>

record pb_Action =
  pa_Type :: string
  pa_Platform :: string

record pb_Content =
  pc_Title :: string
  pc_Description :: string
  pc_DurationS :: int
  pc_Tags :: "string list"

record 'st pb_DecideRequest =
  pq_ActorId :: string
  pq_Action :: "pb_Action option"
  pq_Content :: "pb_Content option"
  pq_Context :: "'st option"

record pb_Reason =
  pr_Code :: string
  pr_Rule :: string
  pr_Detail :: string

record 'st pb_DecideResponse =
  pp_DecisionId :: string
  pp_Verdict :: string
  pp_Score :: rat
  pp_Reasons :: "pb_Reason list"
  pp_EvaluatedRules :: "string list"
  pp_RulesVersion :: string
  pp_LatencyMs :: int
  pp_Metadata :: "'st option"

record 'st structpb =
  st_AsMap :: "'st \<Rightarrow> string \<rightharpoonup> any"
  st_NewStruct :: "(string \<rightharpoonup> any) \<Rightarrow> string + 'st"
  st_Marshal :: "(string \<rightharpoonup> any) \<Rightarrow> string + string"
  st_Unmarshal :: "string \<Rightarrow> string + (string \<rightharpoonup> any)"

text \<open>The generated getters return the zero value on a message that is not set.\<close>

definition getter :: "('m \<Rightarrow> 'v) \<Rightarrow> 'v \<Rightarrow> 'm option \<Rightarrow> 'v" where
  "getter field zero m = (case m of None \<Rightarrow> zero | Some m \<Rightarrow> field m)"

definition grpcRequestToEngine :: "'st structpb \<Rightarrow> 'st pb_DecideRequest \<Rightarrow> DecideRequest" where
  "grpcRequestToEngine st req =
     \<lparr>dr_ActorID = pq_ActorId req,
      dr_Action = \<lparr>ac_Type = getter pa_Type [] (pq_Action req), ac_Platform = getter pa_Platform [] (pq_Action req)\<rparr>,
      dr_Content = \<lparr>cc_Title = getter pc_Title [] (pq_Content req),
        cc_Description = getter pc_Description [] (pq_Content req),
        cc_DurationS = getter pc_DurationS 0 (pq_Content req), cc_Tags = getter pc_Tags [] (pq_Content req)\<rparr>,
      dr_Context = (case pq_Context req of None \<Rightarrow> None | Some s \<Rightarrow> Some (st_AsMap st s)),
      dr_ClientID = ''grpc'', dr_RequestID = []\<rparr>"

definition normalizeJSONMap :: "'st structpb \<Rightarrow> (string \<rightharpoonup> any) \<Rightarrow> string + (string \<rightharpoonup> any)" where
  "normalizeJSONMap st vals =
     (case st_Marshal st vals of Inl err \<Rightarrow> Inl err | Inr data \<Rightarrow> st_Unmarshal st data)"

definition mapToStruct :: "'st structpb \<Rightarrow> (string \<rightharpoonup> any) option \<Rightarrow> 'st option" where
  "mapToStruct st vals =
     (case vals of None \<Rightarrow> None | Some vals \<Rightarrow>
      if vals = Map.empty then None
      else case normalizeJSONMap st vals of
        Inl err \<Rightarrow> None
      | Inr normalized \<Rightarrow> (case st_NewStruct st normalized of Inl err \<Rightarrow> None | Inr out \<Rightarrow> Some out))"

definition engineResponseToGRPC :: "'st structpb \<Rightarrow> DecideResponse \<Rightarrow> 'st pb_DecideResponse" where
  "engineResponseToGRPC st response =
     \<lparr>pp_DecisionId = dp_DecisionID response, pp_Verdict = dp_Verdict response, pp_Score = dp_Score response,
      pp_Reasons = map (\<lambda>reason. \<lparr>pr_Code = rs_Code reason, pr_Rule = rs_Rule reason, pr_Detail = rs_Detail reason\<rparr>)
        (dp_Reasons response),
      pp_EvaluatedRules = dp_EvaluatedRules response, pp_RulesVersion = dp_RulesVersion response,
      pp_LatencyMs = dp_LatencyMS response, pp_Metadata = mapToStruct st (dp_Metadata response)\<rparr>"

datatype grpc_code = InvalidArgument | Internal

text \<open>The service of a server, with the engine that \<open>NewGRPCServer\<close> gives it.\<close>

definition NewGRPCServer :: "('h, 'r) app_engine option \<Rightarrow> ('h, 'r) app_engine" where
  "NewGRPCServer decisionEngine = default_engine decisionEngine"

definition GRPC_Decide ::
    "api_codec \<Rightarrow> 'st structpb \<Rightarrow> ('h, 'r) app_engine \<Rightarrow> ctx \<Rightarrow> 'st pb_DecideRequest \<Rightarrow> ('h, 'r) app
       \<Rightarrow> (grpc_code \<times> string + 'st pb_DecideResponse) \<times> ('h, 'r) app" where
  "GRPC_Decide ac st Evaluate c req s =
     (let engineReq = grpcRequestToEngine st req in
      case validateDecideRequest engineReq of
        Some err \<Rightarrow> (Inl (InvalidArgument, error_text (ac_sprintf ac) err), s)
      | None \<Rightarrow>
          (case Evaluate c engineReq s of
             (Inl err, s) \<Rightarrow> (Inl (Internal, ''decision engine failed''), s)
           | (Inr response, s) \<Rightarrow> (Inr (engineResponseToGRPC st response), s)))"

section \<open>Who asks does not matter\<close>

text \<open>
  The same request from another client and under another request id. A rule is blind if it evaluates
  both alike; all rules that the loader builds are.
\<close>

definition relabel :: "string \<Rightarrow> string \<Rightarrow> DecideRequest \<Rightarrow> DecideRequest" where
  "relabel client i req = req\<lparr>dr_ClientID := client, dr_RequestID := i\<rparr>"

definition blind :: "'r rule \<Rightarrow> bool" where
  "blind rule \<longleftrightarrow> (\<forall>client i c state byID w.
     invoke rule c (state\<lparr>es_Request := relabel client i (es_Request state)\<rparr>) byID w = invoke rule c state byID w)"

lemma keyPrefix_relabel: "keyPrefix r (relabel client i req) = keyPrefix r req"
  by (simp add: keyPrefix_def relabel_def)

lemma actorActivation_relabel: "actorActivation (relabel client i req) = actorActivation req"
  by (auto simp: actorActivation_def relabel_def Let_def split: option.split any.split)

lemma activation_relabel: "activation (state\<lparr>es_Request := relabel client i (es_Request state)\<rparr>) = activation state"
proof -
  have "dr_Action (relabel client i req) = dr_Action req" "dr_Content (relabel client i req) = dr_Content req"
    "dr_Context (relabel client i req) = dr_Context req" for req
    by (simp_all add: relabel_def)
  then show ?thesis by (simp add: activation_def actorActivation_relabel Let_def)
qed

lemma buildRule_blind:
  assumes "buildRule pf opts raw = Inr rule"
  shows "blind rule"
  using assms
proof (cases rule: buildRule_cases)
  case (keyword cfg m)
  then show ?thesis
    by (simp add: blind_def invoke_def keyword_rule_def KeywordRule_Evaluate_def relabel_def cong: option.case_cong)
next
  case (limit cfg m)
  then show ?thesis
    by (simp add: blind_def invoke_def rate_limit_rule_def RateLimitRule_Evaluate_def keyPrefix_relabel Let_def
        split_beta cong: if_cong sum.case_cong) (simp add: relabel_def)
next
  case (cel cfg m)
  then show ?thesis
    by (simp add: blind_def invoke_def cel_rule_def CELRule_Evaluate_def activation_relabel)
next
  case (combiner cfg m)
  then show ?thesis
    by (simp add: blind_def invoke_def combiner_rule_def EvaluateWithResults_def)
qed

lemma eval_rules_blind:
  assumes "\<And>rule. rule \<in> set rules \<Longrightarrow> blind rule"
  shows "eval_rules c (state\<lparr>es_Request := relabel client i (es_Request state)\<rparr>) rules results byID w =
    eval_rules c state rules results byID w"
  using assms
proof (induction rules arbitrary: results byID w)
  case (Cons rule rules)
  then have "invoke rule c (state\<lparr>es_Request := relabel client i (es_Request state)\<rparr>) byID' w' =
      invoke rule c state byID' w'" for byID' w'
    by (simp add: blind_def)
  then have "eval_one c (state\<lparr>es_Request := relabel client i (es_Request state)\<rparr>) byID' rule w' =
      eval_one c state byID' rule w'" for byID' w'
    by (simp add: eval_one_def)
  with Cons show ?case by (simp split: prod.splits option.splits)
qed simp

lemma lookup_features_relabel:
  "lookup_features e c (relabel client i req) w =
   (case lookup_features e c req w of (state, w') \<Rightarrow> (state\<lparr>es_Request := relabel client i (es_Request state)\<rparr>, w'))"
  by (auto simp: lookup_features_def relabel_def Let_def split: option.splits prod.splits)

lemma respond_relabel:
  "fst (respond e c (relabel client i req) (state\<lparr>es_Request := r\<rparr>) started results w) =
   fst (respond e c req state started results w)"
  by (simp add: respond_def relabel_def Let_def time_since_def time_now_def new_uuid_def tel_upd_def split: option.split)

lemma Evaluate_relabel:
  assumes "\<And>rule. rule \<in> set (re_rules e) \<Longrightarrow> blind rule"
  shows "fst (RuleEngine_Evaluate e c (relabel client i req) w) = fst (RuleEngine_Evaluate e c req w)"
proof -
  obtain started w1 where t: "time_now w = (started, w1)" by (cases "time_now w")
  obtain state w2 where l: "lookup_features e c req (snd (poll c w1)) = (state, w2)"
    by (cases "lookup_features e c req (snd (poll c w1))")
  obtain out w3 where r: "eval_rules c state (re_rules e) [] Map.empty w2 = (out, w3)"
    by (cases "eval_rules c state (re_rules e) [] Map.empty w2")
  from t l r eval_rules_blind [OF assms] show ?thesis
    by (simp add: RuleEngine_Evaluate_def lookup_features_relabel respond_relabel poll_def split_beta split: option.split sum.split)
qed

section \<open>Properties\<close>

text \<open>
  C18. What \<open>POST /v1/decide\<close> answers, with the rule engine behind it. A request without client id, with a
  malformed body or without actor or action type gets 400 and has no effect at all, neither on
  counters nor on audit; 500 is only possible when the context of the request has finished; every other
  request gets 200 with a decision that has one of the three verdicts and the version of the rules.
\<close>

theorem http_decide_status:
  assumes "HTTP_decide ac (as_engine (RuleEngine_Evaluate e)) r (h, w) = (answer, h', w')"
  shows "h' = h \<and> hr_ContentType answer = ''application/json'' \<and>
    (hr_Status answer = 400 \<longleftrightarrow> TrimSpace (hq_Header r ''X-Client-Id'') = [] \<or>
       (\<forall>req. ac_Decode ac (hq_Body r) = Inr req \<longrightarrow>
          TrimSpace (dr_ActorID req) = [] \<or> TrimSpace (ac_Type (dr_Action req)) = [])) \<and>
    (case hr_Payload answer of
       Decision response \<Rightarrow> hr_Status answer = 200 \<and> known_verdict (dp_Verdict response) \<and>
         dp_RulesVersion response = re_rulesVersion e
     | _ \<Rightarrow> hr_Status answer = 400 \<and> w' = w \<or> hr_Status answer = 500 \<and> (\<exists>n. hq_Context r n \<noteq> None))"
proof (cases "TrimSpace (hq_Header r ''X-Client-Id'') = []")
  case True
  with assms show ?thesis by (auto simp: HTTP_decide_def Let_def writeError_def writeJSON_def)
next
  case client: False
  show ?thesis
  proof (cases "ac_Decode ac (hq_Body r)")
    case (Inl err)
    with assms client show ?thesis by (auto simp: HTTP_decide_def Let_def writeError_def writeJSON_def)
  next
    case (Inr req)
    show ?thesis
    proof (cases "validateDecideRequest req")
      case (Some err)
      with assms client Inr show ?thesis
        by (auto simp: HTTP_decide_def Let_def writeError_def writeJSON_def validateDecideRequest_def split: if_splits)
    next
      case None
      obtain requestID w1 where ids: "(if TrimSpace (hq_Header r ''X-Request-Id'') = [] then new_uuid w
          else (TrimSpace (hq_Header r ''X-Request-Id''), w)) = (requestID, w1)"
        by (cases "if TrimSpace (hq_Header r ''X-Request-Id'') = [] then new_uuid w
          else (TrimSpace (hq_Header r ''X-Request-Id''), w)")
      let ?req = "req\<lparr>dr_ClientID := TrimSpace (hq_Header r ''X-Client-Id''), dr_RequestID := requestID\<rparr>"
      have valid: "TrimSpace (dr_ActorID req) \<noteq> []" "TrimSpace (ac_Type (dr_Action req)) \<noteq> []"
        using None by (auto simp: validateDecideRequest_def split: if_splits)
      show ?thesis
      proof (cases rule: RuleEngine_Evaluate_cases [of "hq_Context r" e ?req w1])
        case (cancelled n ce w2)
        with assms client Inr None ids have "answer = writeError 500 ''decision engine failed''" "h' = h"
          by (auto simp: HTTP_decide_def Let_def as_engine_def)
        with valid client Inr cancelled(1) show ?thesis by (auto simp: writeError_def writeJSON_def)
      next
        case (decided started u1 state u2 results u3 response w2)
        with assms client Inr None ids have "answer = writeJSON 200 (Decision response)" "h' = h"
          by (auto simp: HTTP_decide_def Let_def as_engine_def)
        with valid client Inr respond_fields(1,4) [OF decided(5)] Combine_known [of results] show ?thesis
          by (auto simp: writeJSON_def)
      qed
    qed
  qed
qed

text \<open>
  C16. HTTP and gRPC give the same decision. For an engine with the rules of a loaded file, a request that
  is the same in both encodings, sent over HTTP with a client id and a request id, gets the same
  answer over gRPC in the same state: the same response field by field, the same refusal with 400
  and \<open>InvalidArgument\<close>, or the same failure with 500 and \<open>Internal\<close>.
\<close>

theorem http_grpc_equivalent:
  assumes "LoadBytes pf data opts = Inr snap" and "re_rules e = sn_Rules snap"
    and "ac_Decode ac (hq_Body r) = Inr req" and "relabel ''grpc'' [] req = grpcRequestToEngine st greq"
    and "TrimSpace (hq_Header r ''X-Client-Id'') \<noteq> []" and "TrimSpace (hq_Header r ''X-Request-Id'') \<noteq> []"
  shows "(\<exists>response. fst (HTTP_decide ac (as_engine (RuleEngine_Evaluate e)) r (h, w)) = writeJSON 200 (Decision response) \<and>
      fst (GRPC_Decide ac st (as_engine (RuleEngine_Evaluate e)) (hq_Context r) greq (h, w)) =
        Inr (engineResponseToGRPC st response)) \<or>
    (\<exists>(status, code) \<in> {(400, InvalidArgument), (500, Internal)}. \<exists>message.
      fst (HTTP_decide ac (as_engine (RuleEngine_Evaluate e)) r (h, w)) = writeError status message \<and>
      fst (GRPC_Decide ac st (as_engine (RuleEngine_Evaluate e)) (hq_Context r) greq (h, w)) = Inl (code, message))"
proof -
  let ?c = "hq_Context r" and ?client = "TrimSpace (hq_Header r ''X-Client-Id'')" and ?i = "TrimSpace (hq_Header r ''X-Request-Id'')"
  from assms(1) obtain f ordered where "loads pf data opts f ordered snap" unfolding LoadBytes_Inr by blast
  then have blind: "blind rule" if "rule \<in> set (re_rules e)" for rule
    using that assms(2) unfolding loads_def list_all2_conv_all_nth in_set_conv_nth by (metis buildRule_blind)
  have same: "fst (RuleEngine_Evaluate e ?c (relabel client i req) w) = fst (RuleEngine_Evaluate e ?c req w)" for client i
    by (rule Evaluate_relabel) (rule blind)
  have valid: "validateDecideRequest (relabel client i req) = validateDecideRequest req" for client i
    by (simp add: validateDecideRequest_def relabel_def)
  show ?thesis
  proof (cases "validateDecideRequest req")
    case (Some err)
    then show ?thesis
      using assms(3,5) valid [of "''grpc''" "[]"]
      by (simp add: HTTP_decide_def GRPC_Decide_def Let_def assms(4) [symmetric])
  next
    case None
    have http: "fst (HTTP_decide ac (as_engine (RuleEngine_Evaluate e)) r (h, w)) =
        (case fst (RuleEngine_Evaluate e ?c req w) of Inl _ \<Rightarrow> writeError 500 ''decision engine failed''
         | Inr response \<Rightarrow> writeJSON 200 (Decision response))"
      using assms(3,5,6) None same [of ?client ?i]
      by (simp add: HTTP_decide_def Let_def as_engine_def relabel_def split: prod.splits sum.splits) auto
    have grpc: "fst (GRPC_Decide ac st (as_engine (RuleEngine_Evaluate e)) ?c greq (h, w)) =
        (case fst (RuleEngine_Evaluate e ?c req w) of Inl _ \<Rightarrow> Inl (Internal, ''decision engine failed'')
         | Inr response \<Rightarrow> Inr (engineResponseToGRPC st response))"
      using None valid [of "''grpc''" "[]"] same [of "''grpc''" "[]"]
      by (simp add: GRPC_Decide_def Let_def as_engine_def assms(4) [symmetric] split: prod.splits sum.splits) auto
    show ?thesis unfolding http grpc by (cases "fst (RuleEngine_Evaluate e ?c req w)") auto
  qed
qed

text \<open>A request that a client sends in both encodings.\<close>

definition sample_codec :: api_codec where
  "sample_codec = \<lparr>ac_Decode = (\<lambda>body. Inr sample_request), ac_sprintf = (\<lambda>f args. f)\<rparr>"

definition sample_http :: http_request where
  "sample_http = \<lparr>hq_Method = ''POST'', hq_Path = ''/v1/decide'', hq_Header = (\<lambda>key. ''local''), hq_Body = [],
     hq_Context = background\<rparr>"

definition sample_struct :: "unit structpb" where
  "sample_struct = \<lparr>st_AsMap = (\<lambda>_. Map.empty), st_NewStruct = (\<lambda>_. Inr ()), st_Marshal = (\<lambda>_. Inr ''{}''),
     st_Unmarshal = (\<lambda>_. Inr Map.empty)\<rparr>"

definition sample_grpc :: "unit pb_DecideRequest" where
  "sample_grpc = \<lparr>pq_ActorId = ''a1'', pq_Action = Some \<lparr>pa_Type = ''publish'', pa_Platform = ''yt''\<rparr>,
     pq_Content = Some \<lparr>pc_Title = ''demo'', pc_Description = [], pc_DurationS = 30, pc_Tags = []\<rparr>, pq_Context = None\<rparr>"

lemma sample_trimmed: "TrimSpace ''local'' = ''local''" "TrimSpace ''a1'' = ''a1''" "TrimSpace ''publish'' = ''publish''"
  by code_simp+

lemma sample_http_simps:
  "hq_Header sample_http key = ''local''" "hq_Context sample_http = background"
  "ac_Decode sample_codec body = Inr sample_request"
  by (simp_all add: sample_http_def sample_codec_def)

lemma sample_valid: "validateDecideRequest sample_request = None"
  by (simp add: validateDecideRequest_def sample_request_def sample_trimmed)

theorem http_decide_status_witness:
  "\<exists>answer w'. HTTP_decide sample_codec (as_engine (RuleEngine_Evaluate (NewRuleEngine ''v1'' []))) sample_http
     ((), start_world ()) = (answer, (), w') \<and> hr_Status answer = 200"
proof -
  obtain answer h' w' where run: "HTTP_decide sample_codec (as_engine (RuleEngine_Evaluate (NewRuleEngine ''v1'' [])))
      sample_http ((), start_world ()) = (answer, h', w')"
    by (cases "HTTP_decide sample_codec (as_engine (RuleEngine_Evaluate (NewRuleEngine ''v1'' [])))
      sample_http ((), start_world ())") auto
  from http_decide_status [OF run] have "hr_Status answer = 200"
    by (auto simp: sample_http_simps sample_trimmed sample_request_def split: payload.splits)
  with run show ?thesis by auto
qed

theorem http_grpc_equivalent_witness:
  "\<exists>e response. fst (HTTP_decide sample_codec (as_engine (RuleEngine_Evaluate e)) sample_http ((), start_world ())) =
       writeJSON 200 (Decision response) \<and>
     fst (GRPC_Decide sample_codec sample_struct (as_engine (RuleEngine_Evaluate e)) background sample_grpc
       ((), start_world ())) = Inr (engineResponseToGRPC sample_struct response) \<and> re_rules e \<noteq> []"
proof -
  from sample_loads obtain ordered and snap :: "unit Snapshot"
    where l: "loads (sample_platform sample_file) [] no_options sample_file ordered snap" by blast
  then have snap: "LoadBytes (sample_platform sample_file) [] no_options = Inr snap" unfolding LoadBytes_Inr by blast
  define e where "e = NewRuleEngine (sn_Version snap) (sn_Rules snap)"
  have rules: "re_rules e = sn_Rules snap" by (simp add: e_def NewRuleEngine_def)
  have "set ordered = set (rf_Rules sample_file)" using loads_order(1) [OF l] by (rule mset_eq_setD)
  moreover have "hd (rf_Rules sample_file) \<in> set (rf_Rules sample_file)" "ruleEnabled (rw_Enabled (hd (rf_Rules sample_file)))"
    by (simp_all add: sample_file_def order_sample_def ruleEnabled_def)
  ultimately have "hd (rf_Rules sample_file) \<in> set (enabled_rules ordered)" by simp
  then have "enabled_rules ordered \<noteq> []" by (metis empty_iff list.set(1))
  then have nonempty: "re_rules e \<noteq> []" using loads_ids [OF l] rules by (metis list.map_disc_iff)
  have g: "relabel ''grpc'' [] sample_request = grpcRequestToEngine sample_struct sample_grpc"
    by (simp add: relabel_def sample_request_def grpcRequestToEngine_def sample_grpc_def getter_def)
  let ?req = "sample_request\<lparr>dr_ClientID := ''local'', dr_RequestID := ''local''\<rparr>"
  obtain response w' where "RuleEngine_Evaluate e background ?req (start_world ()) = (Inr response, w')"
    using RuleEngine_Evaluate_live [of background e ?req "start_world ()"] by auto
  then have http: "fst (HTTP_decide sample_codec (as_engine (RuleEngine_Evaluate e)) sample_http ((), start_world ())) =
      writeJSON 200 (Decision response)"
    by (simp add: HTTP_decide_def Let_def sample_http_simps sample_trimmed sample_valid as_engine_def)
  have ids: "TrimSpace (hq_Header sample_http ''X-Client-Id'') \<noteq> []" "TrimSpace (hq_Header sample_http ''X-Request-Id'') \<noteq> []"
    by (simp_all add: sample_http_simps sample_trimmed)
  from http_grpc_equivalent [OF snap rules sample_http_simps(3) g ids, of "()" "start_world ()"]
  have "fst (GRPC_Decide sample_codec sample_struct (as_engine (RuleEngine_Evaluate e)) background sample_grpc
      ((), start_world ())) = Inr (engineResponseToGRPC sample_struct response)"
    unfolding http sample_http_simps(2) by (auto simp: writeError_def writeJSON_def)
  with http nonempty show ?thesis by blast
qed

end
