(* ===== verification/Feature_Provider.thy ===== *)
theory Feature_Provider
  imports Engine Go_Path_Time
begin

text \<open>
  \<open>internal/profile\<close>: the static, the fallback and the HTTP feature provider, with \<open>url.PathEscape\<close>
  and \<open>strings.TrimRight\<close> of the standard library. The HTTP client, the parsing of URLs and the JSON
  decoder are parameters. The locale \<open>feature_provider\<close> is the contract between a provider and the
  engine: a degraded lookup returns zero features and no lookup touches what the engine writes.
\<close>

section \<open>URLs\<close>

text \<open>\<open>url.PathEscape\<close>: bytes outside the set that a path segment can hold become \<open>%XX\<close>.\<close>

definition upper_hex :: "nat \<Rightarrow> char" where
  "upper_hex n = (if n < 10 then digit n else char_of (0x41 + n - 10))"

definition plain_in_segment :: "char \<Rightarrow> bool" where
  "plain_in_segment c \<longleftrightarrow> is_digit c \<or>
     (0x41 :: nat) \<le> of_char c \<and> of_char c \<le> (0x5A :: nat) \<or> (0x61 :: nat) \<le> of_char c \<and> of_char c \<le> (0x7A :: nat) \<or>
     c \<in> set ''-_.~$&+:=@''"

definition escape_byte :: "char \<Rightarrow> string" where
  "escape_byte c = (if plain_in_segment c then [c]
     else let n = of_char c :: nat in [CHR ''%'', upper_hex (n div 16), upper_hex (n mod 16)])"

definition PathEscape :: "string \<Rightarrow> string" where
  "PathEscape s = concat (map escape_byte s)"

definition TrimRight :: "string \<Rightarrow> char \<Rightarrow> string" where
  "TrimRight s c = rev (dropWhile (\<lambda>d. d = c) (rev s))"

section \<open>The providers\<close>

record StaticProvider =
  sp_Features :: ActorFeatures
  sp_Err :: "gerror option"

definition Static_GetActorFeatures :: "StaticProvider \<Rightarrow> 'r FeatureProvider" where
  "Static_GetActorFeatures p c actorID w =
     (if sp_Err p \<noteq> None then ((zero_ActorFeatures, True), w) else ((sp_Features p, False), w))"

text \<open>The providers of a \<open>FallbackProvider\<close>, nil or not.\<close>

fun Fallback_GetActorFeatures :: "'r FeatureProvider option list \<Rightarrow> 'r FeatureProvider" where
  "Fallback_GetActorFeatures [] c actorID w = ((zero_ActorFeatures, True), w)"
| "Fallback_GetActorFeatures (None # providers) c actorID w = Fallback_GetActorFeatures providers c actorID w"
| "Fallback_GetActorFeatures (Some provider # providers) c actorID w =
     (case provider c actorID w of ((features, degraded), w) \<Rightarrow>
        if \<not> degraded then ((features, False), w)
        else Fallback_GetActorFeatures providers c actorID w)"

text \<open>
  \<open>client.Do\<close> on a GET request, under the context cut off by a timeout: the text of its error, or the
  status code and the body. \<open>http.NewRequestWithContext\<close> fails on a URL that does not parse.
\<close>

type_synonym 'r Client = "ctx \<Rightarrow> int \<Rightarrow> string \<Rightarrow> 'r world \<Rightarrow> (string + int \<times> string) \<times> 'r world"

record 'r net =
  nt_DefaultClient :: "'r Client"
  nt_NewRequest :: "string \<Rightarrow> string option"
  nt_Decode :: "string \<Rightarrow> string + ActorFeatures"

record 'r HTTPFeatureProvider =
  hp_baseURL :: string
  hp_timeout :: int
  hp_client :: "'r Client"

definition NewHTTPFeatureProvider ::
    "'r net \<Rightarrow> string \<Rightarrow> int \<Rightarrow> 'r Client option \<Rightarrow> 'r HTTPFeatureProvider" where
  "NewHTTPFeatureProvider net baseURL timeout client =
     \<lparr>hp_baseURL = TrimRight (TrimSpace baseURL) (CHR ''/''),
      hp_timeout = (if timeout \<le> 0 then 100 * 1000000 else timeout),
      hp_client = (case client of None \<Rightarrow> nt_DefaultClient net | Some client \<Rightarrow> client)\<rparr>"

definition endpoint :: "'r HTTPFeatureProvider \<Rightarrow> string \<Rightarrow> string" where
  "endpoint p actorID = hp_baseURL p @ ''/v1/features/'' @ PathEscape actorID"

text \<open>The request, after the parameter was trimmed.\<close>

definition request_features :: "'r net \<Rightarrow> 'r HTTPFeatureProvider option \<Rightarrow> 'r FeatureProvider" where
  "request_features net ptr c actorID w =
     (let degraded = (zero_ActorFeatures, True) in
      case ptr of None \<Rightarrow> (degraded, w) | Some p \<Rightarrow>
      if hp_baseURL p = [] \<or> actorID = [] then (degraded, w)
      else if nt_NewRequest net (endpoint p actorID) \<noteq> None then (degraded, w)
      else
        (case hp_client p c (hp_timeout p) (endpoint p actorID) w of
           (Inl err, w) \<Rightarrow> (degraded, w)
         | (Inr (status, body), w) \<Rightarrow>
             if status < 200 \<or> 300 \<le> status then (degraded, w)
             else
               (case nt_Decode net body of
                  Inl err \<Rightarrow> (degraded, w)
                | Inr features \<Rightarrow>
                    if af_ActorID features = [] then ((features\<lparr>af_ActorID := actorID\<rparr>, False), w)
                    else if af_ActorID features \<noteq> actorID then (degraded, w)
                    else ((features, False), w))))"

text \<open>The deferred observations.\<close>

definition HTTP_GetActorFeatures :: "'r net \<Rightarrow> 'r HTTPFeatureProvider option \<Rightarrow> 'r FeatureProvider" where
  "HTTP_GetActorFeatures net ptr c actorID w =
     (case time_now w of (started, w) \<Rightarrow>
      case request_features net ptr c (TrimSpace actorID) w of ((features, degraded), w) \<Rightarrow>
      case time_since started w of (elapsed, w) \<Rightarrow>
        ((features, degraded),
         tel_upd (\<lambda>t. t\<lparr>FeatureLookupLatencySeconds := FeatureLookupLatencySeconds t @ [elapsed],
           FeatureLookupDegradedTotal := FeatureLookupDegradedTotal t + (if degraded then 1 else 0)\<rparr>) w))"

section \<open>The contract of a provider\<close>

text \<open>
  What the engine relies on, for the providers \<open>get p\<close> of a kind whose own collaborators are \<open>lawful\<close>.
\<close>

locale feature_provider =
  fixes get :: "'p \<Rightarrow> 'r FeatureProvider"
    and lawful :: "'p \<Rightarrow> bool"
  assumes degraded_zero: "get p c actorID w = ((features, True), w') \<Longrightarrow> lawful p \<Longrightarrow> features = zero_ActorFeatures"
    and frame: "get p c actorID w = (out, w') \<Longrightarrow> lawful p \<Longrightarrow> engine_frame w w'"
begin

lemma lookup:
  assumes "lawful p" and "lookup_features (WithFeatureProvider (get p) e) c req w = (state, w')"
  shows "(es_FeatureDegraded state \<longrightarrow> es_Features state = zero_ActorFeatures) \<and>
    (es_FeatureDegraded state \<longleftrightarrow> es_DegradedWarnings state \<noteq> []) \<and> es_Request state = req \<and> engine_frame w w'"
proof -
  obtain features degraded w1 where g: "get p c (dr_ActorID req) w = ((features, degraded), w1)"
    by (cases "get p c (dr_ActorID req) w") auto
  with assms(2) have "state = \<lparr>es_Request = req, es_Features = features, es_FeatureDegraded = degraded,
      es_DegradedWarnings = (if degraded then [''feature_provider_unavailable''] else [])\<rparr>" "w' = w1"
    by (auto simp: lookup_features_def WithFeatureProvider_def Let_def)
  with degraded_zero [of p] frame [OF g assms(1)] g assms(1) show ?thesis by auto
qed

lemma collaborators:
  "lawful p \<Longrightarrow> collaborators_frame e \<Longrightarrow> collaborators_frame (WithFeatureProvider (get p) e)"
  using frame [OF prod.collapse [symmetric], of p] by (simp add: collaborators_frame_def WithFeatureProvider_def)

end

interpretation static_provider: feature_provider Static_GetActorFeatures "\<lambda>_. True"
  by unfold_locales (auto simp: Static_GetActorFeatures_def split: if_splits)

text \<open>A client that leaves alone what only the engine writes.\<close>

definition lawful_http :: "'r HTTPFeatureProvider option \<Rightarrow> bool" where
  "lawful_http ptr \<longleftrightarrow> (\<forall>p c t u w. ptr = Some p \<longrightarrow> engine_frame w (snd (hp_client p c t u w)))"

lemma request_features_frame:
  assumes "lawful_http ptr" and "request_features net ptr c actorID w = (out, w')"
  shows "engine_frame w w'"
proof (cases ptr)
  case None
  with assms(2) show ?thesis by (auto simp: request_features_def Let_def)
next
  case (Some p)
  obtain r w1 where "hp_client p c (hp_timeout p) (endpoint p actorID) w = (r, w1)"
    by (cases "hp_client p c (hp_timeout p) (endpoint p actorID) w")
  moreover from this assms(1) Some have "engine_frame w w1" by (metis lawful_http_def snd_conv)
  ultimately show ?thesis
    using assms(2) Some by (auto simp: request_features_def Let_def split: sum.splits if_splits)
qed

lemma request_features_result:
  assumes "request_features net ptr c actorID w = ((features, degraded), w')"
  shows "if degraded then features = zero_ActorFeatures else actorID \<noteq> [] \<and> af_ActorID features = actorID"
  using assms by (auto simp: request_features_def Let_def split: option.splits if_splits prod.splits sum.splits)

interpretation http_provider: feature_provider "HTTP_GetActorFeatures net" lawful_http for net :: "'r net"
proof
  fix p :: "'r HTTPFeatureProvider option" and c actorID features out and w w' :: "'r world"
  { assume "HTTP_GetActorFeatures net p c actorID w = ((features, True), w')"
    then show "features = zero_ActorFeatures"
      using request_features_result [of net p c "TrimSpace actorID"]
      by (auto simp: HTTP_GetActorFeatures_def split: prod.splits) }
  assume run: "HTTP_GetActorFeatures net p c actorID w = (out, w')" and law: "lawful_http p"
  obtain r w1 where r: "request_features net p c (TrimSpace actorID) (snd (time_now w)) = (r, w1)"
    by (cases "request_features net p c (TrimSpace actorID) (snd (time_now w))")
  have "engine_frame w (snd (time_now w))" by (simp add: time_now_def engine_frame_def)
  from engine_frame_trans [OF this request_features_frame [OF law r]] run r
  show "engine_frame w w'"
    by (auto simp: HTTP_GetActorFeatures_def time_since_def time_now_def tel_upd_def engine_frame_def
        split: prod.splits)
qed

text \<open>A fallback provider is lawful if each of its providers keeps the frame.\<close>

definition lawful_fallback :: "'r FeatureProvider option list \<Rightarrow> bool" where
  "lawful_fallback providers \<longleftrightarrow> (\<forall>provider c i w. Some provider \<in> set providers \<longrightarrow> engine_frame w (snd (provider c i w)))"

interpretation fallback_provider: feature_provider Fallback_GetActorFeatures lawful_fallback
proof
  fix providers :: "'r FeatureProvider option list" and c actorID features out and w w' :: "'r world"
  show "Fallback_GetActorFeatures providers c actorID w = ((features, True), w') \<Longrightarrow> features = zero_ActorFeatures"
    by (induction providers c actorID w rule: Fallback_GetActorFeatures.induct) (auto split: prod.splits if_splits)
  show "Fallback_GetActorFeatures providers c actorID w = (out, w') \<Longrightarrow> lawful_fallback providers \<Longrightarrow> engine_frame w w'"
  proof (induction providers c actorID w rule: Fallback_GetActorFeatures.induct)
    case (3 provider providers c actorID w)
    obtain features degraded w1 where p: "provider c actorID w = ((features, degraded), w1)"
      by (cases "provider c actorID w") auto
    have f: "engine_frame w w1" using 3(3) p by (auto simp: lawful_fallback_def) (metis snd_conv)
    have rest: "lawful_fallback providers" using 3(3) by (auto simp: lawful_fallback_def)
    show ?case
    proof (cases degraded)
      case True
      with 3(1) [OF p [symmetric] refl] 3(2) p rest have "engine_frame w1 w'" by simp
      with f show ?thesis by (rule engine_frame_trans)
    next
      case False
      with 3(2) p f show ?thesis by simp
    qed
  qed (auto simp: lawful_fallback_def)
qed

section \<open>Escaped ids\<close>

text \<open>Reading an escaped segment back, which shows that escaping loses nothing.\<close>

definition hex_val :: "char \<Rightarrow> nat" where
  "hex_val c = (if is_digit c then of_char c - 0x30 else of_char c - 0x41 + 10)"

fun unescape :: "string \<Rightarrow> string" where
  "unescape (c # cs) =
     (if c = CHR ''%'' then
        (case cs of h # l # rest \<Rightarrow> char_of (16 * hex_val h + hex_val l) # unescape rest | _ \<Rightarrow> [])
      else c # unescape cs)"
| "unescape [] = []"

lemma hex_val_upper_hex: "n < 16 \<Longrightarrow> hex_val (upper_hex n) = n"
  by (auto simp: hex_val_def upper_hex_def is_digit_digit of_char_digit is_digit_def)

lemma of_char_div_16: "(of_char c :: nat) div 16 < 16"
proof -
  have "(of_char c :: nat) < 256" by (metis nat_of_char_less_256)
  then show ?thesis by linarith
qed

lemma unescape_escape_byte: "unescape (escape_byte c @ s) = c # unescape s"
proof (cases "plain_in_segment c")
  case True
  moreover have "\<not> plain_in_segment CHR ''%''" by (simp add: plain_in_segment_def is_digit_def)
  ultimately have "c \<noteq> CHR ''%''" by auto
  with True show ?thesis by (simp add: escape_byte_def)
next
  case False
  let ?n = "of_char c :: nat"
  have "hex_val (upper_hex (?n div 16)) = ?n div 16" "hex_val (upper_hex (?n mod 16)) = ?n mod 16"
    by (simp_all add: hex_val_upper_hex of_char_div_16)
  then have "char_of (16 * hex_val (upper_hex (?n div 16)) + hex_val (upper_hex (?n mod 16))) = c"
    by simp
  with False show ?thesis by (simp add: escape_byte_def Let_def)
qed

lemma unescape_PathEscape [simp]: "unescape (PathEscape s) = s"
  by (induction s) (simp_all add: PathEscape_def unescape_escape_byte)

lemma upper_hex_plain: "n < 16 \<Longrightarrow> upper_hex n \<notin> set ''/?#;,''"
  by (auto simp: upper_hex_def digit_def dest!: arg_cong [where f = "of_char :: char \<Rightarrow> nat"] split: if_splits)

lemma PathEscape_safe: "set (PathEscape s) \<inter> set ''/?#;,'' = {}"
proof -
  have "d \<notin> set ''/?#;,''" if "d \<in> set (escape_byte c)" for c d
  proof (cases "plain_in_segment c")
    case True
    with that have "d = c" by (simp add: escape_byte_def)
    with True show ?thesis by (auto simp: plain_in_segment_def is_digit_def)
  next
    case False
    note of_char_div_16 [of c]
    moreover have "d \<in> {CHR ''%'', upper_hex (of_char c div 16), upper_hex (of_char c mod 16)}"
      using that False by (simp add: escape_byte_def Let_def)
    ultimately show ?thesis using upper_hex_plain [of "of_char c div 16"] upper_hex_plain [of "of_char c mod 16"] by auto
  qed
  then show ?thesis by (auto simp: PathEscape_def)
qed

section \<open>Properties\<close>

text \<open>
  C22. The HTTP provider answers for the requested actor or not at all. Unless degraded, the features
  carry the trimmed actor id, which is not empty, and come from a 2xx response of the endpoint of
  that actor; degraded features are all zero. Every lookup is timed once and every
  degraded one counted once.
\<close>

theorem http_features_own_actor:
  assumes "HTTP_GetActorFeatures net ptr c actorID w = ((features, degraded), w')"
    and "\<forall>p c t u w. ptr = Some p \<longrightarrow> tel (snd (hp_client p c t u w)) = tel w"
  shows "(degraded \<longrightarrow> features = zero_ActorFeatures) \<and>
    (\<not> degraded \<longrightarrow> TrimSpace actorID \<noteq> [] \<and> af_ActorID features = TrimSpace actorID \<and>
       (\<exists>p status body decoded w1. ptr = Some p \<and>
          fst (hp_client p c (hp_timeout p) (endpoint p (TrimSpace actorID)) w1) = Inr (status, body) \<and>
          200 \<le> status \<and> status < 300 \<and> nt_Decode net body = Inr decoded \<and>
          features = decoded\<lparr>af_ActorID := TrimSpace actorID\<rparr>)) \<and>
    length (FeatureLookupLatencySeconds (tel w')) = Suc (length (FeatureLookupLatencySeconds (tel w))) \<and>
    FeatureLookupDegradedTotal (tel w') = FeatureLookupDegradedTotal (tel w) + (if degraded then 1 else 0)"
proof -
  let ?w1 = "snd (time_now w)" and ?a = "TrimSpace actorID"
  obtain w2 where r: "request_features net ptr c ?a ?w1 = ((features, degraded), w2)"
    and w': "w' = tel_upd (\<lambda>t. t\<lparr>FeatureLookupLatencySeconds := FeatureLookupLatencySeconds t @ [fst (time_since (fst (time_now w)) w2)],
           FeatureLookupDegradedTotal := FeatureLookupDegradedTotal t + (if degraded then 1 else 0)\<rparr>)
         (snd (time_since (fst (time_now w)) w2))"
    using assms(1) by (auto simp: HTTP_GetActorFeatures_def split: prod.splits)
  have same: "tel w2 = tel ?w1"
  proof (cases ptr)
    case None
    with r show ?thesis by (auto simp: request_features_def Let_def)
  next
    case (Some p)
    have "tel (snd (hp_client p c (hp_timeout p) (endpoint p ?a) ?w1)) = tel ?w1" using assms(2) Some by blast
    with r Some show ?thesis
      by (cases "hp_client p c (hp_timeout p) (endpoint p ?a) ?w1")
        (auto simp: request_features_def Let_def split: sum.splits if_splits)
  qed
  have answer: "\<exists>p status body decoded. ptr = Some p \<and>
      fst (hp_client p c (hp_timeout p) (endpoint p ?a) ?w1) = Inr (status, body) \<and>
      200 \<le> status \<and> status < 300 \<and> nt_Decode net body = Inr decoded \<and> features = decoded\<lparr>af_ActorID := ?a\<rparr>"
    if "\<not> degraded"
    using r that by (auto simp: request_features_def Let_def split: option.splits if_splits prod.splits sum.splits)
  have tels: "tel w' = (tel w)\<lparr>FeatureLookupLatencySeconds := FeatureLookupLatencySeconds (tel w) @ [fst (time_since (fst (time_now w)) w2)],
      FeatureLookupDegradedTotal := FeatureLookupDegradedTotal (tel w) + (if degraded then 1 else 0)\<rparr>"
    unfolding w' by (simp add: world_simps time_since_def same) (simp add: time_now_def same)
  show ?thesis using request_features_result [OF r] answer by (auto simp: tels)
qed

text \<open>
  C37. Every actor has an endpoint of its own. Two lookups use the same URL exactly when the trimmed ids
  are equal, and what follows the fixed part of the path has no byte that could start another
  segment, a query, a fragment or a parameter.
\<close>

theorem feature_endpoint_injective:
  "(endpoint p a = endpoint p b \<longleftrightarrow> a = b) \<and>
   (\<exists>segment. endpoint p a = hp_baseURL p @ ''/v1/features/'' @ segment \<and> set segment \<inter> set ''/?#;,'' = {} \<and>
     unescape segment = a)"
proof -
  have "PathEscape a = PathEscape b \<Longrightarrow> a = b" by (metis unescape_PathEscape)
  then have "endpoint p a = endpoint p b \<longleftrightarrow> a = b" by (auto simp: endpoint_def)
  moreover have "\<exists>segment. endpoint p a = hp_baseURL p @ ''/v1/features/'' @ segment \<and>
      set segment \<inter> set ''/?#;,'' = {} \<and> unescape segment = a"
    by (rule exI [of _ "PathEscape a"]) (simp only: endpoint_def PathEscape_safe unescape_PathEscape simp_thms)
  ultimately show ?thesis by blast
qed

text \<open>A feature service that knows every actor, and a lookup of an id with a space in front.\<close>

definition sample_net :: "'r net" where
  "sample_net = \<lparr>nt_DefaultClient = (\<lambda>c t u w. (Inr (200, u), w)), nt_NewRequest = (\<lambda>u. None),
     nt_Decode = (\<lambda>body. Inr (zero_ActorFeatures\<lparr>af_Publishes1H := 3\<rparr>))\<rparr>"

definition sample_provider :: "unit HTTPFeatureProvider" where
  "sample_provider = NewHTTPFeatureProvider sample_net ''http://features/'' 0 None"

lemma sample_provider_url:
  "hp_baseURL sample_provider = ''http://features''" "TrimSpace '' a1'' = ''a1''"
  by code_simp+

theorem http_features_own_actor_witness:
  "\<exists>features w'. HTTP_GetActorFeatures sample_net (Some sample_provider) background '' a1'' (start_world ()) =
     ((features, False), w') \<and> af_ActorID features = ''a1'' \<and> FeatureLookupDegradedTotal (tel w') = 0"
proof -
  obtain features degraded w' where
    run: "HTTP_GetActorFeatures sample_net (Some sample_provider) background '' a1'' (start_world ()) = ((features, degraded), w')"
    by (cases "HTTP_GetActorFeatures sample_net (Some sample_provider) background '' a1'' (start_world ())") auto
  have client: "hp_client sample_provider = (\<lambda>c t u w. (Inr (200, u), w))"
    by (simp add: sample_provider_def NewHTTPFeatureProvider_def sample_net_def)
  have deg: "\<not> degraded"
    using run by (auto simp: HTTP_GetActorFeatures_def request_features_def sample_provider_url client Let_def
        sample_net_def zero_ActorFeatures_def split: prod.splits)
  have "\<forall>p c t u (w :: unit world). Some sample_provider = Some p \<longrightarrow> tel (snd (hp_client p c t u w)) = tel w"
    using client by simp
  from http_features_own_actor [OF run this] deg
  have "af_ActorID features = TrimSpace '' a1''" "FeatureLookupDegradedTotal (tel w') = 0"
    by (simp_all add: start_world_def telemetry_init_def)
  with run deg show ?thesis by (simp add: sample_provider_url)
qed

end
