(* ===== verification/Decision_Sink.thy ===== *)
theory Decision_Sink
  imports Engine "HOL-Library.Sublist"
begin

text \<open>
  \<open>internal/sink/sink.go\<close> and what its implementations share. A decision sink is a value of the
  engine's interface \<open>AuditSink\<close>. The Kafka sink and the audit writer both put a record on a
  buffered channel or let it go; the locale \<open>bounded_sink\<close> is that contract, with the lemmas on
  any sequence of offers that its clients use.
\<close>

section \<open>MultiDecisionSink\<close>

text \<open>The sinks of a \<open>MultiDecisionSink\<close>, nil or not, are called one after the other.\<close>

definition MultiDecisionSink_Enqueue :: "'r AuditSink option list \<Rightarrow> 'r AuditSink" where
  "MultiDecisionSink_Enqueue sinks c record =
     fold (\<lambda>sink w. case sink of None \<Rightarrow> w | Some Enqueue \<Rightarrow> Enqueue c record w) sinks"

lemma MultiDecisionSink_frame:
  assumes "\<And>sink w. Some sink \<in> set sinks \<Longrightarrow> engine_frame w (sink c entry w)"
  shows "engine_frame w (MultiDecisionSink_Enqueue sinks c entry w)"
  using assms
proof (induction sinks arbitrary: w)
  case Nil
  then show ?case by (simp add: MultiDecisionSink_Enqueue_def)
next
  case (Cons sink sinks)
  let ?w = "case sink of None \<Rightarrow> w | Some e \<Rightarrow> e c entry w"
  have "engine_frame w ?w" using Cons.prems by (simp split: option.split)
  moreover have "engine_frame ?w (MultiDecisionSink_Enqueue sinks c entry ?w)"
    using Cons by simp
  ultimately show ?case
    by (simp add: MultiDecisionSink_Enqueue_def) (rule engine_frame_trans)
qed

section \<open>A sink in the memory of the process\<close>

text \<open>
  The engine gets a pointer to a sink object. With the object kept in the component \<open>ext\<close> of the world,
  where \<open>get\<close> reads and \<open>put\<close> writes it, the interface value is the method on the object there.
\<close>

definition sink_at ::
    "('r \<Rightarrow> 's) \<Rightarrow> ('s \<Rightarrow> 'r \<Rightarrow> 'r) \<Rightarrow> (ctx \<Rightarrow> AuditRecord \<Rightarrow> 's \<times> 'r world \<Rightarrow> 's \<times> 'r world) \<Rightarrow> 'r AuditSink" where
  "sink_at get put enqueue c entry w =
     (case enqueue c entry (get (ext w), w) of (s, w') \<Rightarrow> w'\<lparr>ext := put s (ext w')\<rparr>)"

section \<open>The contract of a bounded sink\<close>

text \<open>
  An offer of a record to a sink: the context of the request, the choice that a \<open>select\<close> makes when
  several of its cases are ready, and the record.
\<close>

type_synonym offer = "ctx \<times> bool \<times> AuditRecord"

text \<open>
  What a sink with state \<open>'s\<close> promises. An offer is accepted at the end of the queue, dropped because
  the queue is full (and then counted), or refused; a closed sink accepts nothing, and an open one
  accepts or counts every record offered under a live context. An offer changes neither capacity nor
  openness, nothing that only the engine writes, and nothing of the other systems.
\<close>

locale bounded_sink =
  fixes enqueue :: "ctx \<Rightarrow> bool \<Rightarrow> AuditRecord \<Rightarrow> 's \<times> 'r world \<Rightarrow> 's \<times> 'r world"
    and queue :: "'s \<Rightarrow> AuditRecord list"
    and capacity :: "'s \<Rightarrow> nat"
    and closed :: "'s \<Rightarrow> bool"
    and dropped :: "'s \<Rightarrow> nat"
  assumes enqueue_cases:
    "enqueue c pick entry (s, w) = (s', w') \<Longrightarrow>
       (queue s' = queue s @ [entry] \<and> dropped s' = dropped s \<and> length (queue s) < capacity s \<and> \<not> closed s) \<or>
       (queue s' = queue s \<and> dropped s' = Suc (dropped s) \<and> capacity s \<le> length (queue s) \<and> \<not> closed s) \<or>
       (queue s' = queue s \<and> dropped s' = dropped s)"
    and enqueue_keeps: "enqueue c pick entry (s, w) = (s', w') \<Longrightarrow> capacity s' = capacity s \<and> closed s' = closed s"
    and enqueue_live:
    "enqueue c pick entry (s, w) = (s', w') \<Longrightarrow> \<not> closed s \<Longrightarrow> (\<And>n. c n = None) \<Longrightarrow>
       queue s' \<noteq> queue s \<or> dropped s' \<noteq> dropped s"
    and enqueue_frame: "enqueue c pick entry (s, w) = (s', w') \<Longrightarrow> engine_frame w w' \<and> ext w' = ext w"
begin

fun offers :: "offer list \<Rightarrow> 's \<times> 'r world \<Rightarrow> 's \<times> 'r world" where
  "offers [] sw = sw"
| "offers ((c, pick, entry) # os) sw = offers os (enqueue c pick entry sw)"

lemma enqueue_bounded:
  "enqueue c pick entry (s, w) = (s', w') \<Longrightarrow> length (queue s) \<le> capacity s \<Longrightarrow>
     length (queue s') \<le> capacity s'"
  using enqueue_cases enqueue_keeps by fastforce

lemma enqueue_closed:
  "enqueue c pick entry (s, w) = (s', w') \<Longrightarrow> closed s \<Longrightarrow> queue s' = queue s \<and> dropped s' = dropped s"
  using enqueue_cases by blast

text \<open>
  After any offers the queue holds the old records and then some of the offered ones, in the order of
  the offers; it is never longer than the channel is.
\<close>

lemma offers_subseq:
  assumes "offers os (s, w) = (s', w')" and "length (queue s) \<le> capacity s"
  shows "\<exists>accepted. queue s' = queue s @ accepted \<and> subseq accepted (map (\<lambda>x. snd (snd x)) os) \<and>
    length (queue s') \<le> capacity s' \<and> capacity s' = capacity s \<and> closed s' = closed s \<and>
    engine_frame w w' \<and> ext w' = ext w"
  using assms
proof (induction os arbitrary: s w)
  case Nil
  then show ?case by (auto intro: exI [of _ "[]"])
next
  case (Cons offer os)
  obtain c pick entry where offer: "offer = (c, pick, entry)" by (cases offer)
  obtain s1 w1 where one: "enqueue c pick entry (s, w) = (s1, w1)" by (cases "enqueue c pick entry (s, w)")
  with Cons.prems offer have rest: "offers os (s1, w1) = (s', w')" by simp
  from Cons.IH [OF rest enqueue_bounded [OF one Cons.prems(2)]] obtain accepted where
    a: "queue s' = queue s1 @ accepted" "subseq accepted (map (\<lambda>x. snd (snd x)) os)"
      "length (queue s') \<le> capacity s'" "capacity s' = capacity s1" "closed s' = closed s1"
      "engine_frame w1 w'" "ext w' = ext w1" by blast
  have keep: "capacity s1 = capacity s" "closed s1 = closed s" "engine_frame w w1" "ext w1 = ext w"
    using enqueue_keeps [OF one] enqueue_frame [OF one] by auto
  have frame: "engine_frame w w'" by (rule engine_frame_trans [OF keep(3) a(6)])
  from enqueue_cases [OF one] consider "queue s1 = queue s @ [entry]" | "queue s1 = queue s" by blast
  then show ?case
  proof cases
    case 1
    with a keep frame offer show ?thesis by (intro exI [of _ "entry # accepted"]) simp
  next
    case 2
    with a keep frame offer show ?thesis
      by (intro exI [of _ accepted]) (auto intro: list_emb_Cons)
  qed
qed

text \<open>Under live contexts an open sink accounts for every offer: it is queued or counted as dropped.\<close>

lemma offers_accounted:
  assumes "offers os (s, w) = (s', w')" and "\<not> closed s" and "\<forall>(c, _) \<in> set os. \<forall>n. c n = None"
  shows "length (queue s') + dropped s' = length (queue s) + dropped s + length os"
  using assms
proof (induction os arbitrary: s w)
  case Nil
  then show ?case by simp
next
  case (Cons offer os)
  obtain c pick entry where offer: "offer = (c, pick, entry)" by (cases offer)
  obtain s1 w1 where one: "enqueue c pick entry (s, w) = (s1, w1)" by (cases "enqueue c pick entry (s, w)")
  with Cons.prems offer have rest: "offers os (s1, w1) = (s', w')" by simp
  have live: "c n = None" for n using Cons.prems(3) offer by simp
  have "length (queue s1) + dropped s1 = Suc (length (queue s) + dropped s)"
    using enqueue_cases [OF one] enqueue_live [OF one Cons.prems(2) live] by auto
  moreover have "\<not> closed s1" using enqueue_keeps [OF one] Cons.prems(2) by simp
  ultimately show ?case using Cons.IH [OF rest] Cons.prems(3) by simp
qed

text \<open>The sink as the engine sees it: it keeps the frame, and an offer under a live context is accounted for.\<close>

lemma sink_at_frame: "engine_frame w (sink_at get put (\<lambda>c. enqueue c pick) c entry w)"
proof -
  obtain s w' where one: "enqueue c pick entry (get (ext w), w) = (s, w')"
    by (cases "enqueue c pick entry (get (ext w), w)")
  from enqueue_frame [OF one] show ?thesis by (simp add: sink_at_def one engine_frame_def)
qed

lemma sink_at_offer:
  assumes lens: "\<And>s w'. enqueue c pick entry (get (ext w), w) = (s, w') \<Longrightarrow> get (put s (ext w)) = s"
    and live: "\<And>n. c n = None"
  defines "old \<equiv> get (ext w)" and "new \<equiv> get (ext (sink_at get put (\<lambda>c. enqueue c pick) c entry w))"
  shows "queue new = (if closed old \<or> capacity old \<le> length (queue old) then queue old else queue old @ [entry])"
    and "dropped new = dropped old + (if \<not> closed old \<and> capacity old \<le> length (queue old) then 1 else 0)"
proof -
  obtain s w' where one: "enqueue c pick entry (old, w) = (s, w')" by (cases "enqueue c pick entry (old, w)")
  then have "new = s" unfolding old_def new_def using lens enqueue_frame [OF one] by (simp add: sink_at_def old_def)
  with enqueue_cases [OF one] enqueue_live [OF one _ live] enqueue_closed [OF one]
  show "queue new = (if closed old \<or> capacity old \<le> length (queue old) then queue old else queue old @ [entry])"
    "dropped new = dropped old + (if \<not> closed old \<and> capacity old \<le> length (queue old) then 1 else 0)"
    by auto
qed

end

end
