(* ===== verification/Kafka_Sink.thy ===== *)
theory Kafka_Sink
  imports Decision_Sink
begin

text \<open>
  \<open>internal/sink/kafka.go\<close>: the bounded queue of decision records and the goroutine that publishes
  them. \<open>Enqueue\<close> runs under the mutex and is one operation; \<open>Run\<close> is a state machine whose steps
  lie between the offers of the request goroutines. JSON encoding, time formatting and the
  publisher (the interface that the franz-go client implements) are parameters.
\<close>

section \<open>The sink\<close>

record DecisionEvent =
  de_EventID :: string
  de_TopicVersion :: string
  de_ActorID :: string
  de_ActionType :: string
  de_Platform :: string
  de_Verdict :: string
  de_Score :: rat
  de_Reasons :: "Reason list"
  de_DecisionID :: string
  de_Client :: string
  de_OccurredAt :: string

record codec =
  cd_Marshal :: "DecisionEvent \<Rightarrow> string + string"
  cd_Format :: "int \<Rightarrow> string"

text \<open>\<open>Publish\<close> takes a context, the topic, the key and the value, and returns the text of its error.\<close>

type_synonym 'r Publisher = "ctx \<Rightarrow> string \<Rightarrow> string \<Rightarrow> string \<Rightarrow> 'r world \<Rightarrow> string option \<times> 'r world"

record 'r KafkaDecisionSinkConfig =
  kd_Topic :: string
  kd_QueueSize :: int
  kd_Publisher :: "'r Publisher option"

record 'r KafkaDecisionSink =
  ks_topic :: string
  ks_queue :: "AuditRecord list"
  ks_capacity :: nat
  ks_publisher :: "'r Publisher option"
  ks_closed :: bool
  ks_dropped :: nat

definition updateQueueDepth :: "'r KafkaDecisionSink \<Rightarrow> 'r world \<Rightarrow> 'r world" where
  "updateQueueDepth s = tel_upd (\<lambda>t. t\<lparr>KafkaSinkQueueDepth := length (ks_queue s)\<rparr>)"

definition NewKafkaDecisionSink ::
    "'r KafkaDecisionSinkConfig \<Rightarrow> 'r world \<Rightarrow> 'r KafkaDecisionSink \<times> 'r world" where
  "NewKafkaDecisionSink cfg w =
     (let topic = (if kd_Topic cfg = [] then ''pds.decisions.v1'' else kd_Topic cfg);
          queueSize = (if kd_QueueSize cfg \<le> 0 then 10000 else kd_QueueSize cfg);
          s = \<lparr>ks_topic = topic, ks_queue = [], ks_capacity = nat queueSize,
               ks_publisher = kd_Publisher cfg, ks_closed = False, ks_dropped = 0\<rparr>
      in (s, updateQueueDepth s w))"

text \<open>
  \<open>None\<close> is a nil pointer (or a zero struct, whose queue is nil). The \<open>select\<close> chooses at random when the
  context is done and the queue has room: \<open>pick\<close> is that choice, true for the case of the context.
\<close>

definition Kafka_Enqueue ::
    "ctx \<Rightarrow> bool \<Rightarrow> AuditRecord \<Rightarrow> 'r KafkaDecisionSink option \<times> 'r world
       \<Rightarrow> 'r KafkaDecisionSink option \<times> 'r world" where
  "Kafka_Enqueue c pick entry = (\<lambda>(ptr, w).
     case ptr of None \<Rightarrow> (None, w)
     | Some s \<Rightarrow>
         (case poll c w of
            (Some _, w) \<Rightarrow> (Some s, w)
          | (None, w) \<Rightarrow>
              if ks_closed s then (Some s, w)
              else
                (case poll c w of (done, w) \<Rightarrow>
                   let room = length (ks_queue s) < ks_capacity s in
                   if done \<noteq> None \<and> (pick \<or> \<not> room) then (Some s, w)
                   else if room then
                     let s = s\<lparr>ks_queue := ks_queue s @ [entry]\<rparr> in (Some s, updateQueueDepth s w)
                   else
                     let s = s\<lparr>ks_dropped := Suc (ks_dropped s)\<rparr>;
                         w = tel_upd (\<lambda>t. t\<lparr>KafkaSinkDroppedTotal := Suc (KafkaSinkDroppedTotal t)\<rparr>) w
                     in (Some s, updateQueueDepth s w))))"

definition Kafka_Dropped :: "'r KafkaDecisionSink option \<Rightarrow> nat" where
  "Kafka_Dropped ptr = (case ptr of None \<Rightarrow> 0 | Some s \<Rightarrow> ks_dropped s)"

definition count_publish_error :: "'r world \<Rightarrow> 'r world" where
  "count_publish_error =
     tel_upd (\<lambda>t. t\<lparr>KafkaSinkPublishErrorsTotal := Suc (KafkaSinkPublishErrorsTotal t)\<rparr>)"

lemma count_publish_error_counts:
  "KafkaSinkPublishErrorsTotal (tel (count_publish_error w)) = Suc (KafkaSinkPublishErrorsTotal (tel w))"
  by (simp add: count_publish_error_def world_simps)

definition publish ::
    "codec \<Rightarrow> ctx \<Rightarrow> 'r KafkaDecisionSink \<Rightarrow> AuditRecord \<Rightarrow> 'r world \<Rightarrow> string option \<times> 'r world" where
  "publish cd c s entry w =
     (case ks_publisher s of None \<Rightarrow> (None, w) | Some Publish \<Rightarrow>
      case new_uuid w of (uuid, w) \<Rightarrow>
      case time_now w of (now, w) \<Rightarrow>
      let event = \<lparr>de_EventID = uuid, de_TopicVersion = ks_topic s, de_ActorID = ar_ActorID entry,
                   de_ActionType = ar_ActionType entry, de_Platform = ar_Platform entry,
                   de_Verdict = ar_Verdict entry, de_Score = ar_Score entry,
                   de_Reasons = ar_Reasons entry, de_DecisionID = ar_DecisionID entry,
                   de_Client = ar_Client entry, de_OccurredAt = cd_Format cd now\<rparr> in
      case cd_Marshal cd event of
        Inl err \<Rightarrow> (Some err, count_publish_error w)
      | Inr payload \<Rightarrow>
          (case Publish c (ks_topic s) (ar_ActorID entry) payload w of
             (Some err, w) \<Rightarrow> (Some err, count_publish_error w)
           | (None, w) \<Rightarrow> (None, w)))"

text \<open>\<open>publishAndCount\<close>, and \<open>publishWithTimeout\<close> with the context that it makes: the error is ignored.\<close>

definition publishAndCount ::
    "codec \<Rightarrow> ctx \<Rightarrow> 'r KafkaDecisionSink \<Rightarrow> AuditRecord \<Rightarrow> 'r world \<Rightarrow> 'r world" where
  "publishAndCount cd c s entry w = snd (publish cd c s entry w)"

definition close_sink :: "'r KafkaDecisionSink \<Rightarrow> 'r KafkaDecisionSink" where
  "close_sink s = s\<lparr>ks_closed := True\<rparr>"

section \<open>The goroutine\<close>

text \<open>
  Where \<open>Run\<close> is: in its \<open>select\<close>, with a record it has just received, in \<open>drain\<close> with the records it was
  given and has not published yet, or returned. A \<open>select\<close> takes one of its ready cases.
\<close>

datatype kafka_pc = Selecting | Received AuditRecord | Draining "AuditRecord list" | Stopped

datatype ready_case = DoneCase | RecordCase | DefaultCase

text \<open>
  One step of \<open>Run\<close>: the new place, sink and world, with the records that the step tried to publish;
  nothing if the case is not ready. \<open>c\<close> is the context of \<open>Run\<close>, \<open>pc\<close> that of one publish with its
  timeout, \<open>dc\<close> that of \<open>drain\<close> with its timeout.
\<close>

fun kafka_run_step ::
    "codec \<Rightarrow> ctx \<Rightarrow> ctx \<Rightarrow> ctx \<Rightarrow> ready_case \<Rightarrow> kafka_pc \<Rightarrow> 'r KafkaDecisionSink \<Rightarrow> 'r world
       \<Rightarrow> (kafka_pc \<times> 'r KafkaDecisionSink \<times> 'r world \<times> AuditRecord list) option" where
  "kafka_run_step cd c pc dc DoneCase Selecting s w =
     (case poll c w of
        (None, w) \<Rightarrow> None
      | (Some _, w) \<Rightarrow> Some (Draining [], close_sink s, w, []))"
| "kafka_run_step cd c pc dc RecordCase Selecting s w =
     (case ks_queue s of
        [] \<Rightarrow> None
      | entry # rest \<Rightarrow>
          let s = s\<lparr>ks_queue := rest\<rparr> in Some (Received entry, s, updateQueueDepth s w, []))"
| "kafka_run_step cd c pc dc DefaultCase Selecting s w = None"
| "kafka_run_step cd c pc dc _ (Received entry) s w =
     (case poll c w of
        (Some _, w) \<Rightarrow> Some (Draining [entry], close_sink s, w, [])
      | (None, w) \<Rightarrow> Some (Selecting, s, updateQueueDepth s (publishAndCount cd pc s entry w), [entry]))"
| "kafka_run_step cd c pc dc _ (Draining (entry # rest)) s w =
     Some (Draining rest, s, updateQueueDepth s (publishAndCount cd dc s entry w), [entry])"
| "kafka_run_step cd c pc dc RecordCase (Draining []) s w =
     (case ks_queue s of
        [] \<Rightarrow> None
      | entry # rest \<Rightarrow>
          let s = s\<lparr>ks_queue := rest\<rparr> in
          Some (Draining [], s,
            updateQueueDepth s (publishAndCount cd dc s entry (updateQueueDepth s w)), [entry]))"
| "kafka_run_step cd c pc dc DoneCase (Draining []) s w =
     (case poll dc w of
        (None, w) \<Rightarrow> None
      | (Some _, w) \<Rightarrow> Some (Stopped, s, updateQueueDepth s w, []))"
| "kafka_run_step cd c pc dc DefaultCase (Draining []) s w =
     (case poll dc w of
        (Some _, w) \<Rightarrow> None
      | (None, w) \<Rightarrow> if ks_queue s = [] then Some (Stopped, s, updateQueueDepth s w, []) else None)"
| "kafka_run_step cd c pc dc _ Stopped s w = None"

section \<open>The contract of a bounded sink\<close>

definition kafka_queue :: "'r KafkaDecisionSink option \<Rightarrow> AuditRecord list" where
  "kafka_queue ptr = (case ptr of None \<Rightarrow> [] | Some s \<Rightarrow> ks_queue s)"

definition kafka_capacity :: "'r KafkaDecisionSink option \<Rightarrow> nat" where
  "kafka_capacity ptr = (case ptr of None \<Rightarrow> 0 | Some s \<Rightarrow> ks_capacity s)"

definition kafka_closed :: "'r KafkaDecisionSink option \<Rightarrow> bool" where
  "kafka_closed ptr = (case ptr of None \<Rightarrow> True | Some s \<Rightarrow> ks_closed s)"

lemmas kafka_view = kafka_queue_def kafka_capacity_def kafka_closed_def Kafka_Dropped_def

lemma updateQueueDepth_simps [world_simps]:
  "ext (updateQueueDepth s w) = ext w" "polls (updateQueueDepth s w) = polls w"
  "KafkaSinkDroppedTotal (tel (updateQueueDepth s w)) = KafkaSinkDroppedTotal (tel w)"
  "KafkaSinkPublishErrorsTotal (tel (updateQueueDepth s w)) = KafkaSinkPublishErrorsTotal (tel w)"
  "KafkaSinkQueueDepth (tel (updateQueueDepth s w)) = length (ks_queue s)"
  by (simp_all add: updateQueueDepth_def world_simps)

lemma Kafka_Enqueue_outcome:
  assumes "Kafka_Enqueue c pick entry (Some s, w) = (ptr, w')"
  obtains (accepted) "ptr = Some (s\<lparr>ks_queue := ks_queue s @ [entry]\<rparr>)" "\<not> ks_closed s"
      "length (ks_queue s) < ks_capacity s" "KafkaSinkDroppedTotal (tel w') = KafkaSinkDroppedTotal (tel w)"
  | (full) "ptr = Some (s\<lparr>ks_dropped := Suc (ks_dropped s)\<rparr>)" "\<not> ks_closed s"
      "ks_capacity s \<le> length (ks_queue s)" "KafkaSinkDroppedTotal (tel w') = Suc (KafkaSinkDroppedTotal (tel w))"
  | (refused) "ptr = Some s" "ks_closed s \<or> (\<exists>n. c n \<noteq> None)"
      "KafkaSinkDroppedTotal (tel w') = KafkaSinkDroppedTotal (tel w)"
proof (cases "c (polls w)")
  case (Some e)
  with assms show ?thesis
    by (intro refused) (auto simp: Kafka_Enqueue_def poll_def)
next
  case None
  show ?thesis
  proof (cases "ks_closed s")
    case True
    with assms None show ?thesis by (intro refused) (auto simp: Kafka_Enqueue_def poll_def)
  next
    case open': False
    let ?done = "c (Suc (polls w))" and ?room = "length (ks_queue s) < ks_capacity s"
    consider "?done \<noteq> None \<and> (pick \<or> \<not> ?room)" | "\<not> (?done \<noteq> None \<and> (pick \<or> \<not> ?room))" "?room"
      | "\<not> (?done \<noteq> None \<and> (pick \<or> \<not> ?room))" "\<not> ?room" by blast
    then show ?thesis
    proof cases
      case 1
      with assms None open' show ?thesis
        by (intro refused) (auto simp: Kafka_Enqueue_def poll_def Let_def)
    next
      case 2
      with assms None open' show ?thesis
        by (intro accepted) (auto simp: Kafka_Enqueue_def poll_def Let_def world_simps)
    next
      case 3
      with assms None open' show ?thesis
        by (intro full) (auto simp: Kafka_Enqueue_def poll_def Let_def world_simps)
    qed
  qed
qed

lemma Kafka_Enqueue_frame:
  "Kafka_Enqueue c pick entry (ptr, w) = (ptr', w') \<Longrightarrow> engine_frame w w' \<and> ext w' = ext w"
  by (auto simp: Kafka_Enqueue_def poll_def Let_def engine_frame_def updateQueueDepth_def tel_upd_def
      split: option.splits if_splits)

interpretation kafka: bounded_sink Kafka_Enqueue kafka_queue kafka_capacity kafka_closed Kafka_Dropped
proof
  fix c pick entry and ptr ptr' :: "'r KafkaDecisionSink option" and w w' :: "'r world"
  assume run: "Kafka_Enqueue c pick entry (ptr, w) = (ptr', w')"
  show "engine_frame w w' \<and> ext w' = ext w" by (rule Kafka_Enqueue_frame [OF run])
  show "(kafka_queue ptr' = kafka_queue ptr @ [entry] \<and> Kafka_Dropped ptr' = Kafka_Dropped ptr \<and>
      length (kafka_queue ptr) < kafka_capacity ptr \<and> \<not> kafka_closed ptr) \<or>
    (kafka_queue ptr' = kafka_queue ptr \<and> Kafka_Dropped ptr' = Suc (Kafka_Dropped ptr) \<and>
      kafka_capacity ptr \<le> length (kafka_queue ptr) \<and> \<not> kafka_closed ptr) \<or>
    (kafka_queue ptr' = kafka_queue ptr \<and> Kafka_Dropped ptr' = Kafka_Dropped ptr)"
  proof (cases ptr)
    case None
    with run show ?thesis by (simp add: Kafka_Enqueue_def)
  next
    case (Some s)
    from run [unfolded Some] show ?thesis
      by (cases rule: Kafka_Enqueue_outcome) (simp_all add: Some kafka_view)
  qed
  show "kafka_capacity ptr' = kafka_capacity ptr \<and> kafka_closed ptr' = kafka_closed ptr"
  proof (cases ptr)
    case None
    with run show ?thesis by (simp add: Kafka_Enqueue_def)
  next
    case (Some s)
    from run [unfolded Some] show ?thesis
      by (cases rule: Kafka_Enqueue_outcome) (simp_all add: Some kafka_view)
  qed
  assume "\<not> kafka_closed ptr" and "\<And>n. c n = None"
  then obtain s where "ptr = Some s" "\<not> ks_closed s" by (cases ptr) (auto simp: kafka_view)
  with run \<open>\<And>n. c n = None\<close> show "kafka_queue ptr' \<noteq> kafka_queue ptr \<or> Kafka_Dropped ptr' \<noteq> Kafka_Dropped ptr"
    by (auto simp: kafka_view elim!: Kafka_Enqueue_outcome)
qed

section \<open>The sink between the request goroutines and its own\<close>

text \<open>
  The whole system: the sink, where \<open>Run\<close> is, the world, and two histories that the code does not
  keep: the records that offers put on the queue and those that \<open>Run\<close> tried to publish.
\<close>

record 'r kafka_system =
  sy_sink :: "'r KafkaDecisionSink"
  sy_pc :: kafka_pc
  sy_world :: "'r world"
  sy_accepted :: "AuditRecord list"
  sy_published :: "AuditRecord list"

definition kafka_start :: "'r KafkaDecisionSinkConfig \<Rightarrow> 'r world \<Rightarrow> 'r kafka_system" where
  "kafka_start cfg w = (case NewKafkaDecisionSink cfg w of (s, w) \<Rightarrow>
     \<lparr>sy_sink = s, sy_pc = Selecting, sy_world = w, sy_accepted = [], sy_published = []\<rparr>)"

text \<open>
  A step is an offer under the context of its request, a step of \<open>Run\<close>, or a step of the rest of the
  program, which does not touch the drop counter and observes contexts on its own.
\<close>

inductive kafka_step ::
    "codec \<Rightarrow> ctx \<Rightarrow> ctx \<Rightarrow> 'r kafka_system \<Rightarrow> 'r kafka_system \<Rightarrow> bool" for cd c dc where
  offer: "Kafka_Enqueue rc pick entry (Some (sy_sink y), sy_world y) = (Some s, w) \<Longrightarrow>
    kafka_step cd c dc y (y\<lparr>sy_sink := s, sy_world := w,
      sy_accepted := sy_accepted y @ (if ks_queue s = ks_queue (sy_sink y) then [] else [entry])\<rparr>)"
| run: "kafka_run_step cd c pc dc rdy (sy_pc y) (sy_sink y) (sy_world y) = Some (here, s, w, tried) \<Longrightarrow>
    kafka_step cd c dc y (y\<lparr>sy_sink := s, sy_pc := here, sy_world := w, sy_published := sy_published y @ tried\<rparr>)"
| other: "KafkaSinkDroppedTotal (tel w) = KafkaSinkDroppedTotal (tel (sy_world y)) \<Longrightarrow>
    kafka_step cd c dc y (y\<lparr>sy_world := w\<rparr>)"

inductive kafka_reachable ::
    "codec \<Rightarrow> ctx \<Rightarrow> ctx \<Rightarrow> 'r KafkaDecisionSinkConfig \<Rightarrow> 'r world \<Rightarrow> 'r kafka_system \<Rightarrow> bool" for cd c dc cfg w0 where
  start: "kafka_reachable cd c dc cfg w0 (kafka_start cfg w0)"
| step: "kafka_reachable cd c dc cfg w0 y \<Longrightarrow> kafka_step cd c dc y z \<Longrightarrow> kafka_reachable cd c dc cfg w0 z"

text \<open>The records that \<open>Run\<close> has taken from the queue and not yet tried to publish.\<close>

fun held :: "kafka_pc \<Rightarrow> AuditRecord list" where
  "held (Received entry) = [entry]"
| "held (Draining rest) = rest"
| "held Selecting = []"
| "held Stopped = []"

fun stopping :: "kafka_pc \<Rightarrow> bool" where
  "stopping (Draining rest) = True"
| "stopping Stopped = True"
| "stopping Selecting = False"
| "stopping (Received entry) = False"

definition kafka_inv :: "ctx \<Rightarrow> nat \<Rightarrow> 'r kafka_system \<Rightarrow> bool" where
  "kafka_inv dc base y \<longleftrightarrow>
     sy_accepted y = sy_published y @ held (sy_pc y) @ ks_queue (sy_sink y) \<and>
     length (ks_queue (sy_sink y)) \<le> ks_capacity (sy_sink y) \<and>
     ks_closed (sy_sink y) = stopping (sy_pc y) \<and>
     KafkaSinkDroppedTotal (tel (sy_world y)) = base + ks_dropped (sy_sink y) \<and>
     (sy_pc y = Stopped \<longrightarrow> ks_queue (sy_sink y) = [] \<or> (\<exists>n. dc n \<noteq> None))"

lemma publish_dropped [world_simps]:
  assumes "\<And>P c t k v w. ks_publisher s = Some P \<Longrightarrow>
      KafkaSinkDroppedTotal (tel (snd (P c t k v w))) = KafkaSinkDroppedTotal (tel w)"
  shows "KafkaSinkDroppedTotal (tel (publishAndCount cd c s entry w)) = KafkaSinkDroppedTotal (tel w)"
proof -
  have p: "KafkaSinkDroppedTotal (tel w2) = KafkaSinkDroppedTotal (tel w1)"
    if "ks_publisher s = Some P" "P c t k v w1 = (out, w2)" for P t k v w1 out w2
    using assms [OF that(1), of c t k v w1] that(2) by simp
  show ?thesis
    by (auto simp: publishAndCount_def publish_def Let_def new_uuid_def time_now_def count_publish_error_def
        tel_upd_def dest: p split: option.splits sum.splits prod.splits)
qed

text \<open>A publisher is lawful if it leaves the drop counter of the sink alone.\<close>

definition lawful_publisher :: "'r KafkaDecisionSink \<Rightarrow> bool" where
  "lawful_publisher s \<longleftrightarrow> (\<forall>P c t k v w. ks_publisher s = Some P \<longrightarrow>
     KafkaSinkDroppedTotal (tel (snd (P c t k v w))) = KafkaSinkDroppedTotal (tel w))"

lemma kafka_run_step_inv:
  assumes "kafka_run_step cd c pc dc rdy (sy_pc y) (sy_sink y) (sy_world y) = Some (here, s, w, tried)"
    and "kafka_inv dc base y" and "lawful_publisher (sy_sink y)"
  shows "kafka_inv dc base (y\<lparr>sy_sink := s, sy_pc := here, sy_world := w, sy_published := sy_published y @ tried\<rparr>) \<and>
    ks_publisher s = ks_publisher (sy_sink y)"
proof -
  have pub: "KafkaSinkDroppedTotal (tel (publishAndCount cd c' (sy_sink y\<lparr>ks_queue := q\<rparr>) entry w)) =
      KafkaSinkDroppedTotal (tel w)"
    "KafkaSinkDroppedTotal (tel (publishAndCount cd c' (sy_sink y) entry w)) = KafkaSinkDroppedTotal (tel w)"
    for c' q entry w
    using assms(3) by (intro publish_dropped; simp add: lawful_publisher_def)+
  obtain s0 pc0 w0 acc tri where y: "y = \<lparr>sy_sink = s0, sy_pc = pc0, sy_world = w0, sy_accepted = acc, sy_published = tri\<rparr>"
    by (cases y)
  from assms(1,2) pub show ?thesis unfolding y
    by (cases pc0; cases rdy; cases "held pc0")
      (auto simp: kafka_inv_def close_sink_def poll_def Let_def world_simps split: option.splits list.splits if_splits)
qed

lemma kafka_step_inv:
  assumes "kafka_step cd c dc y z" and "kafka_inv dc base y" and "lawful_publisher (sy_sink y)"
  shows "kafka_inv dc base z \<and> ks_publisher (sy_sink z) = ks_publisher (sy_sink y) \<and>
    ks_capacity (sy_sink z) = ks_capacity (sy_sink y)"
  using assms
proof (induction rule: kafka_step.induct)
  case (offer rc pick entry y s w)
  from offer.hyps show ?case
    by (cases rule: Kafka_Enqueue_outcome) (use offer.prems in \<open>auto simp: kafka_inv_def\<close>)
next
  case (run pc rdy y here s w tried)
  have "ks_capacity s = ks_capacity (sy_sink y)"
    using run.hyps by (cases "sy_pc y"; cases rdy; cases "held (sy_pc y)")
      (auto simp: close_sink_def Let_def split: option.splits list.splits if_splits prod.splits)
  with kafka_run_step_inv [OF run.hyps run.prems] show ?case by simp
next
  case (other w y)
  then show ?case by (simp add: kafka_inv_def)
qed

lemma kafka_reachable_inv:
  assumes "kafka_reachable cd c dc cfg w0 y"
    and "\<And>P c t k v w. kd_Publisher cfg = Some P \<Longrightarrow>
      KafkaSinkDroppedTotal (tel (snd (P c t k v w))) = KafkaSinkDroppedTotal (tel w)"
  shows "kafka_inv dc (KafkaSinkDroppedTotal (tel w0)) y \<and> ks_publisher (sy_sink y) = kd_Publisher cfg \<and>
    ks_capacity (sy_sink y) = (if kd_QueueSize cfg \<le> 0 then 10000 else nat (kd_QueueSize cfg))"
  using assms(1)
proof (induction rule: kafka_reachable.induct)
  case start
  show ?case
    by (simp add: kafka_start_def NewKafkaDecisionSink_def kafka_inv_def Let_def world_simps)
next
  case (step y z)
  then have "lawful_publisher (sy_sink y)" using assms(2) by (auto simp: lawful_publisher_def)
  from kafka_step_inv [OF step.hyps(2) conjunct1 [OF step.IH] this] step.IH show ?case by simp
qed

text \<open>What \<open>drain\<close> still has to do: every step of it takes something away.\<close>

fun drain_work :: "kafka_pc \<Rightarrow> 'r KafkaDecisionSink \<Rightarrow> nat" where
  "drain_work (Draining rest) s = Suc (length rest + length (ks_queue s))"
| "drain_work _ s = 0"

section \<open>Properties\<close>

text \<open>
  C11. The Kafka sink neither loses, duplicates nor reorders. In every state that offers and \<open>Run\<close> can reach
  together, the accepted records are exactly those that \<open>Run\<close> has tried to publish, then the ones it
  holds, then the queue, in the order of acceptance; the queue respects its capacity; the metric has
  grown by the number of dropped records; and once \<open>Run\<close> has returned, every accepted record was
  tried, unless the drain timeout cut it short.
\<close>

theorem kafka_sink_fifo:
  assumes "kafka_reachable cd c dc cfg w0 y"
    and "\<forall>P c t k v w. kd_Publisher cfg = Some P \<longrightarrow>
      KafkaSinkDroppedTotal (tel (snd (P c t k v w))) = KafkaSinkDroppedTotal (tel w)"
  shows "sy_accepted y = sy_published y @ held (sy_pc y) @ ks_queue (sy_sink y) \<and>
    length (ks_queue (sy_sink y)) \<le> (if kd_QueueSize cfg \<le> 0 then 10000 else nat (kd_QueueSize cfg)) \<and>
    KafkaSinkDroppedTotal (tel (sy_world y)) = KafkaSinkDroppedTotal (tel w0) + ks_dropped (sy_sink y) \<and>
    (sy_pc y = Stopped \<longrightarrow> sy_accepted y = sy_published y \<or> (\<exists>n. dc n \<noteq> None))"
proof -
  have inv: "kafka_inv dc (KafkaSinkDroppedTotal (tel w0)) y"
    and cap: "ks_capacity (sy_sink y) = (if kd_QueueSize cfg \<le> 0 then 10000 else nat (kd_QueueSize cfg))"
    using kafka_reachable_inv [OF assms(1)] assms(2) by blast+
  show ?thesis using inv unfolding kafka_inv_def cap by auto
qed

text \<open>A run for the witnesses: one offer, then the context of \<open>Run\<close> ends, the queue drains and \<open>Run\<close> returns.\<close>

definition sample_sink_config :: "'r KafkaDecisionSinkConfig" where
  "sample_sink_config = \<lparr>kd_Topic = [], kd_QueueSize = 1, kd_Publisher = None\<rparr>"

definition sample_record :: AuditRecord where
  "sample_record = audit_record sample_request (Combine []) 0"

definition plain_codec :: codec where
  "plain_codec = \<lparr>cd_Marshal = (\<lambda>event. Inr (de_DecisionID event)), cd_Format = (\<lambda>_. [])\<rparr>"

lemma sample_kafka_run:
  "\<exists>y. kafka_reachable cd (\<lambda>_. Some Canceled) background sample_sink_config (start_world ()) y \<and>
     sy_pc y = Stopped \<and> sy_published y = [sample_record]"
proof -
  let ?c = "\<lambda>_. Some Canceled" and ?s = "fst (NewKafkaDecisionSink sample_sink_config (start_world ()))"
  let ?reach = "kafka_reachable cd ?c background sample_sink_config (start_world ())"
  let ?y0 = "kafka_start sample_sink_config (start_world ())"
  have r0: "?reach ?y0" by (rule kafka_reachable.start)
  have offer: "\<exists>w. Kafka_Enqueue background False sample_record (Some (sy_sink ?y0), sy_world ?y0) =
      (Some (?s\<lparr>ks_queue := [sample_record]\<rparr>), w)"
    by (simp add: Kafka_Enqueue_def kafka_start_def NewKafkaDecisionSink_def sample_sink_config_def poll_def Let_def)
  then obtain w1 where o: "Kafka_Enqueue background False sample_record (Some (sy_sink ?y0), sy_world ?y0) =
      (Some (?s\<lparr>ks_queue := [sample_record]\<rparr>), w1)" ..
  let ?y1 = "\<lparr>sy_sink = ?s\<lparr>ks_queue := [sample_record]\<rparr>, sy_pc = Selecting, sy_world = w1,
    sy_accepted = [sample_record], sy_published = []\<rparr>"
  have r1: "?reach ?y1"
    using kafka_reachable.step [OF r0 kafka_step.offer [OF o]]
    by (simp add: kafka_start_def NewKafkaDecisionSink_def sample_sink_config_def Let_def)
  have s2: "kafka_run_step cd ?c background background DoneCase (sy_pc ?y1) (sy_sink ?y1) (sy_world ?y1) =
      Some (Draining [], close_sink (sy_sink ?y1), snd (poll ?c w1), [])"
    by (simp add: poll_def)
  note r2 = kafka_reachable.step [OF r1 kafka_step.run [OF s2]]
  obtain w3 where s3: "kafka_run_step cd ?c background background RecordCase (Draining []) (close_sink (sy_sink ?y1))
      (snd (poll ?c w1)) = Some (Draining [], (close_sink (sy_sink ?y1))\<lparr>ks_queue := []\<rparr>, w3, [sample_record])"
    by (simp add: close_sink_def Let_def)
  note r3 = kafka_reachable.step [OF r2 kafka_step.run [where pc = background and rdy = RecordCase], simplified, OF s3 [simplified]]
  obtain w4 where s4: "kafka_run_step cd ?c background background DefaultCase (Draining [])
      ((close_sink (sy_sink ?y1))\<lparr>ks_queue := []\<rparr>) w3 =
      Some (Stopped, (close_sink (sy_sink ?y1))\<lparr>ks_queue := []\<rparr>, w4, [])"
    by (simp add: poll_def)
  note r4 = kafka_reachable.step [OF r3 kafka_step.run [where pc = background and rdy = DefaultCase], simplified, OF s4 [simplified]]
  show ?thesis by (rule exI, rule conjI, rule r4) simp
qed

text \<open>
  C33. Shutting down ends. Once \<open>Run\<close> drains, every state of it has a step that it can take, each of its
  steps leaves strictly less to do, and offers, being refused by the closed sink, never add to it.
\<close>

theorem kafka_drain_ends:
  assumes "ks_closed s"
  shows "(\<exists>rdy. kafka_run_step cd c pc dc rdy (Draining rest) s w \<noteq> None) \<and>
    (\<forall>rdy here s' w' tried. kafka_run_step cd c pc dc rdy (Draining rest) s w = Some (here, s', w', tried) \<longrightarrow>
       drain_work here s' < drain_work (Draining rest) s \<and> ks_closed s' \<and> (here = Stopped \<or> (\<exists>rest'. here = Draining rest'))) \<and>
    (\<forall>rc pick entry w'. fst (Kafka_Enqueue rc pick entry (Some s, w')) = Some s)"
proof (intro conjI allI impI)
  show "\<exists>rdy. kafka_run_step cd c pc dc rdy (Draining rest) s w \<noteq> None"
  proof (cases rest)
    case (Cons entry rest')
    then show ?thesis by simp
  next
    case Nil
    show ?thesis
    proof (cases "dc (polls w)")
      case (Some e)
      with Nil show ?thesis by (intro exI [of _ DoneCase]) (simp add: poll_def)
    next
      case None
      show ?thesis
      proof (cases "ks_queue s")
        case empty: Nil
        with Nil None show ?thesis by (intro exI [of _ DefaultCase]) (simp add: poll_def)
      next
        case (Cons entry q)
        with Nil show ?thesis by (intro exI [of _ RecordCase]) (simp add: Let_def)
      qed
    qed
  qed
next
  fix rdy here s' w' tried
  assume step: "kafka_run_step cd c pc dc rdy (Draining rest) s w = Some (here, s', w', tried)"
  then show "drain_work here s' < drain_work (Draining rest) s" "ks_closed s'"
      "here = Stopped \<or> (\<exists>rest'. here = Draining rest')"
    using assms by (cases rest; cases rdy; auto simp: poll_def Let_def split: option.splits list.splits if_splits)+
next
  fix rc pick entry w'
  show "fst (Kafka_Enqueue rc pick entry (Some s, w')) = Some s"
    using assms by (simp add: Kafka_Enqueue_def poll_def split: option.split)
qed

theorem kafka_sink_fifo_witness:
  "\<exists>y. kafka_reachable plain_codec (\<lambda>_. Some Canceled) background sample_sink_config (start_world ()) y \<and>
     sy_pc y = Stopped \<and> sy_accepted y = [sample_record] \<and> sy_published y = [sample_record]"
proof -
  from sample_kafka_run [of plain_codec] obtain y where
    y: "kafka_reachable plain_codec (\<lambda>_. Some Canceled) background sample_sink_config (start_world ()) y"
    "sy_pc y = Stopped" "sy_published y = [sample_record]" by blast
  have none: "\<forall>P c t k v w. kd_Publisher (sample_sink_config :: 'r KafkaDecisionSinkConfig) = Some P \<longrightarrow>
      KafkaSinkDroppedTotal (tel (snd (P c t k v w))) = KafkaSinkDroppedTotal (tel w)"
    by (simp add: sample_sink_config_def)
  have "sy_pc y = Stopped \<longrightarrow> sy_accepted y = sy_published y \<or> (\<exists>n. background n \<noteq> None)"
    using kafka_sink_fifo [OF y(1) none] by (elim conjE)
  with y(2) have "sy_accepted y = sy_published y" by simp
  then have "sy_accepted y = [sample_record]" using y(3) by (rule trans)
  with y show ?thesis by blast
qed

theorem kafka_drain_ends_witness:
  "fst (Kafka_Enqueue background False sample_record
     (Some (close_sink (fst (NewKafkaDecisionSink sample_sink_config (start_world ())))), start_world ())) =
   Some (close_sink (fst (NewKafkaDecisionSink sample_sink_config (start_world ()))))"
proof -
  let ?s = "close_sink (fst (NewKafkaDecisionSink sample_sink_config (start_world ())))"
  have "ks_closed ?s" by (simp add: close_sink_def)
  from kafka_drain_ends [OF this, of undefined background background background "[]" "start_world ()"]
  show ?thesis by blast
qed

text \<open>
  C34. A published event mirrors its record, and failures are counted. The event carries the record's
  decision, actor, action, verdict, reasons and client, a fresh id and the topic as its version; it is
  published under the actor's id as key; and the error counter grows by one exactly when encoding
  or publishing failed.
\<close>

theorem kafka_publish_event:
  assumes "ks_publisher s = Some P" and "publish cd c s entry w = (err, w')"
    and "\<forall>c t k v w. KafkaSinkPublishErrorsTotal (tel (snd (P c t k v w))) = KafkaSinkPublishErrorsTotal (tel w)"
  shows "KafkaSinkPublishErrorsTotal (tel w') =
      KafkaSinkPublishErrorsTotal (tel w) + (if err = None then 0 else 1) \<and>
    (\<exists>event. de_EventID event = uuid_src w (uuids w) \<and> de_TopicVersion event = ks_topic s \<and>
       de_DecisionID event = ar_DecisionID entry \<and> de_ActorID event = ar_ActorID entry \<and>
       de_ActionType event = ar_ActionType entry \<and> de_Platform event = ar_Platform entry \<and>
       de_Verdict event = ar_Verdict entry \<and> de_Score event = ar_Score entry \<and>
       de_Reasons event = ar_Reasons entry \<and> de_Client event = ar_Client entry \<and>
       (case cd_Marshal cd event of
          Inl e \<Rightarrow> err = Some e
        | Inr payload \<Rightarrow> \<exists>w1. err = fst (P c (ks_topic s) (ar_ActorID entry) payload w1)))"
proof -
  let ?w = "snd (time_now (snd (new_uuid w)))"
  let ?event = "\<lparr>de_EventID = uuid_src w (uuids w), de_TopicVersion = ks_topic s, de_ActorID = ar_ActorID entry,
    de_ActionType = ar_ActionType entry, de_Platform = ar_Platform entry, de_Verdict = ar_Verdict entry,
    de_Score = ar_Score entry, de_Reasons = ar_Reasons entry, de_DecisionID = ar_DecisionID entry,
    de_Client = ar_Client entry, de_OccurredAt = cd_Format cd (fst (time_now (snd (new_uuid w))))\<rparr>"
  have same: "KafkaSinkPublishErrorsTotal (tel ?w) = KafkaSinkPublishErrorsTotal (tel w)"
    by (simp add: time_now_def new_uuid_def)
  have uuid: "fst (new_uuid w) = uuid_src w (uuids w)" by (simp add: new_uuid_def)
  show ?thesis
  proof (cases "cd_Marshal cd ?event")
    case (Inl e)
    then have "err = Some e" "w' = count_publish_error ?w"
      using assms(1,2) by (auto simp: publish_def Let_def split_beta uuid)
    with same Inl show ?thesis by (intro conjI exI [of _ ?event]) (simp_all add: count_publish_error_counts)
  next
    case (Inr payload)
    obtain e1 w1 where run: "P c (ks_topic s) (ar_ActorID entry) payload ?w = (e1, w1)"
      by (cases "P c (ks_topic s) (ar_ActorID entry) payload ?w")
    have keep: "KafkaSinkPublishErrorsTotal (tel w1) = KafkaSinkPublishErrorsTotal (tel w)"
      using assms(3) [rule_format, of c "ks_topic s" "ar_ActorID entry" payload ?w] same by (simp add: run)
    have out: "err = e1" "w' = (if e1 = None then w1 else count_publish_error w1)"
      using assms(1,2) Inr run by (auto simp: publish_def Let_def split_beta uuid split: option.splits)
    have "err = fst (P c (ks_topic s) (ar_ActorID entry) payload ?w)" by (simp add: out run)
    moreover have "KafkaSinkPublishErrorsTotal (tel w') =
        KafkaSinkPublishErrorsTotal (tel w) + (if err = None then 0 else 1)"
      by (simp add: out keep count_publish_error_counts)
    ultimately show ?thesis using Inr by (intro conjI exI [of _ ?event]) (simp_all, blast)
  qed
qed

definition down_publisher :: "'r Publisher" where
  "down_publisher c topic key payload w = (Some ''broker down'', w)"

theorem kafka_publish_event_witness:
  "\<exists>w'. publish plain_codec background
       (fst (NewKafkaDecisionSink \<lparr>kd_Topic = [], kd_QueueSize = 1, kd_Publisher = Some down_publisher\<rparr> (start_world ())))
       sample_record (start_world ()) = (Some ''broker down'', w') \<and>
     KafkaSinkPublishErrorsTotal (tel w') = 1"
proof -
  let ?s = "fst (NewKafkaDecisionSink \<lparr>kd_Topic = [], kd_QueueSize = 1, kd_Publisher = Some down_publisher\<rparr>
    (start_world ()))"
  have P: "ks_publisher ?s = Some down_publisher" by (simp add: NewKafkaDecisionSink_def Let_def)
  obtain w' where run: "publish plain_codec background ?s sample_record (start_world ()) = (Some ''broker down'', w')"
    by (simp add: P publish_def plain_codec_def down_publisher_def Let_def new_uuid_def time_now_def)
  from kafka_publish_event [OF P run] have "KafkaSinkPublishErrorsTotal (tel w') = 1"
    by (simp add: down_publisher_def start_world_def telemetry_init_def)
  with run show ?thesis by blast
qed

end
