(* ===== verification/Audit_Writer.thy ===== *)
theory Audit_Writer
  imports Decision_Sink
begin

text \<open>
  \<open>internal/store/audit.go\<close>: the bounded queue of audit records and the goroutine that writes them
  to the table \<open>pds.decisions\<close> in batches. \<open>Enqueue\<close> runs under the mutex and is one operation;
  \<open>Run\<close> is a state machine whose steps lie between the offers of the request goroutines. JSON
  encoding and the connection pool are parameters; the laws of the statement it executes
  (\<open>INSERT ... ON CONFLICT (id) DO NOTHING\<close>) are the predicate \<open>inserts_once\<close>.
\<close>

section \<open>The writer\<close>

text \<open>\<open>pool.Exec\<close> takes a context, the statement and its arguments, and returns the text of its error.\<close>

type_synonym 'r Exec = "ctx \<Rightarrow> string \<Rightarrow> any list \<Rightarrow> 'r world \<Rightarrow> string option \<times> 'r world"

record json_codec =
  js_Reasons :: "Reason list \<Rightarrow> string + string"
  js_Request :: "DecideRequest \<Rightarrow> string + string"

record 'r AuditWriter =
  aw_pool :: "'r Exec option"
  aw_queue :: "AuditRecord list"
  aw_capacity :: nat
  aw_batchSize :: nat
  aw_closed :: bool
  aw_dropped :: nat

definition NewAuditWriter :: "'r Exec option \<Rightarrow> int \<Rightarrow> int \<Rightarrow> 'r AuditWriter" where
  "NewAuditWriter pool queueSize batchSize =
     (let queueSize = (if queueSize \<le> 0 then 10000 else queueSize);
          batchSize = (if batchSize \<le> 0 then 100 else batchSize)
      in \<lparr>aw_pool = pool, aw_queue = [], aw_capacity = nat queueSize, aw_batchSize = nat batchSize,
          aw_closed = False, aw_dropped = 0\<rparr>)"

text \<open>\<open>None\<close> is a nil pointer.\<close>

definition Audit_Enqueue ::
    "ctx \<Rightarrow> AuditRecord \<Rightarrow> 'r AuditWriter option \<times> 'r world \<Rightarrow> 'r AuditWriter option \<times> 'r world" where
  "Audit_Enqueue c entry = (\<lambda>(ptr, w).
     case ptr of None \<Rightarrow> (None, w)
     | Some s \<Rightarrow>
         if aw_pool s = None then (Some s, w)
         else
           (case poll c w of
              (Some _, w) \<Rightarrow> (Some s, w)
            | (None, w) \<Rightarrow>
                if aw_closed s then (Some s, w)
                else if length (aw_queue s) < aw_capacity s
                then (Some (s\<lparr>aw_queue := aw_queue s @ [entry]\<rparr>), w)
                else (Some (s\<lparr>aw_dropped := Suc (aw_dropped s)\<rparr>), w)))"

definition Audit_Dropped :: "'r AuditWriter option \<Rightarrow> nat" where
  "Audit_Dropped ptr = (case ptr of None \<Rightarrow> 0 | Some s \<Rightarrow> aw_dropped s)"

definition close_audit :: "'r AuditWriter \<Rightarrow> 'r AuditWriter" where
  "close_audit s = s\<lparr>aw_closed := True\<rparr>"

definition emptyStringToNil :: "string \<Rightarrow> any" where
  "emptyStringToNil value = (if value = [] then ANil else AString value)"

definition insert_decision :: string where
  "insert_decision = ''
INSERT INTO pds.decisions (
  id, actor_id, action_type, platform, verdict, score, reasons,
  evaluated_rules, request, latency_us, rules_version, client
) VALUES (
  $1, $2, $3, $4, $5, $6, $7::jsonb,
  $8, $9::jsonb, $10, $11, $12
)
ON CONFLICT (id) DO NOTHING''"

text \<open>The arguments of the statement, for a record and the JSON texts of its reasons and its request.\<close>

definition decision_row :: "AuditRecord \<Rightarrow> string \<Rightarrow> string \<Rightarrow> any list" where
  "decision_row entry reasons request =
     [AString (ar_DecisionID entry), AString (ar_ActorID entry), AString (ar_ActionType entry),
      emptyStringToNil (ar_Platform entry), AString (ar_Verdict entry), AFloat (ar_Score entry),
      AString reasons, AStrings (ar_EvaluatedRules entry), AString request,
      AInt (ar_LatencyUS entry), AString (ar_RulesVersion entry), emptyStringToNil (ar_Client entry)]"

definition count_write_error :: "'r world \<Rightarrow> 'r world" where
  "count_write_error = tel_upd (\<lambda>t. t\<lparr>AuditWriteErrorsTotal := Suc (AuditWriteErrorsTotal t)\<rparr>)"

lemma count_write_error_simps [world_simps]:
  "AuditWriteErrorsTotal (tel (count_write_error w)) = Suc (AuditWriteErrorsTotal (tel w))"
  "ext (count_write_error w) = ext w" "polls (count_write_error w) = polls w"
  by (simp_all add: count_write_error_def world_simps)

fun flush :: "json_codec \<Rightarrow> 'r Exec \<Rightarrow> ctx \<Rightarrow> AuditRecord list \<Rightarrow> 'r world \<Rightarrow> string option \<times> 'r world" where
  "flush js Exec c [] w = (None, w)"
| "flush js Exec c (entry # records) w =
     (case js_Reasons js (ar_Reasons entry) of
        Inl err \<Rightarrow> (Some err, count_write_error w)
      | Inr reasons \<Rightarrow>
     (case js_Request js (ar_Request entry) of
        Inl err \<Rightarrow> (Some err, count_write_error w)
      | Inr request \<Rightarrow>
     (case Exec c insert_decision (decision_row entry reasons request) w of
        (Some err, w) \<Rightarrow> (Some err, count_write_error w)
      | (None, w) \<Rightarrow> flush js Exec c records w)))"

section \<open>The goroutine\<close>

text \<open>
  Where \<open>Run\<close> is, with its local batch: in its \<open>select\<close>, with a record it has just appended, in
  \<open>drainQueued\<close>, or returned (with the records whose final flush failed, which nothing holds any more).
\<close>

datatype audit_pc =
    Looping "AuditRecord list"
  | Appended "AuditRecord list"
  | DrainingQueue "AuditRecord list"
  | Returned "AuditRecord list"

datatype audit_case = CtxDone | RecordReady | TickReady | NothingReady

text \<open>A flush in the loop: the batch is emptied if it succeeds and kept otherwise.\<close>

definition flush_batch ::
    "json_codec \<Rightarrow> 'r Exec \<Rightarrow> ctx \<Rightarrow> (AuditRecord list \<Rightarrow> audit_pc) \<Rightarrow> AuditRecord list \<Rightarrow> 'r AuditWriter \<Rightarrow> 'r world
       \<Rightarrow> audit_pc \<times> 'r AuditWriter \<times> 'r world \<times> AuditRecord list" where
  "flush_batch js Exec c here batch s w =
     (case flush js Exec c batch w of
        (None, w) \<Rightarrow> (here [], s, w, batch)
      | (Some _, w) \<Rightarrow> (here batch, s, w, []))"

text \<open>
  One step of \<open>Run\<close>: the new place, writer and world, with the records that the step has flushed;
  nothing if the case is not ready. \<open>c\<close> is the context of \<open>Run\<close>, \<open>fc\<close> that of the final flush.
\<close>

fun audit_run_step ::
    "json_codec \<Rightarrow> 'r Exec \<Rightarrow> ctx \<Rightarrow> ctx \<Rightarrow> audit_case \<Rightarrow> audit_pc \<Rightarrow> 'r AuditWriter \<Rightarrow> 'r world
       \<Rightarrow> (audit_pc \<times> 'r AuditWriter \<times> 'r world \<times> AuditRecord list) option" where
  "audit_run_step js Exec c fc CtxDone (Looping batch) s w =
     (case poll c w of
        (None, w) \<Rightarrow> None
      | (Some _, w) \<Rightarrow> Some (DrainingQueue batch, close_audit s, w, []))"
| "audit_run_step js Exec c fc RecordReady (Looping batch) s w =
     (case aw_queue s of
        [] \<Rightarrow> None
      | entry # rest \<Rightarrow> Some (Appended (batch @ [entry]), s\<lparr>aw_queue := rest\<rparr>, w, []))"
| "audit_run_step js Exec c fc TickReady (Looping batch) s w =
     (if batch \<noteq> [] then Some (flush_batch js Exec c Looping batch s w)
      else Some (Looping batch, s, w, []))"
| "audit_run_step js Exec c fc NothingReady (Looping batch) s w = None"
| "audit_run_step js Exec c fc _ (Appended batch) s w =
     (case poll c w of
        (Some _, w) \<Rightarrow> Some (DrainingQueue batch, close_audit s, w, [])
      | (None, w) \<Rightarrow>
          if aw_batchSize s \<le> length batch then Some (flush_batch js Exec c Looping batch s w)
          else Some (Looping batch, s, w, []))"
| "audit_run_step js Exec c fc RecordReady (DrainingQueue batch) s w =
     (case aw_queue s of
        [] \<Rightarrow> None
      | entry # rest \<Rightarrow> Some (DrainingQueue (batch @ [entry]), s\<lparr>aw_queue := rest\<rparr>, w, []))"
| "audit_run_step js Exec c fc NothingReady (DrainingQueue batch) s w =
     (if aw_queue s = [] then Some (flush_batch js Exec fc Returned batch s w) else None)"
| "audit_run_step js Exec c fc _ (DrainingQueue batch) s w = None"
| "audit_run_step js Exec c fc _ (Returned batch) s w = None"

section \<open>The contract of a bounded sink\<close>

definition audit_queue :: "'r AuditWriter option \<Rightarrow> AuditRecord list" where
  "audit_queue ptr = (case ptr of None \<Rightarrow> [] | Some s \<Rightarrow> aw_queue s)"

definition audit_capacity :: "'r AuditWriter option \<Rightarrow> nat" where
  "audit_capacity ptr = (case ptr of None \<Rightarrow> 0 | Some s \<Rightarrow> aw_capacity s)"

definition audit_closed :: "'r AuditWriter option \<Rightarrow> bool" where
  "audit_closed ptr = (case ptr of None \<Rightarrow> True | Some s \<Rightarrow> aw_closed s \<or> aw_pool s = None)"

lemmas audit_view = audit_queue_def audit_capacity_def audit_closed_def Audit_Dropped_def

lemma Audit_Enqueue_outcome:
  assumes "Audit_Enqueue c entry (Some s, w) = (ptr, w')"
  obtains (accepted) "ptr = Some (s\<lparr>aw_queue := aw_queue s @ [entry]\<rparr>)" "\<not> audit_closed (Some s)"
      "length (aw_queue s) < aw_capacity s"
  | (full) "ptr = Some (s\<lparr>aw_dropped := Suc (aw_dropped s)\<rparr>)" "\<not> audit_closed (Some s)"
      "aw_capacity s \<le> length (aw_queue s)"
  | (refused) "ptr = Some s" "audit_closed (Some s) \<or> c (polls w) \<noteq> None"
  using assms
  by (cases "aw_pool s"; cases "c (polls w)"; cases "aw_closed s"; cases "length (aw_queue s) < aw_capacity s")
    (auto simp: Audit_Enqueue_def audit_closed_def poll_def)

lemma Audit_Enqueue_frame:
  "Audit_Enqueue c entry (ptr, w) = (ptr', w') \<Longrightarrow> engine_frame w w' \<and> ext w' = ext w \<and> tel w' = tel w"
  by (auto simp: Audit_Enqueue_def poll_def engine_frame_def split: option.splits if_splits)

interpretation audit: bounded_sink "\<lambda>c pick. Audit_Enqueue c" audit_queue audit_capacity audit_closed Audit_Dropped
proof
  fix c and pick :: bool and entry and ptr ptr' :: "'r AuditWriter option" and w w' :: "'r world"
  assume run: "Audit_Enqueue c entry (ptr, w) = (ptr', w')"
  show "engine_frame w w' \<and> ext w' = ext w" using Audit_Enqueue_frame [OF run] by simp
  show "(audit_queue ptr' = audit_queue ptr @ [entry] \<and> Audit_Dropped ptr' = Audit_Dropped ptr \<and>
      length (audit_queue ptr) < audit_capacity ptr \<and> \<not> audit_closed ptr) \<or>
    (audit_queue ptr' = audit_queue ptr \<and> Audit_Dropped ptr' = Suc (Audit_Dropped ptr) \<and>
      audit_capacity ptr \<le> length (audit_queue ptr) \<and> \<not> audit_closed ptr) \<or>
    (audit_queue ptr' = audit_queue ptr \<and> Audit_Dropped ptr' = Audit_Dropped ptr)"
  proof (cases ptr)
    case None
    with run show ?thesis by (simp add: Audit_Enqueue_def)
  next
    case (Some s)
    from run [unfolded Some] show ?thesis
      by (cases rule: Audit_Enqueue_outcome) (simp_all add: Some audit_view)
  qed
  show "audit_capacity ptr' = audit_capacity ptr \<and> audit_closed ptr' = audit_closed ptr"
  proof (cases ptr)
    case None
    with run show ?thesis by (simp add: Audit_Enqueue_def)
  next
    case (Some s)
    from run [unfolded Some] show ?thesis
      by (cases rule: Audit_Enqueue_outcome) (simp_all add: Some audit_view)
  qed
  assume "\<not> audit_closed ptr" and "\<And>n. c n = None"
  then obtain s where "ptr = Some s" "\<not> audit_closed (Some s)" by (cases ptr) (auto simp: audit_closed_def)
  with run \<open>\<And>n. c n = None\<close> show "audit_queue ptr' \<noteq> audit_queue ptr \<or> Audit_Dropped ptr' \<noteq> Audit_Dropped ptr"
    by (auto simp: audit_queue_def Audit_Dropped_def elim!: Audit_Enqueue_outcome)
qed

section \<open>The table\<close>

text \<open>
  \<open>rows\<close> is the content of \<open>pds.decisions\<close> in the state of the systems outside, for the ids that this
  process hands out: the arguments of the insertion that made the row. The documented behaviour of the
  statement: it inserts a row under a new id and leaves an existing one alone; when it fails, it may or
  may not have been committed. It does not count write errors.
\<close>

definition insert_row :: "string \<Rightarrow> any list \<Rightarrow> (string \<rightharpoonup> any list) \<Rightarrow> string \<rightharpoonup> any list" where
  "insert_row i row table = (if table i = None then table(i \<mapsto> row) else table)"

definition inserts_once :: "('r \<Rightarrow> string \<rightharpoonup> any list) \<Rightarrow> 'r Exec \<Rightarrow> bool" where
  "inserts_once rows Exec \<longleftrightarrow> (\<forall>c i args w err w'.
     Exec c insert_decision (AString i # args) w = (err, w') \<longrightarrow>
       AuditWriteErrorsTotal (tel w') = AuditWriteErrorsTotal (tel w) \<and>
       (rows (ext w') = insert_row i (AString i # args) (rows (ext w)) \<or>
        err \<noteq> None \<and> rows (ext w') = rows (ext w)))"

text \<open>A record and what a row of the table says about it.\<close>

definition row_of :: "json_codec \<Rightarrow> AuditRecord \<Rightarrow> any list \<Rightarrow> bool" where
  "row_of js entry row \<longleftrightarrow> (case js_Reasons js (ar_Reasons entry) of Inl _ \<Rightarrow> False | Inr reasons \<Rightarrow>
     (case js_Request js (ar_Request entry) of Inl _ \<Rightarrow> False
      | Inr request \<Rightarrow> row = decision_row entry reasons request))"

lemma row_of_unique: "row_of js entry row \<Longrightarrow> row_of js entry row' \<Longrightarrow> row = row'"
  by (auto simp: row_of_def split: sum.splits)

lemma inserts_onceD:
  assumes "inserts_once rows Exec" and "Exec c insert_decision (decision_row entry reasons request) w = (err, w')"
  shows "AuditWriteErrorsTotal (tel w') = AuditWriteErrorsTotal (tel w)"
    and "rows (ext w') = insert_row (ar_DecisionID entry) (decision_row entry reasons request) (rows (ext w)) \<or>
      err \<noteq> None \<and> rows (ext w') = rows (ext w)"
  using assms unfolding inserts_once_def decision_row_def by blast+

lemma insert_row_simps:
  "table \<subseteq>\<^sub>m insert_row i row table" "insert_row i row table i \<noteq> None"
  "insert_row i row table j = Some r \<Longrightarrow> table j = Some r \<or> (j = i \<and> r = row)"
  "dom (insert_row i row table) = insert i (dom table)"
  by (auto simp: insert_row_def map_le_def split: if_splits)

text \<open>
  What a flush does: it keeps all rows, adds only rows of its records, and either has stored all of
  them or has stopped at the first failure and counted it.
\<close>

lemma flush_outcome:
  assumes "inserts_once rows Exec" and "flush js Exec c records w = (err, w')"
  shows "rows (ext w) \<subseteq>\<^sub>m rows (ext w')"
    and "err = None \<Longrightarrow> e \<in> set records \<Longrightarrow> rows (ext w') (ar_DecisionID e) \<noteq> None"
    and "rows (ext w') i = Some row \<Longrightarrow> rows (ext w) i = Some row \<or>
      (\<exists>e \<in> set records. i = ar_DecisionID e \<and> row_of js e row)"
    and "AuditWriteErrorsTotal (tel w') = AuditWriteErrorsTotal (tel w) + (if err = None then 0 else 1)"
proof -
  have "rows (ext w) \<subseteq>\<^sub>m rows (ext w') \<and>
    (err = None \<longrightarrow> (\<forall>e \<in> set records. rows (ext w') (ar_DecisionID e) \<noteq> None)) \<and>
    (\<forall>i row. rows (ext w') i = Some row \<longrightarrow> rows (ext w) i = Some row \<or>
      (\<exists>e \<in> set records. i = ar_DecisionID e \<and> row_of js e row)) \<and>
    AuditWriteErrorsTotal (tel w') = AuditWriteErrorsTotal (tel w) + (if err = None then 0 else 1)"
    using assms(2)
  proof (induction records arbitrary: w)
    case Nil
    then show ?case by auto
  next
    case (Cons entry records)
    show ?case
    proof (cases "\<exists>reasons request. js_Reasons js (ar_Reasons entry) = Inr reasons \<and> js_Request js (ar_Request entry) = Inr request")
      case False
      with Cons.prems have "err \<noteq> None" "w' = count_write_error w"
        by (auto split: sum.splits)
      then show ?thesis by (auto simp: world_simps)
    next
      case True
      then obtain reasons request where
        j: "js_Reasons js (ar_Reasons entry) = Inr reasons" "js_Request js (ar_Request entry) = Inr request" by blast
      let ?row = "decision_row entry reasons request"
      obtain e1 w1 where ex: "Exec c insert_decision ?row w = (e1, w1)" by (cases "Exec c insert_decision ?row w")
      note law = inserts_onceD [OF assms(1) ex]
      have r: "row_of js entry ?row" by (simp add: row_of_def j)
      have le: "rows (ext w) \<subseteq>\<^sub>m rows (ext w1)" using law(2) insert_row_simps(1) by auto
      have from1: "rows (ext w) i = Some row \<or> (i = ar_DecisionID entry \<and> row_of js entry row)"
        if "rows (ext w1) i = Some row" for i row
        using law(2) insert_row_simps(3) [of "ar_DecisionID entry" ?row "rows (ext w)" i row] that r by auto
      show ?thesis
      proof (cases e1)
        case (Some e)
        with Cons.prems j ex have out: "err = Some e" "w' = count_write_error w1" by auto
        show ?thesis unfolding out using le from1 law(1) by (auto simp: world_simps)
      next
        case None
        with Cons.prems j ex have rest: "flush js Exec c records w1 = (err, w')" by simp
        have own: "rows (ext w1) (ar_DecisionID entry) \<noteq> None"
          using law(2) None insert_row_simps(2) by auto
        from Cons.IH [OF rest] have ih: "rows (ext w1) \<subseteq>\<^sub>m rows (ext w')"
          "err = None \<longrightarrow> (\<forall>e \<in> set records. rows (ext w') (ar_DecisionID e) \<noteq> None)"
          "\<And>i row. rows (ext w') i = Some row \<Longrightarrow> rows (ext w1) i = Some row \<or>
            (\<exists>e \<in> set records. i = ar_DecisionID e \<and> row_of js e row)"
          "AuditWriteErrorsTotal (tel w') = AuditWriteErrorsTotal (tel w1) + (if err = None then 0 else 1)"
          by blast+
        have "rows (ext w') (ar_DecisionID entry) \<noteq> None"
          using own ih(1) by (metis domIff map_le_def)
        moreover have "rows (ext w) i = Some row \<or> (\<exists>e \<in> set (entry # records). i = ar_DecisionID e \<and> row_of js e row)"
          if "rows (ext w') i = Some row" for i row
          using ih(3) [OF that] from1 by auto
        ultimately show ?thesis using le ih(1,2,4) law(1) map_le_trans by auto
      qed
    qed
  qed
  then show "rows (ext w) \<subseteq>\<^sub>m rows (ext w')"
    "err = None \<Longrightarrow> e \<in> set records \<Longrightarrow> rows (ext w') (ar_DecisionID e) \<noteq> None"
    "rows (ext w') i = Some row \<Longrightarrow> rows (ext w) i = Some row \<or>
      (\<exists>e \<in> set records. i = ar_DecisionID e \<and> row_of js e row)"
    "AuditWriteErrorsTotal (tel w') = AuditWriteErrorsTotal (tel w) + (if err = None then 0 else 1)"
    by blast+
qed

lemma takeWhile_append_mono: "set (takeWhile P xs) \<subseteq> set (takeWhile P (xs @ ys))"
  by (induction xs) auto

text \<open>
  A record that the database refuses stops every flush that holds it: nothing from it on is stored.
\<close>

definition poison :: "('r \<Rightarrow> string \<rightharpoonup> any list) \<Rightarrow> 'r Exec \<Rightarrow> AuditRecord \<Rightarrow> bool" where
  "poison rows Exec p \<longleftrightarrow> (\<forall>c reasons request w.
     fst (Exec c insert_decision (decision_row p reasons request) w) \<noteq> None \<and>
     rows (ext (snd (Exec c insert_decision (decision_row p reasons request) w))) = rows (ext w))"

lemma flush_poison:
  assumes "inserts_once rows Exec" "poison rows Exec p" and "flush js Exec c records w = (err, w')"
  shows "dom (rows (ext w')) \<subseteq> dom (rows (ext w)) \<union> ar_DecisionID ` set (takeWhile (\<lambda>e. e \<noteq> p) records) \<and>
    (p \<in> set records \<longrightarrow> err \<noteq> None)"
  using assms(3)
proof (induction records arbitrary: w)
  case Nil
  then show ?case by simp
next
  case (Cons entry records)
  show ?case
  proof (cases "\<exists>reasons request. js_Reasons js (ar_Reasons entry) = Inr reasons \<and> js_Request js (ar_Request entry) = Inr request")
    case False
    with Cons.prems have "err \<noteq> None" "w' = count_write_error w"
      by (auto split: sum.splits)
    then show ?thesis by (simp add: world_simps)
  next
    case True
    then obtain reasons request where
      j: "js_Reasons js (ar_Reasons entry) = Inr reasons" "js_Request js (ar_Request entry) = Inr request" by blast
    let ?row = "decision_row entry reasons request"
    obtain e1 w1 where ex: "Exec c insert_decision ?row w = (e1, w1)" by (cases "Exec c insert_decision ?row w")
    show ?thesis
    proof (cases "entry = p")
      case True
      have "fst (Exec c insert_decision ?row w) \<noteq> None" "rows (ext (snd (Exec c insert_decision ?row w))) = rows (ext w)"
        using assms(2) True unfolding poison_def by blast+
      with ex have "e1 \<noteq> None" "rows (ext w1) = rows (ext w)" by simp_all
      with Cons.prems j ex show ?thesis by (auto simp: world_simps)
    next
      case False
      have d: "dom (rows (ext w1)) \<subseteq> insert (ar_DecisionID entry) (dom (rows (ext w)))"
        using inserts_onceD(2) [OF assms(1) ex] by (auto simp: insert_row_def split: if_splits)
      show ?thesis
      proof (cases e1)
        case (Some e)
        with Cons.prems j ex have "err = Some e" "w' = count_write_error w1" by auto
        with d False show ?thesis by (auto simp: world_simps)
      next
        case None
        with Cons.prems j ex have "flush js Exec c records w1 = (err, w')" by simp
        from Cons.IH [OF this] have
          "dom (rows (ext w')) \<subseteq> dom (rows (ext w1)) \<union> ar_DecisionID ` set (takeWhile (\<lambda>e. e \<noteq> p) records)"
          "p \<in> set records \<longrightarrow> err \<noteq> None" by blast+
        moreover have "takeWhile (\<lambda>e. e \<noteq> p) (entry # records) = entry # takeWhile (\<lambda>e. e \<noteq> p) records"
          "p \<in> set (entry # records) \<longleftrightarrow> p \<in> set records" using False by auto
        ultimately show ?thesis using d by (simp only: list.set image_insert) blast
      qed
    qed
  qed
qed

section \<open>The writer between the request goroutines and its own\<close>

text \<open>
  The whole system: the writer, where \<open>Run\<close> is, the world, and two histories that the code does not
  keep: the records that offers put on the queue and those whose flush succeeded.
\<close>

record 'r audit_system =
  au_writer :: "'r AuditWriter"
  au_pc :: audit_pc
  au_world :: "'r world"
  au_accepted :: "AuditRecord list"
  au_flushed :: "AuditRecord list"

definition audit_start :: "'r AuditWriter \<Rightarrow> 'r world \<Rightarrow> 'r audit_system" where
  "audit_start s w = \<lparr>au_writer = s, au_pc = Looping [], au_world = w, au_accepted = [], au_flushed = []\<rparr>"

text \<open>
  A step is an offer under the context of its request, a step of \<open>Run\<close> (which returns at once, and so
  takes none, if there is no pool), or a step of the rest of the program, which writes neither the
  rows of this process nor the error counter.
\<close>

inductive audit_step ::
    "json_codec \<Rightarrow> ('r \<Rightarrow> string \<rightharpoonup> any list) \<Rightarrow> ctx \<Rightarrow> ctx \<Rightarrow> 'r audit_system \<Rightarrow> 'r audit_system \<Rightarrow> bool"
  for js rows c fc where
  offer: "Audit_Enqueue rc entry (Some (au_writer y), au_world y) = (Some s, w) \<Longrightarrow>
    audit_step js rows c fc y (y\<lparr>au_writer := s, au_world := w,
      au_accepted := au_accepted y @ (if aw_queue s = aw_queue (au_writer y) then [] else [entry])\<rparr>)"
| run: "aw_pool (au_writer y) = Some Exec \<Longrightarrow>
    audit_run_step js Exec c fc rdy (au_pc y) (au_writer y) (au_world y) = Some (here, s, w, done) \<Longrightarrow>
    audit_step js rows c fc y (y\<lparr>au_writer := s, au_pc := here, au_world := w, au_flushed := au_flushed y @ done\<rparr>)"
| other: "rows (ext w) = rows (ext (au_world y)) \<Longrightarrow>
    AuditWriteErrorsTotal (tel w) = AuditWriteErrorsTotal (tel (au_world y)) \<Longrightarrow>
    audit_step js rows c fc y (y\<lparr>au_world := w\<rparr>)"

inductive audit_reachable ::
    "json_codec \<Rightarrow> ('r \<Rightarrow> string \<rightharpoonup> any list) \<Rightarrow> ctx \<Rightarrow> ctx \<Rightarrow> 'r AuditWriter \<Rightarrow> 'r world \<Rightarrow> 'r audit_system \<Rightarrow> bool"
  for js rows c fc s0 w0 where
  start: "audit_reachable js rows c fc s0 w0 (audit_start s0 w0)"
| step: "audit_reachable js rows c fc s0 w0 y \<Longrightarrow> audit_step js rows c fc y z \<Longrightarrow>
    audit_reachable js rows c fc s0 w0 z"

text \<open>The batch.\<close>

fun batch_of :: "audit_pc \<Rightarrow> AuditRecord list" where
  "batch_of (Looping batch) = batch"
| "batch_of (Appended batch) = batch"
| "batch_of (DrainingQueue batch) = batch"
| "batch_of (Returned batch) = batch"

fun returned :: "audit_pc \<Rightarrow> bool" where
  "returned (Returned batch) = True"
| "returned (Looping batch) = False"
| "returned (Appended batch) = False"
| "returned (DrainingQueue batch) = False"

fun shutting_down :: "audit_pc \<Rightarrow> bool" where
  "shutting_down (DrainingQueue batch) = True"
| "shutting_down (Returned batch) = True"
| "shutting_down (Looping batch) = False"
| "shutting_down (Appended batch) = False"

lemma returned_shutting_down [dest]: "returned pc \<Longrightarrow> shutting_down pc"
  by (cases pc) simp_all

text \<open>
  A step of \<open>Run\<close> moves records from the queue to the end of the batch, or flushes the batch; it touches
  the world only through a flush.
\<close>

lemma audit_run_step_outcome:
  assumes "audit_run_step js Exec c fc rdy pc s w = Some (here, s', w', done)"
  obtains (move) taken where "aw_queue s = taken @ aw_queue s'" "batch_of here = batch_of pc @ taken" "done = []"
      "ext w' = ext w" "tel w' = tel w" "\<not> returned here"
  | (flushed) c' w1 where "flush js Exec c' (batch_of pc) w1 = (None, w')" "ext w1 = ext w" "tel w1 = tel w"
      "done = batch_of pc" "batch_of here = []" "aw_queue s' = aw_queue s"
  | (kept) c' w1 err where "flush js Exec c' (batch_of pc) w1 = (Some err, w')" "ext w1 = ext w" "tel w1 = tel w"
      "done = []" "batch_of here = batch_of pc" "aw_queue s' = aw_queue s"
proof (cases "\<exists>c' pl w1. flush_batch js Exec c' pl (batch_of pc) s w1 = (here, s', w', done) \<and>
    ext w1 = ext w \<and> tel w1 = tel w \<and> (pl = Looping \<or> pl = Returned)")
  case True
  then obtain c' pl w1 where fb: "flush_batch js Exec c' pl (batch_of pc) s w1 = (here, s', w', done)"
    and w1: "ext w1 = ext w" "tel w1 = tel w" and pl: "pl = Looping \<or> pl = Returned" by blast
  have b: "batch_of (pl records) = records" for records using pl by auto
  obtain err w2 where fl: "flush js Exec c' (batch_of pc) w1 = (err, w2)"
    by (cases "flush js Exec c' (batch_of pc) w1")
  show ?thesis
  proof (cases err)
    case None
    with fb fl have "here = pl []" "s' = s" "w' = w2" "done = batch_of pc" by (auto simp: flush_batch_def)
    with flushed fl w1 None b show ?thesis by simp
  next
    case (Some e)
    with fb fl have "here = pl (batch_of pc)" "s' = s" "w' = w2" "done = []" by (auto simp: flush_batch_def)
    with kept fl w1 Some b show ?thesis by simp
  qed
next
  case False
  then have no: "flush_batch js Exec c' Looping (batch_of pc) s w1 \<noteq> (here, s', w', done)"
    "flush_batch js Exec c' Returned (batch_of pc) s w1 \<noteq> (here, s', w', done)"
    if "ext w1 = ext w" "tel w1 = tel w" for c' w1 using that by blast+
  have "\<exists>taken. aw_queue s = taken @ aw_queue s' \<and> batch_of here = batch_of pc @ taken \<and> done = [] \<and>
      ext w' = ext w \<and> tel w' = tel w \<and> \<not> returned here"
    using assms no
    by (cases pc; cases rdy) (auto simp: poll_def close_audit_def split: option.splits list.splits if_splits)
  then show ?thesis using move by blast
qed

lemma audit_run_step_writer:
  assumes "audit_run_step js Exec c fc rdy pc s w = Some (here, s', w', done)"
  shows "aw_pool s' = aw_pool s \<and> aw_capacity s' = aw_capacity s \<and> aw_batchSize s' = aw_batchSize s \<and>
    aw_dropped s' = aw_dropped s \<and> \<not> returned pc \<and>
    (aw_closed s = shutting_down pc \<longrightarrow> aw_closed s' = shutting_down here) \<and>
    (returned here \<longrightarrow> aw_queue s' = [])"
  using assms
  by (cases pc; cases rdy)
    (auto simp: poll_def close_audit_def flush_batch_def split: option.splits list.splits if_splits prod.splits)

definition audit_inv ::
    "json_codec \<Rightarrow> ('r \<Rightarrow> string \<rightharpoonup> any list) \<Rightarrow> 'r AuditWriter \<Rightarrow> 'r world \<Rightarrow> 'r audit_system \<Rightarrow> bool" where
  "audit_inv js rows s0 w0 y \<longleftrightarrow>
     au_accepted y = au_flushed y @ batch_of (au_pc y) @ aw_queue (au_writer y) \<and>
     length (aw_queue (au_writer y)) \<le> aw_capacity s0 \<and>
     aw_pool (au_writer y) = aw_pool s0 \<and> aw_capacity (au_writer y) = aw_capacity s0 \<and>
     aw_closed (au_writer y) = shutting_down (au_pc y) \<and>
     (returned (au_pc y) \<longrightarrow> aw_queue (au_writer y) = []) \<and>
     AuditWriteErrorsTotal (tel w0) + (if returned (au_pc y) \<and> batch_of (au_pc y) \<noteq> [] then 1 else 0)
       \<le> AuditWriteErrorsTotal (tel (au_world y)) \<and>
     rows (ext w0) \<subseteq>\<^sub>m rows (ext (au_world y)) \<and>
     (\<forall>e \<in> set (au_flushed y). rows (ext (au_world y)) (ar_DecisionID e) \<noteq> None) \<and>
     (\<forall>i row. rows (ext (au_world y)) i = Some row \<longrightarrow> rows (ext w0) i = Some row \<or>
        (\<exists>e \<in> set (au_flushed y @ batch_of (au_pc y)). i = ar_DecisionID e \<and> row_of js e row))"

lemma audit_run_inv:
  assumes "inserts_once rows Exec" and "aw_pool (au_writer y) = Some Exec"
    and step: "audit_run_step js Exec c fc rdy (au_pc y) (au_writer y) (au_world y) = Some (here, s, w, done)"
    and inv: "audit_inv js rows s0 w0 y"
  shows "audit_inv js rows s0 w0 (y\<lparr>au_writer := s, au_pc := here, au_world := w, au_flushed := au_flushed y @ done\<rparr>)"
proof -
  note keep = audit_run_step_writer [OF step]
  from step show ?thesis
  proof (cases rule: audit_run_step_outcome)
    case (move taken)
    with keep inv show ?thesis unfolding audit_inv_def by auto
  next
    case (flushed c' w1)
    note out = flush_outcome [OF assms(1) flushed(1)]
    have le: "rows (ext (au_world y)) \<subseteq>\<^sub>m rows (ext w)" using out(1) flushed(2) by simp
    have stored: "rows (ext w) (ar_DecisionID e) \<noteq> None" if "e \<in> set (au_flushed y @ done)" for e
    proof (cases "e \<in> set done")
      case True
      then show ?thesis using out(2) flushed(4) by simp
    next
      case False
      with that inv have "rows (ext (au_world y)) (ar_DecisionID e) \<noteq> None" by (simp add: audit_inv_def)
      with le show ?thesis by (metis domIff map_le_def)
    qed
    have prov: "rows (ext w0) i = Some row \<or> (\<exists>e \<in> set (au_flushed y @ done). i = ar_DecisionID e \<and> row_of js e row)"
      if "rows (ext w) i = Some row" for i row
      using out(3) [OF that] flushed(2,4) inv unfolding audit_inv_def by auto
    have base: "rows (ext w0) \<subseteq>\<^sub>m rows (ext w)"
      using inv le map_le_trans by (auto simp: audit_inv_def)
    have count: "AuditWriteErrorsTotal (tel w) = AuditWriteErrorsTotal (tel (au_world y))"
      using out(4) flushed(3) by simp
    from keep inv flushed base stored prov count show ?thesis unfolding audit_inv_def by simp
  next
    case (kept c' w1 err)
    note out = flush_outcome [OF assms(1) kept(1)]
    have le: "rows (ext (au_world y)) \<subseteq>\<^sub>m rows (ext w)" using out(1) kept(2) by simp
    have stored: "rows (ext w) (ar_DecisionID e) \<noteq> None" if "e \<in> set (au_flushed y)" for e
      using that inv le by (metis audit_inv_def domIff map_le_def)
    have prov: "rows (ext w0) i = Some row \<or>
        (\<exists>e \<in> set (au_flushed y @ batch_of (au_pc y)). i = ar_DecisionID e \<and> row_of js e row)"
      if "rows (ext w) i = Some row" for i row
      using out(3) [OF that] kept(2) inv unfolding audit_inv_def by auto
    have base: "rows (ext w0) \<subseteq>\<^sub>m rows (ext w)"
      using inv le map_le_trans by (auto simp: audit_inv_def)
    have count: "AuditWriteErrorsTotal (tel w) = Suc (AuditWriteErrorsTotal (tel (au_world y)))"
      using out(4) kept(3) by simp
    from keep inv kept base stored prov count show ?thesis unfolding audit_inv_def by simp
  qed
qed

lemma audit_step_inv:
  assumes "audit_step js rows c fc y z" and "\<And>Exec. aw_pool s0 = Some Exec \<Longrightarrow> inserts_once rows Exec"
    and "audit_inv js rows s0 w0 y"
  shows "audit_inv js rows s0 w0 z"
  using assms
proof (induction rule: audit_step.induct)
  case (offer rc entry y s w)
  from Audit_Enqueue_frame [OF offer.hyps] have "ext w = ext (au_world y)" "tel w = tel (au_world y)" by auto
  with offer.hyps offer.prems(2) show ?case
    by (elim Audit_Enqueue_outcome) (auto simp: audit_inv_def audit_closed_def)
next
  case (run y Exec rdy here s w flushed)
  have "aw_pool s0 = Some Exec" using run.hyps(1) run.prems(2) by (simp add: audit_inv_def)
  from audit_run_inv [OF run.prems(1) [OF this] run.hyps run.prems(2)] show ?case .
next
  case (other w y)
  then show ?case by (simp add: audit_inv_def)
qed

lemma audit_reachable_writer:
  assumes "audit_reachable js rows c fc s0 w0 y" and "\<not> aw_closed s0"
  shows "aw_pool (au_writer y) = aw_pool s0 \<and> aw_capacity (au_writer y) = aw_capacity s0 \<and>
    aw_batchSize (au_writer y) = aw_batchSize s0 \<and> aw_closed (au_writer y) = shutting_down (au_pc y)"
  using assms(1)
proof (induction rule: audit_reachable.induct)
  case start
  show ?case using assms(2) by (simp add: audit_start_def)
next
  case (step y z)
  from step.hyps(2) step.IH show ?case
  proof (induction rule: audit_step.induct)
    case (offer rc entry y s w)
    from offer.hyps offer.prems show ?case by (elim Audit_Enqueue_outcome) auto
  next
    case (run y Exec rdy here s w flushed)
    from audit_run_step_writer [OF run.hyps(2)] run.prems show ?case by simp
  next
    case (other w y)
    then show ?case by simp
  qed
qed

lemma audit_reachable_inv:
  assumes "audit_reachable js rows c fc s0 w0 y" and "\<And>Exec. aw_pool s0 = Some Exec \<Longrightarrow> inserts_once rows Exec"
    and "aw_queue s0 = []" and "\<not> aw_closed s0"
  shows "audit_inv js rows s0 w0 y"
  using assms(1)
proof (induction rule: audit_reachable.induct)
  case start
  show ?case using assms(3,4) by (simp add: audit_inv_def audit_start_def)
next
  case (step y z)
  from audit_step_inv [OF step.hyps(2) assms(2) step.IH] show ?case .
qed

lemma NewAuditWriter_fresh [simp]:
  "aw_queue (NewAuditWriter pool q b) = []" "\<not> aw_closed (NewAuditWriter pool q b)"
  "aw_pool (NewAuditWriter pool q b) = pool" "aw_dropped (NewAuditWriter pool q b) = 0"
  "aw_capacity (NewAuditWriter pool q b) = (if q \<le> 0 then 10000 else nat q)"
  "aw_batchSize (NewAuditWriter pool q b) = (if b \<le> 0 then 100 else nat b)"
  by (simp_all add: NewAuditWriter_def Let_def)

text \<open>The steps of a run written out, for building reachable states.\<close>

lemma audit_reach_run:
  assumes "audit_reachable js rows c fc s0 w0
      \<lparr>au_writer = s, au_pc = pc, au_world = w, au_accepted = acc, au_flushed = fl\<rparr>"
    and "aw_pool s = Some Exec"
    and "audit_run_step js Exec c fc rdy pc s w = Some (here, s', w', done)"
  shows "audit_reachable js rows c fc s0 w0
      \<lparr>au_writer = s', au_pc = here, au_world = w', au_accepted = acc, au_flushed = fl @ done\<rparr>"
  using audit_reachable.step [OF assms(1) audit_step.run [where rdy = rdy and Exec = Exec]] assms(2,3) by simp

lemma audit_reach_offer:
  assumes "audit_reachable js rows c fc s0 w0
      \<lparr>au_writer = s, au_pc = pc, au_world = w, au_accepted = acc, au_flushed = fl\<rparr>"
    and "\<not> audit_closed (Some s)" and "length (aw_queue s) < aw_capacity s"
  shows "audit_reachable js rows c fc s0 w0
      \<lparr>au_writer = s\<lparr>aw_queue := aw_queue s @ [entry]\<rparr>, au_pc = pc, au_world = snd (poll background w),
       au_accepted = acc @ [entry], au_flushed = fl\<rparr>"
proof -
  have "Audit_Enqueue background entry (Some s, w) =
      (Some (s\<lparr>aw_queue := aw_queue s @ [entry]\<rparr>), snd (poll background w))"
    using assms(2,3) by (cases "aw_pool s") (simp_all add: Audit_Enqueue_def audit_closed_def poll_def)
  from audit_reachable.step [OF assms(1) audit_step.offer [where rc = background and entry = entry]] this
  show ?thesis by simp
qed

section \<open>Properties\<close>

text \<open>
  C10. The audit writer neither loses nor reorders what it accepted. In every state that offers and \<open>Run\<close>
  can reach together, the accepted records are exactly those whose flush succeeded, then the batch,
  then the queue, in the order of acceptance; the queue respects its capacity; and once \<open>Run\<close> has
  returned, everything accepted was flushed or the error counter has grown.
\<close>

theorem audit_writer_conserves:
  assumes "audit_reachable js rows c fc (NewAuditWriter (Some Exec) queueSize batchSize) w0 y"
    and "inserts_once rows Exec"
  shows "au_accepted y = au_flushed y @ batch_of (au_pc y) @ aw_queue (au_writer y) \<and>
    length (aw_queue (au_writer y)) \<le> (if queueSize \<le> 0 then 10000 else nat queueSize) \<and>
    (returned (au_pc y) \<longrightarrow> au_accepted y = au_flushed y \<or>
       AuditWriteErrorsTotal (tel w0) < AuditWriteErrorsTotal (tel (au_world y)))"
proof -
  have inv: "audit_inv js rows (NewAuditWriter (Some Exec) queueSize batchSize) w0 y"
    by (rule audit_reachable_inv [OF assms(1)]) (use assms(2) in simp_all)
  show ?thesis using inv unfolding audit_inv_def NewAuditWriter_fresh by (auto split: if_splits)
qed

text \<open>
  C17. Every flushed decision has exactly its own row. If the ids of the accepted records are distinct
  and the table starts without them, the row of a flushed record is the one made from that record,
  however often its batch was tried before, and the table holds nothing but records of the writer.
\<close>

theorem audit_rows:
  assumes "audit_reachable js rows c fc (NewAuditWriter (Some Exec) queueSize batchSize) w0 y"
    and "inserts_once rows Exec" and "dom (rows (ext w0)) = {}" and "distinct (map ar_DecisionID (au_accepted y))"
  shows "(\<forall>entry \<in> set (au_flushed y). \<exists>row. rows (ext (au_world y)) (ar_DecisionID entry) = Some row \<and>
      row_of js entry row) \<and>
    dom (rows (ext (au_world y))) \<subseteq> ar_DecisionID ` set (au_flushed y @ batch_of (au_pc y))"
proof -
  have inv: "audit_inv js rows (NewAuditWriter (Some Exec) queueSize batchSize) w0 y"
    by (rule audit_reachable_inv [OF assms(1)]) (use assms(2) in simp_all)
  let ?known = "au_flushed y @ batch_of (au_pc y)"
  have prov: "\<exists>e \<in> set ?known. i = ar_DecisionID e \<and> row_of js e row"
    if "rows (ext (au_world y)) i = Some row" for i row
    using inv that assms(3) unfolding audit_inv_def by (metis domIff empty_iff option.distinct(1))
  have "set ?known \<subseteq> set (au_accepted y)" using inv by (auto simp: audit_inv_def)
  then have inj: "e = e'" if "e \<in> set ?known" "e' \<in> set ?known" "ar_DecisionID e = ar_DecisionID e'" for e e'
    using assms(4) that by (meson distinct_map inj_onD subsetD)
  have "\<exists>row. rows (ext (au_world y)) (ar_DecisionID entry) = Some row \<and> row_of js entry row"
    if "entry \<in> set (au_flushed y)" for entry
  proof -
    from inv that obtain row where row: "rows (ext (au_world y)) (ar_DecisionID entry) = Some row"
      unfolding audit_inv_def by blast
    with prov obtain e where e: "e \<in> set ?known" "ar_DecisionID entry = ar_DecisionID e" "row_of js e row" by blast
    have "entry = e" by (rule inj [OF _ e(1,2)]) (use that in simp)
    with row e(3) show ?thesis by blast
  qed
  moreover have "dom (rows (ext (au_world y))) \<subseteq> ar_DecisionID ` set ?known" using prov by blast
  ultimately show ?thesis by blast
qed

text \<open>
  C35. A record that the database refuses blocks all records behind it. If every insertion of a record
  fails without effect, no flush that holds it ever succeeds: the record is never flushed, only
  records accepted before it can ever get a row, and everything accepted from it on stays in
  memory as long as \<open>Run\<close> goes on.
\<close>

theorem audit_poison:
  assumes "audit_reachable js rows c fc (NewAuditWriter (Some Exec) queueSize batchSize) w0 y"
    and "inserts_once rows Exec" and "poison rows Exec p" and "dom (rows (ext w0)) = {}"
  shows "dom (rows (ext (au_world y))) \<subseteq> ar_DecisionID ` set (takeWhile (\<lambda>e. e \<noteq> p) (au_accepted y)) \<and>
    p \<notin> set (au_flushed y) \<and>
    (p \<in> set (au_accepted y) \<longrightarrow> set (dropWhile (\<lambda>e. e \<noteq> p) (au_accepted y)) \<subseteq>
       set (batch_of (au_pc y) @ aw_queue (au_writer y)))"
proof -
  let ?s0 = "NewAuditWriter (Some Exec) queueSize batchSize"
  let ?before = "takeWhile (\<lambda>e. e \<noteq> p)"
  have "dom (rows (ext (au_world y))) \<subseteq> ar_DecisionID ` set (?before (au_accepted y)) \<and> p \<notin> set (au_flushed y)"
    using assms(1)
  proof (induction rule: audit_reachable.induct)
    case start
    show ?case using assms(4) by (simp add: audit_start_def)
  next
    case (step y z)
    have inv: "audit_inv js rows ?s0 w0 y"
      by (rule audit_reachable_inv [OF step.hyps(1)]) (use assms(2) in simp_all)
    from step.hyps(2) step.IH inv show ?case
    proof (induction rule: audit_step.induct)
      case (offer rc entry y s w)
      from Audit_Enqueue_frame [OF offer.hyps] have "ext w = ext (au_world y)" by simp
      with offer.prems(1) show ?case
        using takeWhile_append_mono [of "\<lambda>e. e \<noteq> p" "au_accepted y"
            "if aw_queue s = aw_queue (au_writer y) then [] else [entry]"]
        by (fastforce simp del: takeWhile_append)
    next
      case (run y Exec' rdy here s w flushed)
      have e: "Exec' = Exec" using run.hyps(1) run.prems(2) by (simp add: audit_inv_def)
      have acc: "au_accepted y = au_flushed y @ batch_of (au_pc y) @ aw_queue (au_writer y)"
        using run.prems(2) by (simp add: audit_inv_def)
      have p: "p \<notin> set (au_flushed y)" using run.prems(1) by simp
      have flush: "dom (rows (ext w)) \<subseteq> ar_DecisionID ` set (?before (au_accepted y)) \<and>
          (err = None \<longrightarrow> p \<notin> set (batch_of (au_pc y)))"
        if "flush js Exec' c' (batch_of (au_pc y)) w1 = (err, w)" "ext w1 = ext (au_world y)" for c' w1 err
      proof -
        have "set (?before (batch_of (au_pc y))) \<subseteq> set (?before (au_accepted y))"
        proof -
          have "?before (au_accepted y) = au_flushed y @ ?before (batch_of (au_pc y) @ aw_queue (au_writer y))"
            unfolding acc using p by (intro takeWhile_append2) auto
          with takeWhile_append_mono [of "\<lambda>e. e \<noteq> p" "batch_of (au_pc y)" "aw_queue (au_writer y)"]
          show ?thesis by auto
        qed
        then have "ar_DecisionID ` set (?before (batch_of (au_pc y))) \<subseteq> ar_DecisionID ` set (?before (au_accepted y))"
          by (rule image_mono)
        with flush_poison [OF assms(2,3) that(1) [unfolded e], unfolded that(2)] run.prems(1)
        show ?thesis by blast
      qed
      from run.hyps(2) show ?case
      proof (cases rule: audit_run_step_outcome)
        case (move taken)
        with run.prems(1) show ?thesis by simp
      next
        case (flushed c' w1)
        from flush [OF flushed(1,2)] flushed(4) p show ?thesis by simp
      next
        case (kept c' w1 err)
        from flush [OF kept(1,2)] kept(4) p show ?thesis by simp
      qed
    next
      case (other w y)
      then show ?case by simp
    qed
  qed
  moreover from audit_reachable_inv [OF assms(1)] assms(2)
  have acc: "au_accepted y = au_flushed y @ batch_of (au_pc y) @ aw_queue (au_writer y)"
    by (simp add: audit_inv_def)
  moreover from calculation have "dropWhile (\<lambda>e. e \<noteq> p) (au_accepted y) =
      dropWhile (\<lambda>e. e \<noteq> p) (batch_of (au_pc y) @ aw_queue (au_writer y))"
    unfolding acc by (intro dropWhile_append2) auto
  moreover have "set (dropWhile (\<lambda>e. e \<noteq> p) (batch_of (au_pc y) @ aw_queue (au_writer y))) \<subseteq>
      set (batch_of (au_pc y) @ aw_queue (au_writer y))"
    by (auto dest: set_dropWhileD)
  ultimately show ?thesis by simp
qed

text \<open>
  C36. The batch has no bound of its own. While the database is unavailable every flush fails and keeps
  the batch, and \<open>Run\<close> goes on taking records from the queue: whatever the queue and batch sizes,
  states with arbitrarily long batches and an empty queue are reachable, with nothing dropped.
\<close>

theorem audit_batch_unbounded:
  assumes "\<forall>c args w. fst (Exec c insert_decision args w) \<noteq> None"
  shows "\<exists>y batch. audit_reachable js rows background fc (NewAuditWriter (Some Exec) queueSize batchSize) w0 y \<and>
    au_pc y = Looping batch \<and> length batch = n \<and> aw_dropped (au_writer y) = 0 \<and> aw_queue (au_writer y) = []"
proof (induction n)
  case 0
  show ?case
    by (intro exI [of _ "audit_start (NewAuditWriter (Some Exec) queueSize batchSize) w0"] exI [of _ "[]"])
      (simp add: audit_reachable.start, simp add: audit_start_def)
next
  case (Suc n)
  let ?s0 = "NewAuditWriter (Some Exec) queueSize batchSize"
  let ?reach = "audit_reachable js rows background fc ?s0 w0"
  from Suc obtain y batch where y: "?reach y" "au_pc y = Looping batch" "length batch = n"
    "aw_dropped (au_writer y) = 0" "aw_queue (au_writer y) = []" by (elim exE conjE) (rule that)
  obtain s w acc fl where ys: "y = \<lparr>au_writer = s, au_pc = Looping batch, au_world = w, au_accepted = acc, au_flushed = fl\<rparr>"
    using y(2) by (cases y) simp
  note s = audit_reachable_writer [OF y(1), unfolded ys, simplified]
  obtain entry :: AuditRecord where True by simp
  have "?reach \<lparr>au_writer = s\<lparr>aw_queue := aw_queue s @ [entry]\<rparr>, au_pc = Looping batch,
      au_world = snd (poll background w), au_accepted = acc @ [entry], au_flushed = fl\<rparr>"
    by (rule audit_reach_offer [OF y(1) [unfolded ys]]) (use s y(5) in \<open>simp_all add: audit_closed_def ys\<close>)
  from audit_reach_run [OF this, where rdy = RecordReady] s y(5)
  have r2: "?reach \<lparr>au_writer = s\<lparr>aw_queue := []\<rparr>, au_pc = Appended (batch @ [entry]),
      au_world = snd (poll background w), au_accepted = acc @ [entry], au_flushed = fl\<rparr>"
    by (simp add: ys)
  have fails: "fst (flush js Exec background (batch @ [entry]) w) \<noteq> None" for w
  proof -
    have "records \<noteq> [] \<Longrightarrow> fst (flush js Exec background records w) \<noteq> None" for records w
    proof (cases records)
      case (Cons e rest)
      have "fst (Exec background insert_decision args w) \<noteq> None" for args using assms by blast
      then show ?thesis unfolding Cons
        by (auto split: sum.splits prod.splits option.splits) (metis fst_conv option.distinct(1))
    qed simp
    then show ?thesis by simp
  qed
  let ?w1 = "snd (poll background w)"
  let ?w2 = "snd (poll background ?w1)"
  obtain w3 where "audit_run_step js Exec background fc TickReady (Appended (batch @ [entry])) (s\<lparr>aw_queue := []\<rparr>) ?w1 =
      Some (Looping (batch @ [entry]), s\<lparr>aw_queue := []\<rparr>, w3, [])"
  proof (cases "aw_batchSize s \<le> length (batch @ [entry])")
    case True
    obtain e w3 where "flush js Exec background (batch @ [entry]) ?w2 = (Some e, w3)"
      using fails [of ?w2] by (cases "flush js Exec background (batch @ [entry]) ?w2") auto
    with True show ?thesis by (intro that [of w3]) (simp add: poll_def flush_batch_def)
  next
    case False
    then show ?thesis by (intro that [of ?w2]) (simp add: poll_def)
  qed
  from audit_reach_run [OF r2 _ this] s
  have r3: "?reach \<lparr>au_writer = s\<lparr>aw_queue := []\<rparr>, au_pc = Looping (batch @ [entry]), au_world = w3,
      au_accepted = acc @ [entry], au_flushed = fl\<rparr>" by simp
  show ?case
    by (rule exI, rule exI [of _ "batch @ [entry]"], rule conjI, rule r3) (use y(3,4) in \<open>simp add: ys\<close>)
qed

text \<open>
  C21. Every decision is audited or its loss is counted. Take the writer as audit sink of the engine and a
  decision under a live context, and compare the writer after it with the writer as the same evaluation
  without the sink leaves it. If the writer was closed, nothing of it changed. Otherwise, if its queue had
  room, the queue has grown at its end by exactly one record, which carries the id, verdict, score,
  reasons and rules of the response and the request, and the drop counter is the same; and if the queue was full, it
  is unchanged and the drop counter has grown by exactly one.
\<close>

theorem decision_is_audited:
  assumes "RuleEngine_Evaluate (WithAuditSink (sink_at get put Audit_Enqueue) e) c req w = (Inr response, w')"
    and "\<forall>n. c n = None"
    and "\<forall>r. \<exists>s. get r = Some s"
    and "\<forall>r s t. get r = Some t \<longrightarrow> aw_pool s = aw_pool t \<longrightarrow> aw_capacity s = aw_capacity t \<longrightarrow>
      aw_batchSize s = aw_batchSize t \<longrightarrow> get (put (Some s) r) = Some s"
  shows "\<exists>w1 entry. RuleEngine_Evaluate (e\<lparr>re_audit := None\<rparr>) c req w = (Inr response, w1) \<and>
    ar_DecisionID entry = dp_DecisionID response \<and> ar_Verdict entry = dp_Verdict response \<and>
    ar_Score entry = dp_Score response \<and> ar_Reasons entry = dp_Reasons response \<and>
    ar_EvaluatedRules entry = dp_EvaluatedRules response \<and> ar_Request entry = req \<and>
    audit_queue (get (ext w')) =
      (if audit_closed (get (ext w1)) \<or> audit_capacity (get (ext w1)) \<le> length (audit_queue (get (ext w1)))
       then audit_queue (get (ext w1)) else audit_queue (get (ext w1)) @ [entry]) \<and>
    Audit_Dropped (get (ext w')) = Audit_Dropped (get (ext w1)) +
      (if \<not> audit_closed (get (ext w1)) \<and> audit_capacity (get (ext w1)) \<le> length (audit_queue (get (ext w1)))
       then 1 else 0)"
proof -
  from assms(1) obtain w1 where run: "RuleEngine_Evaluate (e\<lparr>re_audit := None\<rparr>) c req w = (Inr response, w1)"
    and w': "w' = sink_at get put Audit_Enqueue c
      (audit_record req response (clock w1 (ticks w1) - clock w (ticks w))) (snd (time_now w1))"
    by (rule audited_run)
  let ?entry = "audit_record req response (clock w1 (ticks w1) - clock w (ticks w))"
  have ext: "ext (snd (time_now w1)) = ext w1" by (simp add: time_now_def)
  obtain t where t: "get (ext w1) = Some t" using assms(3) by blast
  have lens: "get (put s (ext (snd (time_now w1)))) = s"
    if one: "Audit_Enqueue c ?entry (get (ext (snd (time_now w1))), snd (time_now w1)) = (s, u)" for s u
  proof -
    obtain s' where "s = Some s'" "aw_pool s' = aw_pool t" "aw_capacity s' = aw_capacity t" "aw_batchSize s' = aw_batchSize t"
      using one unfolding ext t by (elim Audit_Enqueue_outcome) auto
    with assms(4) t show ?thesis unfolding ext by blast
  qed
  have live: "c n = None" for n using assms(2) by blast
  note offer = audit.sink_at_offer [where c = c and entry = ?entry and get = get and put = put and w = "snd (time_now w1)",
      OF lens live, folded w', unfolded ext]
  from run offer show ?thesis
    by (intro exI [of _ w1] exI [of _ ?entry] conjI) (assumption | simp add: audit_record_def)+
qed

text \<open>What \<open>drainQueued\<close> and the final flush still have to do: every step takes something away.\<close>

fun audit_drain_work :: "audit_pc \<Rightarrow> 'r AuditWriter \<Rightarrow> nat" where
  "audit_drain_work (DrainingQueue batch) s = Suc (length (aw_queue s))"
| "audit_drain_work (Looping batch) s = 0"
| "audit_drain_work (Appended batch) s = 0"
| "audit_drain_work (Returned batch) s = 0"

text \<open>
  The audit writer's goroutine ends as well. Once it drains, it has a step that it can take until it has returned,
  each of its steps leaves strictly less to do whatever the database answers, and offers, being refused, never
  add to it.
\<close>

theorem audit_drain_ends:
  assumes "aw_closed s"
  shows "(\<exists>rdy. audit_run_step js Exec c fc rdy (DrainingQueue batch) s w \<noteq> None) \<and>
    (\<forall>rdy here s' w' flushed. audit_run_step js Exec c fc rdy (DrainingQueue batch) s w = Some (here, s', w', flushed) \<longrightarrow>
       audit_drain_work here s' < audit_drain_work (DrainingQueue batch) s \<and> aw_closed s' \<and> shutting_down here) \<and>
    (\<forall>rc entry w'. fst (Audit_Enqueue rc entry (Some s, w')) = Some s)"
proof (intro conjI allI impI)
  show "\<exists>rdy. audit_run_step js Exec c fc rdy (DrainingQueue batch) s w \<noteq> None"
  proof (cases "aw_queue s")
    case Nil
    then show ?thesis by (intro exI [of _ NothingReady]) simp
  next
    case (Cons entry rest)
    then show ?thesis by (intro exI [of _ RecordReady]) simp
  qed
next
  fix rdy here s' w' flushed
  assume "audit_run_step js Exec c fc rdy (DrainingQueue batch) s w = Some (here, s', w', flushed)"
  then show "audit_drain_work here s' < audit_drain_work (DrainingQueue batch) s" "aw_closed s'" "shutting_down here"
    using assms by (cases rdy; auto simp: flush_batch_def split: option.splits list.splits if_splits prod.splits)+
next
  fix rc entry w'
  show "fst (Audit_Enqueue rc entry (Some s, w')) = Some s"
    using assms by (simp add: Audit_Enqueue_def poll_def split: option.split)
qed

section \<open>Witnesses\<close>

text \<open>A database that keeps its table in memory and, like Postgres, refuses a text with a zero byte.\<close>

definition mem_exec :: "(string \<rightharpoonup> any list) Exec" where
  "mem_exec c sql args w =
     (case args of
        AString i # AString actor # rest \<Rightarrow>
          if CHR 0x00 \<in> set actor then (Some ''invalid byte sequence'', w)
          else (None, w\<lparr>ext := insert_row i args (ext w)\<rparr>)
      | _ \<Rightarrow> (Some ''wrong arguments'', w))"

definition plain_json :: json_codec where
  "plain_json = \<lparr>js_Reasons = (\<lambda>_. Inr ''[]''), js_Request = (\<lambda>_. Inr ''{}'')\<rparr>"

definition sample_entry :: AuditRecord where
  "sample_entry = audit_record sample_request (Combine []) 0"

definition nul_entry :: AuditRecord where
  "nul_entry = sample_entry\<lparr>ar_ActorID := [CHR 0x00]\<rparr>"

lemma mem_exec_inserts_once: "inserts_once id mem_exec"
  by (auto simp: inserts_once_def mem_exec_def split: list.splits any.splits if_splits)

lemma nul_entry_poison: "poison id mem_exec nul_entry"
  by (simp add: poison_def mem_exec_def decision_row_def nul_entry_def)

lemma sample_audit_run:
  "\<exists>y. audit_reachable plain_json id (\<lambda>_. Some Canceled) background (NewAuditWriter (Some mem_exec) 1 1)
      (start_world Map.empty) y \<and> au_pc y = Returned [] \<and> au_accepted y = [sample_entry] \<and> au_flushed y = [sample_entry]"
proof -
  let ?c = "\<lambda>_. Some Canceled" and ?s0 = "NewAuditWriter (Some mem_exec) 1 1"
  let ?reach = "audit_reachable plain_json id ?c background ?s0 (start_world Map.empty)"
  let ?w1 = "snd (poll background (start_world Map.empty))"
  have "?reach \<lparr>au_writer = ?s0, au_pc = Looping [], au_world = start_world Map.empty, au_accepted = [], au_flushed = []\<rparr>"
    using audit_reachable.start [of plain_json id ?c background ?s0 "start_world Map.empty"] by (simp add: audit_start_def)
  from audit_reach_offer [OF this, of sample_entry]
  have r1: "?reach \<lparr>au_writer = ?s0\<lparr>aw_queue := [sample_entry]\<rparr>, au_pc = Looping [], au_world = ?w1,
      au_accepted = [sample_entry], au_flushed = []\<rparr>" by (simp add: audit_closed_def)
  from audit_reach_run [OF r1, where rdy = CtxDone]
  have r2: "?reach \<lparr>au_writer = close_audit (?s0\<lparr>aw_queue := [sample_entry]\<rparr>), au_pc = DrainingQueue [],
      au_world = snd (poll ?c ?w1), au_accepted = [sample_entry], au_flushed = []\<rparr>" by (simp add: poll_def)
  from audit_reach_run [OF r2, where rdy = RecordReady]
  have r3: "?reach \<lparr>au_writer = close_audit ?s0, au_pc = DrainingQueue [sample_entry],
      au_world = snd (poll ?c ?w1), au_accepted = [sample_entry], au_flushed = []\<rparr>"
    by (simp add: close_audit_def NewAuditWriter_def)
  obtain w3 where "flush plain_json mem_exec background [sample_entry] (snd (poll ?c ?w1)) = (None, w3)"
    by (simp add: plain_json_def mem_exec_def decision_row_def sample_entry_def audit_record_def sample_request_def)
  with audit_reach_run [OF r3, where rdy = NothingReady]
  have r4: "?reach \<lparr>au_writer = close_audit ?s0, au_pc = Returned [],
      au_world = w3, au_accepted = [sample_entry], au_flushed = [sample_entry]\<rparr>"
    by (simp add: close_audit_def flush_batch_def)
  show ?thesis by (rule exI, rule conjI, rule r4) simp
qed

theorem audit_writer_conserves_witness:
  "\<exists>y. audit_reachable plain_json id (\<lambda>_. Some Canceled) background (NewAuditWriter (Some mem_exec) 1 1)
      (start_world Map.empty) y \<and> au_flushed y = [sample_entry] \<and>
    au_accepted y = au_flushed y @ batch_of (au_pc y) @ aw_queue (au_writer y)"
proof -
  from sample_audit_run obtain y where
    y: "audit_reachable plain_json id (\<lambda>_. Some Canceled) background (NewAuditWriter (Some mem_exec) 1 1)
      (start_world Map.empty) y" "au_flushed y = [sample_entry]" by (elim exE conjE) (rule that)
  from audit_writer_conserves [OF y(1) mem_exec_inserts_once] y show ?thesis by blast
qed

theorem audit_rows_witness:
  "\<exists>y row. audit_reachable plain_json id (\<lambda>_. Some Canceled) background (NewAuditWriter (Some mem_exec) 1 1)
      (start_world Map.empty) y \<and> ext (au_world y) (ar_DecisionID sample_entry) = Some row \<and>
    row_of plain_json sample_entry row"
proof -
  from sample_audit_run obtain y where
    y: "audit_reachable plain_json id (\<lambda>_. Some Canceled) background (NewAuditWriter (Some mem_exec) 1 1)
      (start_world Map.empty) y" "au_accepted y = [sample_entry]" "au_flushed y = [sample_entry]"
    by (elim exE conjE) (rule that)
  have "dom (id (ext (start_world (Map.empty :: string \<rightharpoonup> any list)))) = {}" "distinct (map ar_DecisionID (au_accepted y))"
    by (simp_all add: start_world_def y(2))
  from audit_rows [OF y(1) mem_exec_inserts_once this] y show ?thesis by (simp add: Bex_def) blast
qed

theorem audit_poison_witness:
  "\<exists>y. audit_reachable plain_json id background background (NewAuditWriter (Some mem_exec) 2 1)
      (start_world Map.empty) y \<and> au_accepted y = [nul_entry, sample_entry] \<and> dom (ext (au_world y)) = {}"
proof -
  let ?s0 = "NewAuditWriter (Some mem_exec) 2 1"
  let ?reach = "audit_reachable plain_json id background background ?s0 (start_world Map.empty)"
  have "?reach \<lparr>au_writer = ?s0, au_pc = Looping [], au_world = start_world Map.empty, au_accepted = [], au_flushed = []\<rparr>"
    using audit_reachable.start [of plain_json id background background ?s0 "start_world Map.empty"]
    by (simp add: audit_start_def)
  from audit_reach_offer [OF this, of nul_entry]
  obtain w1 where "?reach \<lparr>au_writer = ?s0\<lparr>aw_queue := [nul_entry]\<rparr>, au_pc = Looping [], au_world = w1,
      au_accepted = [nul_entry], au_flushed = []\<rparr>" by (simp add: audit_closed_def)
  from audit_reach_offer [OF this, of sample_entry]
  obtain y where y: "?reach y" "au_accepted y = [nul_entry, sample_entry]"
    by (simp add: audit_closed_def)
  from audit_poison [OF y(1) mem_exec_inserts_once nul_entry_poison] have "dom (id (ext (au_world y))) \<subseteq> {}"
    by (simp add: y(2) start_world_def)
  with y show ?thesis by (intro exI [of _ y]) simp
qed

theorem audit_batch_unbounded_witness:
  "\<exists>y batch. audit_reachable plain_json id background background
      (NewAuditWriter (Some (\<lambda>c sql args w. (Some ''connection refused'', w))) 1 1) (start_world Map.empty) y \<and>
    au_pc y = Looping batch \<and> length batch = 1000"
proof -
  have "\<forall>c args (w :: (string \<rightharpoonup> any list) world). fst ((\<lambda>c sql args w. (Some ''connection refused'', w)) c insert_decision args w) \<noteq> None"
    by simp
  from audit_batch_unbounded [OF this, of plain_json id background 1 1 "start_world Map.empty" 1000]
  show ?thesis by (elim exE conjE) (intro exI conjI)
qed

text \<open>A process whose memory holds the variable part of a writer with one place in its queue.\<close>

definition writer_get :: "AuditRecord list \<times> bool \<times> nat \<Rightarrow> (AuditRecord list \<times> bool \<times> nat) AuditWriter option" where
  "writer_get = (\<lambda>(queue, shut, lost). Some \<lparr>aw_pool = Some (\<lambda>c sql args w. (None, w)), aw_queue = queue, aw_capacity = 1,
     aw_batchSize = 1, aw_closed = shut, aw_dropped = lost\<rparr>)"

definition writer_put ::
    "(AuditRecord list \<times> bool \<times> nat) AuditWriter option \<Rightarrow> AuditRecord list \<times> bool \<times> nat \<Rightarrow> AuditRecord list \<times> bool \<times> nat" where
  "writer_put s r = (case s of None \<Rightarrow> r | Some s \<Rightarrow> (aw_queue s, aw_closed s, aw_dropped s))"

theorem decision_is_audited_witness:
  "\<exists>response w' entry. RuleEngine_Evaluate (WithAuditSink (sink_at writer_get writer_put Audit_Enqueue) (NewRuleEngine ''v1'' []))
      background sample_request (start_world ([], False, 0)) = (Inr response, w') \<and>
    audit_queue (writer_get (ext w')) = [entry] \<and> Audit_Dropped (writer_get (ext w')) = 0 \<and>
    ar_DecisionID entry = dp_DecisionID response \<and> ar_Verdict entry = VerdictAllow"
proof -
  let ?e = "WithAuditSink (sink_at writer_get writer_put Audit_Enqueue) (NewRuleEngine ''v1'' [])"
  obtain response w' where run: "RuleEngine_Evaluate ?e background sample_request (start_world ([], False, 0)) = (Inr response, w')"
    using RuleEngine_Evaluate_live [of background ?e sample_request "start_world ([], False, 0)"] by auto
  have one: "\<forall>r. \<exists>s. writer_get r = Some s" by (simp add: writer_get_def split_beta)
  have two: "\<forall>r s t. writer_get r = Some t \<longrightarrow> aw_pool s = aw_pool t \<longrightarrow> aw_capacity s = aw_capacity t \<longrightarrow>
      aw_batchSize s = aw_batchSize t \<longrightarrow> writer_get (writer_put (Some s) r) = Some s"
    by (auto simp: writer_get_def writer_put_def)
  have "\<forall>n. background n = None" by simp
  from decision_is_audited [OF run this one two] obtain w1 entry where
    w1: "RuleEngine_Evaluate ((NewRuleEngine ''v1'' [])\<lparr>re_audit := None\<rparr>) background sample_request
      (start_world ([], False, 0)) = (Inr response, w1)"
    and entry: "ar_DecisionID entry = dp_DecisionID response" "ar_Verdict entry = dp_Verdict response"
    and view: "audit_queue (writer_get (ext w')) =
      (if audit_closed (writer_get (ext w1)) \<or> audit_capacity (writer_get (ext w1)) \<le> length (audit_queue (writer_get (ext w1)))
       then audit_queue (writer_get (ext w1)) else audit_queue (writer_get (ext w1)) @ [entry])"
      "Audit_Dropped (writer_get (ext w')) = Audit_Dropped (writer_get (ext w1)) +
      (if \<not> audit_closed (writer_get (ext w1)) \<and> audit_capacity (writer_get (ext w1)) \<le> length (audit_queue (writer_get (ext w1)))
       then 1 else 0)"
    by blast
  from w1 have "ext w1 = ([], False, 0)" "dp_Verdict response = VerdictAllow"
    by (auto simp: RuleEngine_Evaluate_def NewRuleEngine_def time_now_def poll_def lookup_features_def Let_def
        respond_def time_since_def new_uuid_def Combine_def combine_init_def tel_upd_def start_world_def)
  with run entry view show ?thesis
    by (intro exI [of _ response] exI [of _ w'] exI [of _ entry])
      (simp add: writer_get_def audit_view)
qed

theorem audit_drain_ends_witness:
  "fst (Audit_Enqueue background sample_entry (Some (close_audit (NewAuditWriter (Some mem_exec) 1 1)), start_world Map.empty)) = Some (close_audit (NewAuditWriter (Some mem_exec) 1 1))"
proof -
  have "aw_closed (close_audit (NewAuditWriter (Some mem_exec) 1 1))" by (simp add: close_audit_def)
  from audit_drain_ends [OF this, of plain_json mem_exec background background "[]" "start_world Map.empty"]
  show ?thesis by blast
qed


end
