(* ===== verification/Stores.thy ===== *)
theory Stores
  imports Rate_Limit Kafka_Sink Audit_Writer
begin

text \<open>
  The wrappers around the clients of other systems: \<open>internal/store/postgres.go\<close>,
  \<open>internal/store/redis.go\<close> and \<open>internal/sink/franz.go\<close>. What the packages \<open>pgxpool\<close>, \<open>go-redis\<close> and
  \<open>franz-go\<close> return is a parameter: a record of the operations of a pool or client. A pointer to a
  wrapper is an \<open>option\<close>.
\<close>

section \<open>Postgres\<close>

record 'r pool =
  po_Exec :: "'r Exec"
  po_Ping :: "ctx \<Rightarrow> 'r world \<Rightarrow> gerror option \<times> 'r world"
  po_Close :: "'r world \<Rightarrow> 'r world"

record 'r Postgres =
  pg_pool :: "'r pool"

definition NewPostgres ::
    "(ctx \<Rightarrow> string \<Rightarrow> 'r world \<Rightarrow> (gerror + 'r pool) \<times> 'r world) \<Rightarrow> ctx \<Rightarrow> string \<Rightarrow> 'r world
       \<Rightarrow> (gerror + 'r Postgres) \<times> 'r world" where
  "NewPostgres pgxpool_New c databaseURL w =
     (case pgxpool_New c databaseURL w of
        (Inl err, w) \<Rightarrow> (Inl err, w)
      | (Inr pool, w) \<Rightarrow>
          (case po_Ping pool c w of
             (Some err, w) \<Rightarrow> (Inl err, po_Close pool w)
           | (None, w) \<Rightarrow> (Inr \<lparr>pg_pool = pool\<rparr>, w)))"

definition Postgres_Health :: "'r Postgres \<Rightarrow> ctx \<Rightarrow> 'r world \<Rightarrow> gerror option \<times> 'r world" where
  "Postgres_Health p c w = po_Ping (pg_pool p) c w"

definition Postgres_Pool :: "'r Postgres option \<Rightarrow> 'r pool option" where
  "Postgres_Pool p = (case p of None \<Rightarrow> None | Some p \<Rightarrow> Some (pg_pool p))"

definition Postgres_Close :: "'r Postgres option \<Rightarrow> 'r world \<Rightarrow> 'r world" where
  "Postgres_Close p w = (case p of None \<Rightarrow> w | Some p \<Rightarrow> po_Close (pg_pool p) w)"

section \<open>Redis\<close>

record 'r redis_conn =
  rc_Cmdable :: "'r Cmdable"
  rc_Ping :: "ctx \<Rightarrow> 'r world \<Rightarrow> gerror option \<times> 'r world"
  rc_Close :: "'r world \<Rightarrow> gerror option \<times> 'r world"

record 'r Redis =
  rs_client :: "'r redis_conn"

definition NewRedis ::
    "(string \<Rightarrow> gerror + 'o) \<Rightarrow> ('o \<Rightarrow> 'r redis_conn) \<Rightarrow> ctx \<Rightarrow> string \<Rightarrow> 'r world
       \<Rightarrow> (gerror + 'r Redis) \<times> 'r world" where
  "NewRedis ParseURL NewClient c redisURL w =
     (case ParseURL redisURL of
        Inl err \<Rightarrow> (Inl err, w)
      | Inr options \<Rightarrow>
          (case rc_Ping (NewClient options) c w of
             (Some err, w) \<Rightarrow> (Inl err, snd (rc_Close (NewClient options) w))
           | (None, w) \<Rightarrow> (Inr \<lparr>rs_client = NewClient options\<rparr>, w)))"

definition Redis_Health :: "'r Redis \<Rightarrow> ctx \<Rightarrow> 'r world \<Rightarrow> gerror option \<times> 'r world" where
  "Redis_Health r c w = rc_Ping (rs_client r) c w"

definition Redis_Client :: "'r Redis option \<Rightarrow> 'r Cmdable option" where
  "Redis_Client r = (case r of None \<Rightarrow> None | Some r \<Rightarrow> Some (rc_Cmdable (rs_client r)))"

definition Redis_Close :: "'r Redis option \<Rightarrow> 'r world \<Rightarrow> gerror option \<times> 'r world" where
  "Redis_Close r w = (case r of None \<Rightarrow> (None, w) | Some r \<Rightarrow> rc_Close (rs_client r) w)"

section \<open>Kafka\<close>

datatype kgo_opt = SeedBrokers "string list" | ClientID string

text \<open>\<open>ProduceSync\<close> of one record under a context cut off by a timeout, with its first error.\<close>

record 'r kgo_client =
  kg_ProduceSync :: "ctx \<Rightarrow> int \<Rightarrow> string \<Rightarrow> string \<Rightarrow> string \<Rightarrow> 'r world \<Rightarrow> string option \<times> 'r world"
  kg_Close :: "'r world \<Rightarrow> 'r world"

record 'r FranzPublisher =
  fp_client :: "'r kgo_client"

definition NewFranzPublisher ::
    "(kgo_opt list \<Rightarrow> 'r world \<Rightarrow> (gerror + 'r kgo_client) \<times> 'r world) \<Rightarrow> string list \<Rightarrow> string \<Rightarrow> 'r world
       \<Rightarrow> (gerror + 'r FranzPublisher) \<times> 'r world" where
  "NewFranzPublisher kgo_NewClient brokers clientID w =
     (let opts = [SeedBrokers brokers] @ (if clientID \<noteq> [] then [ClientID clientID] else []) in
      case kgo_NewClient opts w of
        (Inl err, w) \<Rightarrow> (Inl err, w)
      | (Inr client, w) \<Rightarrow> (Inr \<lparr>fp_client = client\<rparr>, w))"

definition Franz_Publish :: "'r FranzPublisher \<Rightarrow> 'r Publisher" where
  "Franz_Publish p c topic key payload w = kg_ProduceSync (fp_client p) c (5 * 1000000000) topic key payload w"

definition Franz_Close :: "'r FranzPublisher option \<Rightarrow> 'r world \<Rightarrow> 'r world" where
  "Franz_Close p w = (case p of None \<Rightarrow> w | Some p \<Rightarrow> kg_Close (fp_client p) w)"

end
