(* ===== verification/Server.thy ===== *)
theory Server
  imports API Feature_Provider Stores Config
begin

text \<open>
  \<open>cmd/server/main.go\<close>: how the process is put together. The engine that serves requests sits in a
  holder that a reload replaces; the handlers of \<open>API\<close> run on the pair of holder and world. Starting up
  is one definition with an early return for every fatal error; serving is a step relation over
  requests, reloads and whatever the rest of the world does; shutting down is the
  sequence of its actions.
\<close>

section \<open>The holder\<close>

type_synonym 'r engineHolder = "'r RuleEngine option"

definition newEngineHolder :: "'r RuleEngine \<Rightarrow> 'r engineHolder" where
  "newEngineHolder initial = Some initial"

definition holder_Evaluate :: "('r engineHolder, 'r) app_engine" where
  "holder_Evaluate c req = (\<lambda>(holder, w).
     case holder of
       None \<Rightarrow> (Inl (Errorf ''decision engine is not loaded''), holder, w)
     | Some current \<Rightarrow> (case RuleEngine_Evaluate current c req w of (out, w) \<Rightarrow> (out, holder, w)))"

definition holder_Store :: "'r RuleEngine \<Rightarrow> 'r engineHolder \<Rightarrow> 'r engineHolder" where
  "holder_Store nxt holder = Some nxt"

section \<open>Starting up\<close>

text \<open>
  The packages that \<open>main\<close> calls, and the two places where it hands a pointer to a fresh object to
  the engine: \<open>os_audit\<close> and \<open>os_kafka\<close> put the writer or the sink into the memory of the process, start
  its goroutine and give the interface value for it.
\<close>

record ('o, 'r) system =
  os_pgxpool_New :: "ctx \<Rightarrow> string \<Rightarrow> 'r world \<Rightarrow> (gerror + 'r pool) \<times> 'r world"
  os_ParseURL :: "string \<Rightarrow> gerror + 'o"
  os_NewClient :: "'o \<Rightarrow> 'r redis_conn"
  os_kgo_NewClient :: "kgo_opt list \<Rightarrow> 'r world \<Rightarrow> (gerror + 'r kgo_client) \<times> 'r world"
  os_net :: "'r net"
  os_audit :: "'r AuditWriter \<Rightarrow> 'r world \<Rightarrow> 'r AuditSink \<times> 'r world"
  os_kafka :: "'r KafkaDecisionSink \<Rightarrow> 'r world \<Rightarrow> 'r AuditSink \<times> 'r world"
  os_Listen :: "string \<Rightarrow> 'r world \<Rightarrow> gerror option \<times> 'r world"

text \<open>The variables of \<open>main\<close> that outlive its first part; a store is its error or its wrapper.\<close>

record 'r server =
  sv_cfg :: Config
  sv_postgres :: "gerror + 'r Postgres"
  sv_redis :: "gerror + 'r Redis"
  sv_featureProvider :: "'r HTTPFeatureProvider"
  sv_decisionSink :: "'r AuditSink option"
  sv_franz :: "'r FranzPublisher option"

definition pointer :: "gerror + 'v \<Rightarrow> 'v option" where
  "pointer opened = (case opened of Inl err \<Rightarrow> None | Inr v \<Rightarrow> Some v)"

text \<open>The audit writer, if there is a database.\<close>

definition open_audit ::
    "('o, 'r) system \<Rightarrow> Config \<Rightarrow> 'r Postgres option \<Rightarrow> 'r world \<Rightarrow> 'r AuditSink list \<times> 'r world" where
  "open_audit os cfg postgres w =
     (case postgres of
        None \<Rightarrow> ([], w)
      | Some p \<Rightarrow>
          (case os_audit os (NewAuditWriter (map_option po_Exec (Postgres_Pool postgres))
                  (cf_AuditQueueSize cfg) (cf_AuditBatchSize cfg)) w of
             (auditWriter, w) \<Rightarrow> ([auditWriter], w)))"

text \<open>The Kafka sink, if it is enabled; a publisher that cannot be made is fatal.\<close>

definition open_kafka ::
    "('o, 'r) system \<Rightarrow> Config \<Rightarrow> 'r AuditSink list \<Rightarrow> 'r world
       \<Rightarrow> (string \<times> gerror) + 'r AuditSink list \<times> 'r FranzPublisher option \<times> 'r world" where
  "open_kafka os cfg sinks w =
     (if \<not> cf_KafkaEnabled cfg then Inr (sinks, None, w)
      else case NewFranzPublisher (os_kgo_NewClient os) (cf_KafkaBrokers cfg) (cf_KafkaClientID cfg) w of
        (Inl err, w) \<Rightarrow> Inl (''kafka publisher init failed'', err)
      | (Inr publisher, w) \<Rightarrow>
          (case NewKafkaDecisionSink \<lparr>kd_Topic = cf_KafkaDecisionTopic cfg, kd_QueueSize = cf_KafkaQueueSize cfg,
                  kd_Publisher = Some (Franz_Publish publisher)\<rparr> w of (sink, w) \<Rightarrow>
           case os_kafka os sink w of (kafkaSink, w) \<Rightarrow>
             Inr (sinks @ [kafkaSink], Some publisher, w)))"

definition decision_sink :: "'r AuditSink list \<Rightarrow> 'r AuditSink option" where
  "decision_sink decisionSinks =
     (case decisionSinks of
        [] \<Rightarrow> None
      | [sink] \<Rightarrow> Some sink
      | _ \<Rightarrow> Some (MultiDecisionSink_Enqueue (map Some decisionSinks)))"

definition buildEngine :: "'r net \<Rightarrow> 'r server \<Rightarrow> 'r Snapshot \<Rightarrow> 'r RuleEngine" where
  "buildEngine net s snapshot =
     (let decisionEngine = WithFeatureProvider (HTTP_GetActorFeatures net (Some (sv_featureProvider s)))
            (NewRuleEngine (sn_Version snapshot) (sn_Rules snapshot)) in
      case sv_decisionSink s of None \<Rightarrow> decisionEngine | Some sink \<Rightarrow> WithAuditSink sink decisionEngine)"

text \<open>The options that both loads use.\<close>

definition loader_options :: "'r server \<Rightarrow> 'r LoaderOptions" where
  "loader_options s = \<lparr>lo_BaseDir = [], lo_Redis = Redis_Client (pointer (sv_redis s)), lo_Now = None\<rparr>"

definition load_rules :: "('env, 'ast, 'p) platform \<Rightarrow> 'r server \<Rightarrow> gerror + 'r Snapshot" where
  "load_rules pf s = LoadFile pf (cf_RulesPath (sv_cfg s)) (loader_options s)"

definition main_start ::
    "('o, 'r) system \<Rightarrow> ('env, 'ast, 'p) platform \<Rightarrow> environment \<Rightarrow> ctx \<Rightarrow> 'r world
       \<Rightarrow> (string \<times> gerror) + 'r server \<times> 'r engineHolder \<times> 'r world" where
  "main_start os pf env c w =
     (let cfg = Load env in
      case NewPostgres (os_pgxpool_New os) c (cf_DatabaseURL cfg) w of (postgres, w) \<Rightarrow>
      case NewRedis (os_ParseURL os) (os_NewClient os) c (cf_RedisURL cfg) w of (redisStore, w) \<Rightarrow>
      let featureProvider =
            NewHTTPFeatureProvider (os_net os) (cf_FeatureProviderURL cfg) (cf_FeatureProviderTimeout cfg) None in
      case open_audit os cfg (pointer postgres) w of (sinks, w) \<Rightarrow>
      case open_kafka os cfg sinks w of
        Inl fatal \<Rightarrow> Inl fatal
      | Inr (sinks, franz, w) \<Rightarrow>
          let s = \<lparr>sv_cfg = cfg, sv_postgres = postgres, sv_redis = redisStore,
                   sv_featureProvider = featureProvider, sv_decisionSink = decision_sink sinks, sv_franz = franz\<rparr> in
          case load_rules pf s of
            Inl err \<Rightarrow> Inl (''rules load failed'', err)
          | Inr snapshot \<Rightarrow>
              (case os_Listen os (cf_GRPCAddr cfg) w of
                 (Some err, w) \<Rightarrow> Inl (''grpc listen failed'', err)
               | (None, w) \<Rightarrow> Inr (s, newEngineHolder (buildEngine (os_net os) s snapshot), w)))"

section \<open>Reload and readiness\<close>

definition reload ::
    "'r net \<Rightarrow> ('env, 'ast, 'p) platform \<Rightarrow> 'r server \<Rightarrow> ('r engineHolder, 'r) app_check" where
  "reload net pf s c = (\<lambda>(holder, w).
     case poll c w of
       (Some e, w) \<Rightarrow> (Some (CtxErr e), holder, w)
     | (None, w) \<Rightarrow>
         (case load_rules pf s of
            Inl err \<Rightarrow> (Some err, holder, w)
          | Inr snapshot \<Rightarrow>
              (case poll c w of
                 (Some e, w) \<Rightarrow> (Some (CtxErr e), holder, w)
               | (None, w) \<Rightarrow> (None, holder_Store (buildEngine net s snapshot) holder, w))))"

definition ready :: "'r server \<Rightarrow> ('r engineHolder, 'r) app_check" where
  "ready s c = (\<lambda>(holder, w).
     case sv_postgres s of
       Inl pgErr \<Rightarrow> (Some pgErr, holder, w)
     | Inr postgres \<Rightarrow>
         (case sv_redis s of
            Inl redisErr \<Rightarrow> (Some redisErr, holder, w)
          | Inr redisStore \<Rightarrow>
              (case Postgres_Health postgres c w of
                 (Some err, w) \<Rightarrow> (Some err, holder, w)
               | (None, w) \<Rightarrow> (case Redis_Health redisStore c w of (out, w) \<Rightarrow> (out, holder, w)))))"

text \<open>The router; a page of another package is a handler that does not touch the holder.\<close>

definition as_page :: "(http_request \<Rightarrow> 'r world \<Rightarrow> http_response \<times> 'r world) \<Rightarrow> ('h, 'r) handler" where
  "as_page page r = (\<lambda>(h, w). case page r w of (answer, w) \<Rightarrow> (answer, h, w))"

definition router ::
    "api_codec \<Rightarrow> (http_request \<Rightarrow> 'r world \<Rightarrow> http_response \<times> 'r world) \<Rightarrow> 'r net \<Rightarrow> ('env, 'ast, 'p) platform
       \<Rightarrow> 'r server \<Rightarrow> (string option \<times> string \<times> ('r engineHolder, 'r) handler) list" where
  "router ac page net pf s = NewRouter ac (as_page page)
     \<lparr>dn_Engine = Some holder_Evaluate, dn_Ready = Some (ready s), dn_Reload = Some (reload net pf s)\<rparr>"

section \<open>Serving\<close>

text \<open>
  The states that the process can reach while it serves: after a request over HTTP or gRPC, a
  \<open>SIGHUP\<close>, or anything else that happens in the world. The files that a reload reads may have changed,
  so each step comes with a platform of its own.
\<close>

inductive serving ::
    "('o, 'r) system \<Rightarrow> environment \<Rightarrow> api_codec \<Rightarrow> 'st structpb \<Rightarrow>
     (http_request \<Rightarrow> 'r world \<Rightarrow> http_response \<times> 'r world) \<Rightarrow>
     ('env, 'ast, 'p) platform itself \<Rightarrow> 'r server \<Rightarrow> ('r engineHolder, 'r) app \<Rightarrow> bool"
  for os env ac st page and it :: "('env, 'ast, 'p) platform itself" where
  start: "main_start os (pf :: ('env, 'ast, 'p) platform) env c w = Inr (s, app) \<Longrightarrow> serving os env ac st page it s app"
| http: "serving os env ac st page it s app \<Longrightarrow>
    ServeHTTP (router ac page (os_net os) (pf :: ('env, 'ast, 'p) platform) s) (as_page page) r app = (answer, app') \<Longrightarrow>
    serving os env ac st page it s app'"
| grpc: "serving os env ac st page it s app \<Longrightarrow>
    GRPC_Decide ac st (NewGRPCServer (Some holder_Evaluate)) c greq app = (out, app') \<Longrightarrow>
    serving os env ac st page it s app'"
| hup: "serving os env ac st page it s app \<Longrightarrow>
    reload (os_net os) (pf :: ('env, 'ast, 'p) platform) s c app = (out, app') \<Longrightarrow>
    serving os env ac st page it s app'"
| other: "serving os env ac st page it s (holder, w) \<Longrightarrow> serving os env ac st page it s (holder, w')"

text \<open>The holder has an engine built from a snapshot that some load returned.\<close>

definition holds_loaded :: "('o, 'r) system \<Rightarrow> ('env, 'ast, 'p) platform itself \<Rightarrow> 'r server \<Rightarrow> 'r engineHolder \<Rightarrow> bool" where
  "holds_loaded os it s holder \<longleftrightarrow> (\<exists>(pf :: ('env, 'ast, 'p) platform) snap. load_rules pf s = Inr snap \<and>
     holder = Some (buildEngine (os_net os) s snap))"

lemma list_all2_left: "list_all2 P xs ys \<Longrightarrow> x \<in> set xs \<Longrightarrow> \<exists>y. P x y"
  by (induction rule: list_all2_induct) auto

text \<open>What each operation does to the holder: only a successful reload replaces it.\<close>

lemma reload_outcome:
  assumes "reload net pf s c (holder, w) = (out, holder', w')"
  shows "(out \<noteq> None \<longrightarrow> holder' = holder) \<and>
    (out = None \<longrightarrow> (\<exists>snap. load_rules pf s = Inr snap \<and> holder' = Some (buildEngine net s snap))) \<and>
    tel w' = tel w \<and> ext w' = ext w"
  using assms by (auto simp: reload_def holder_Store_def poll_def split: option.splits sum.splits)

lemma holder_Evaluate_holder: "holder_Evaluate c req (holder, w) = (out, holder', w') \<Longrightarrow> holder' = holder"
  by (auto simp: holder_Evaluate_def split: option.splits prod.splits)

lemma HTTP_decide_holder:
  assumes "HTTP_decide ac holder_Evaluate r (holder, w) = (answer, holder', w')"
  shows "holder' = holder"
  using assms
  by (auto simp: HTTP_decide_def Let_def dest: holder_Evaluate_holder split: if_splits sum.splits option.splits prod.splits)

lemma ready_holder: "ready s c (holder, w) = (out, holder', w') \<Longrightarrow> holder' = holder"
  by (auto simp: ready_def split: sum.splits option.splits prod.splits)

lemma ServeHTTP_holder:
  assumes "ServeHTTP (router ac page net pf s) (as_page page) r (holder, w) = (answer, holder', w')"
  shows "holder' = holder \<or> (\<exists>snap. load_rules pf s = Inr snap \<and> holder' = Some (buildEngine net s snap))"
proof -
  let ?handlers = "{healthz, readyz ac (ready s), as_page page, HTTP_decide ac holder_Evaluate, HTTP_reload ac (reload net pf s)}"
  obtain handler where h: "handler \<in> ?handlers" "handler r (holder, w) = (answer, holder', w')"
  proof (cases "find (\<lambda>(method, path, _). path = hq_Path r \<and> (method = None \<or> method = Some (hq_Method r))) (router ac page net pf s)")
    case None
    with assms that [of "as_page page"] show ?thesis by (simp add: ServeHTTP_def)
  next
    case (Some route)
    obtain m p handler where route: "route = (m, p, handler)" by (cases route)
    from Some have "route \<in> set (router ac page net pf s)" by (auto dest: find_Some_set)
    then have "handler \<in> ?handlers"
      by (auto simp: route router_def NewRouter_def default_engine_def Let_def)
    with Some assms route that show ?thesis by (simp add: ServeHTTP_def)
  qed
  then consider "handler = healthz" | "handler = readyz ac (ready s)" | "handler = as_page page"
    | "handler = HTTP_decide ac holder_Evaluate" | "handler = HTTP_reload ac (reload net pf s)" by blast
  then show ?thesis
  proof cases
    case 1
    with h(2) show ?thesis by (simp add: healthz_def)
  next
    case 2
    with h(2) show ?thesis
      using ready_holder [of s "hq_Context r" holder w] by (auto simp: readyz_def split: prod.splits option.splits)
  next
    case 3
    with h(2) show ?thesis by (auto simp: as_page_def split: prod.splits)
  next
    case 4
    with h(2) show ?thesis using HTTP_decide_holder by blast
  next
    case 5
    with h(2) reload_outcome [of net pf s "hq_Context r" holder w] show ?thesis
      by (auto simp: HTTP_reload_def split: prod.splits option.splits)
  qed
qed

lemma main_start_loaded:
  assumes "main_start os pf env c w = Inr (s, holder, w')"
  shows "(\<exists>snap. load_rules pf s = Inr snap \<and> holder = Some (buildEngine (os_net os) s snap)) \<and> sv_cfg s = Load env"
  using assms
  by (auto simp: main_start_def newEngineHolder_def Let_def split: prod.splits sum.splits option.splits)

lemma serving_holds_loaded:
  fixes it :: "('env, 'ast, 'p) platform itself"
  assumes "serving os env ac st page it s app"
  shows "holds_loaded os it s (fst app) \<and> sv_cfg s = Load env"
  using assms
proof (induction rule: serving.induct)
  case (start pf c w s app)
  obtain holder w' where "app = (holder, w')" by (cases app)
  with main_start_loaded [of os pf env c w s holder w'] start show ?case by (auto simp: holds_loaded_def)
next
  case (http s app pf r answer app')
  obtain holder w where a: "app = (holder, w)" by (cases app)
  obtain holder' w' where a': "app' = (holder', w')" by (cases app')
  from ServeHTTP_holder [OF http.hyps(2) [unfolded a a']] http.IH show ?case
    by (auto simp: a a' holds_loaded_def)
next
  case (grpc s app c greq out app')
  obtain holder w where a: "app = (holder, w)" by (cases app)
  obtain holder' w' where a': "app' = (holder', w')" by (cases app')
  from grpc.hyps(2) have "holder' = holder"
    by (auto simp: a a' GRPC_Decide_def NewGRPCServer_def default_engine_def Let_def dest: holder_Evaluate_holder
        split: option.splits prod.splits sum.splits)
  with grpc.IH show ?case by (simp add: a a')
next
  case (hup s app pf c out app')
  obtain holder w where a: "app = (holder, w)" by (cases app)
  obtain holder' w' where a': "app' = (holder', w')" by (cases app')
  from reload_outcome [OF hup.hyps(2) [unfolded a a']] hup.IH show ?case
    by (cases out) (auto simp: a a' holds_loaded_def)
next
  case (other s holder w w')
  then show ?case by simp
qed

section \<open>Shutting down\<close>

datatype action =
    HttpShutdown | HttpClose | GrpcGracefulStop | GrpcStop | GrpcStopped
  | StopSinks | WaitSinks | CloseFranz | StopHup | CloseRedis | ClosePostgres | StopSignals

text \<open>
  From the end of the context to the return of \<open>main\<close>: whether the HTTP server shut down in time, whether
  the gRPC server did, and the publisher decide which actions there are. The deferred calls run last,
  the latest first.
\<close>

definition main_shutdown :: "bool \<Rightarrow> bool \<Rightarrow> 'r server \<Rightarrow> action list" where
  "main_shutdown httpInTime grpcInTime s =
     [HttpShutdown] @ (if httpInTime then [] else [HttpClose]) @
     [GrpcGracefulStop] @ (if grpcInTime then [GrpcStopped] else [GrpcStop, GrpcStopped]) @
     [StopSinks, WaitSinks] @
     (case sv_franz s of None \<Rightarrow> [] | Some p \<Rightarrow> [CloseFranz]) @
     [StopHup, CloseRedis, ClosePostgres, StopSinks, StopSignals]"

section \<open>Properties\<close>


text \<open>
  C19. A reload takes effect completely or not at all. If it reports success, the holder has the engine
  with exactly the rules of the file; if it reports an error, the old engine goes on; it touches no
  counter and no other system, and under a live context it succeeds exactly when the file loads.
\<close>

theorem reload_all_or_nothing:
  assumes "reload net pf s c (holder, w) = (out, holder', w')"
  shows "(case out of
       Some err \<Rightarrow> holder' = holder \<and> (load_rules pf s = Inl err \<or> (\<exists>n ce. c n = Some ce \<and> err = CtxErr ce))
     | None \<Rightarrow> (\<exists>snap. load_rules pf s = Inr snap \<and> holder' = Some (buildEngine net s snap))) \<and>
    ((\<forall>n. c n = None) \<longrightarrow> (out = None \<longleftrightarrow> (\<exists>snap. load_rules pf s = Inr snap))) \<and>
    tel w' = tel w \<and> ext w' = ext w"
  using assms by (auto simp: reload_def holder_Store_def poll_def split: option.splits sum.splits)

text \<open>
  C40. A rate limit makes Redis a condition for starting. If the file has an enabled rate limit rule and
  Redis cannot be opened, \<open>main\<close> ends with a fatal error, and so does every reload of such a file.
\<close>

theorem rate_limit_needs_redis:
  fixes os :: "('o, 'r) system" and s :: "'r server"
  assumes "pf_ReadFile pf (cf_RulesPath (Load env)) = Inr data" and "pf_Unmarshal pf data = Inr f"
    and "raw \<in> set (rf_Rules f)" and "rw_Type raw = ''rate_limit''" and "ruleEnabled (rw_Enabled raw)"
    and "\<forall>w. \<exists>err. fst (NewRedis (os_ParseURL os) (os_NewClient os) c (cf_RedisURL (Load env)) w) = Inl err"
  shows "(\<exists>fatal. main_start os pf env c w = Inl fatal) \<and>
    (sv_cfg s = Load env \<longrightarrow> sv_redis s = Inl err \<longrightarrow> (\<exists>err. load_rules pf s = Inl err))"
proof -
  have no_rule: "buildRule pf opts raw \<noteq> Inr rule" if "lo_Redis opts = None" for opts :: "'r LoaderOptions" and rule
    using that assms(4) by (auto simp: buildRule_def as_rule_Inr NewRateLimitRule_def split: sum.splits if_splits)
  have no_load: "load_rules pf s \<noteq> Inr snap" if cfg: "sv_cfg s = Load env" and rd: "sv_redis s = Inl err" for s :: "'r server" and snap err
  proof
    assume "load_rules pf s = Inr snap"
    then obtain opts f' ordered where o: "loads pf data opts f' ordered snap" "lo_Redis opts = None"
      using cfg rd assms(1)
      by (auto simp: load_rules_def LoadFile_def LoadBytes_Inr loader_options_def Redis_Client_def pointer_def)
    have "f' = f" using o(1) assms(2) by (simp add: loads_def)
    then have "set ordered = set (rf_Rules f)" using mset_eq_setD [OF loads_order(1) [OF o(1)]] by simp
    with assms(3,5) have "raw \<in> set (enabled_rules ordered)" by simp
    moreover have "list_all2 (\<lambda>raw rule. buildRule pf opts raw = Inr rule) (enabled_rules ordered) (sn_Rules snap)"
      using o(1) by (simp add: loads_def)
    ultimately obtain rule where "buildRule pf opts raw = Inr rule" by (meson list_all2_left)
    with no_rule [OF o(2)] show False by blast
  qed
  have "main_start os pf env c w \<noteq> Inr (s, holder, w')" for s holder w'
  proof
    assume run: "main_start os pf env c w = Inr (s, holder, w')"
    obtain postgres w1 where pg: "NewPostgres (os_pgxpool_New os) c (cf_DatabaseURL (Load env)) w = (postgres, w1)"
      by (cases "NewPostgres (os_pgxpool_New os) c (cf_DatabaseURL (Load env)) w")
    from assms(6) obtain err w2 where
      rd: "NewRedis (os_ParseURL os) (os_NewClient os) c (cf_RedisURL (Load env)) w1 = (Inl err, w2)"
      by (metis prod.collapse)
    from run have "sv_redis s = Inl err"
      by (auto simp: main_start_def Let_def pg rd split: prod.splits sum.splits option.splits)
    with main_start_loaded [OF run] no_load [of s err] show False by auto
  qed
  then have "\<exists>fatal. main_start os pf env c w = Inl fatal"
    by (cases "main_start os pf env c w") auto
  moreover have "\<exists>err. load_rules pf s = Inl err" if "sv_cfg s = Load env" "sv_redis s = Inl err"
    using no_load [OF that] by (cases "load_rules pf s") auto
  ultimately show ?thesis by blast
qed

text \<open>
  The order of shutting down: both servers have stopped before the sinks are told to, the sinks have
  ended before the publisher, Redis and Postgres are closed, and nothing is closed twice.
\<close>

lemma shutdown_order:
  "\<exists>servers closing. main_shutdown httpInTime grpcInTime s = servers @ [StopSinks, WaitSinks] @ closing \<and>
     {HttpShutdown, GrpcGracefulStop, GrpcStopped} \<subseteq> set servers \<and>
     set servers \<subseteq> {HttpShutdown, HttpClose, GrpcGracefulStop, GrpcStop, GrpcStopped} \<and>
     (GrpcStop \<in> set servers \<longleftrightarrow> \<not> grpcInTime) \<and> (HttpClose \<in> set servers \<longleftrightarrow> \<not> httpInTime) \<and> last servers = GrpcStopped \<and>
     (CloseFranz \<in> set closing \<longleftrightarrow> sv_franz s \<noteq> None) \<and> distinct closing \<and>
     {CloseRedis, ClosePostgres} \<subseteq> set closing"
  by (rule exI [of _ "[HttpShutdown] @ (if httpInTime then [] else [HttpClose]) @
        [GrpcGracefulStop] @ (if grpcInTime then [GrpcStopped] else [GrpcStop, GrpcStopped])"],
      rule exI [of _ "(case sv_franz s of None \<Rightarrow> [] | Some p \<Rightarrow> [CloseFranz]) @ [StopHup, CloseRedis, ClosePostgres, StopSinks, StopSignals]"])
    (auto simp: main_shutdown_def split: option.split)

text \<open>A process without database, Redis and Kafka, with the sample rules.\<close>

definition sample_system :: "(unit, unit) system" where
  "sample_system = \<lparr>os_pgxpool_New = (\<lambda>c url w. (Inl (ExtErr ''connection refused''), w)),
     os_ParseURL = (\<lambda>url. Inl (ExtErr ''invalid URL'')),
     os_NewClient = (\<lambda>_. \<lparr>rc_Cmdable = \<lparr>rd_INCR = (\<lambda>key r. (Inr 1, r)), rd_EXPIRE = (\<lambda>key t r. (Inr 1, r)),
         rd_GET = (\<lambda>key r. (Inr None, r)), rd_Run = (\<lambda>c script w. (Inl ''closed'', w))\<rparr>,
       rc_Ping = (\<lambda>c w. (None, w)), rc_Close = (\<lambda>w. (None, w))\<rparr>),
     os_kgo_NewClient = (\<lambda>opts w. (Inl (ExtErr ''no brokers''), w)), os_net = sample_net,
     os_audit = (\<lambda>writer w. (\<lambda>c entry w. w, w)), os_kafka = (\<lambda>sink w. (\<lambda>c entry w. w, w)),
     os_Listen = (\<lambda>addr w. (None, w))\<rparr>"

definition no_env :: environment where
  "no_env = (\<lambda>_. [])"

definition sample_server :: "unit server" where
  "sample_server = \<lparr>sv_cfg = Load no_env, sv_postgres = Inl (ExtErr ''connection refused''),
     sv_redis = Inl (ExtErr ''invalid URL''),
     sv_featureProvider = NewHTTPFeatureProvider sample_net (cf_FeatureProviderURL (Load no_env))
       (cf_FeatureProviderTimeout (Load no_env)) None,
     sv_decisionSink = None, sv_franz = None\<rparr>"

lemma sample_load_rules:
  "load_rules (sample_platform f) sample_server =
   LoadBytes (sample_platform f) [] \<lparr>lo_BaseDir = Dir (cf_RulesPath (Load no_env)), lo_Redis = None, lo_Now = None\<rparr>"
  by (simp add: load_rules_def LoadFile_def loader_options_def sample_server_def Redis_Client_def pointer_def sample_platform_def)

lemma sample_server_loads: "\<exists>snap. load_rules (sample_platform sample_file) sample_server = Inr snap"
proof -
  have "\<exists>ordered snap. loads (sample_platform sample_file) []
      \<lparr>lo_BaseDir = Dir (cf_RulesPath (Load no_env)), lo_Redis = None, lo_Now = None\<rparr> sample_file ordered snap"
    using sample_parsed sample_file_valid sample_rules_build by (rule valid_file_loads)
  then show ?thesis unfolding sample_load_rules LoadBytes_Inr by blast
qed

lemma no_env_kafka: "\<not> cf_KafkaEnabled (Load no_env)"
  by (simp add: Load_def no_env_def envBool_def env_parsed_def)

lemma sample_start:
  assumes "load_rules (sample_platform f) sample_server = Inr snap"
  shows "main_start sample_system (sample_platform f) no_env background w =
    Inr (sample_server, Some (buildEngine sample_net sample_server snap), w)"
proof -
  have s: "\<lparr>sv_cfg = Load no_env, sv_postgres = Inl (ExtErr ''connection refused''), sv_redis = Inl (ExtErr ''invalid URL''),
      sv_featureProvider = NewHTTPFeatureProvider sample_net (cf_FeatureProviderURL (Load no_env))
        (cf_FeatureProviderTimeout (Load no_env)) None,
      sv_decisionSink = decision_sink [], sv_franz = None\<rparr> = sample_server"
    by (simp add: sample_server_def decision_sink_def)
  show ?thesis
    by (simp add: main_start_def sample_system_def NewPostgres_def NewRedis_def open_audit_def open_kafka_def pointer_def
        no_env_kafka Let_def s assms newEngineHolder_def)
qed


theorem reload_all_or_nothing_witness:
  "\<exists>snap w'. reload sample_net (sample_platform sample_file) sample_server background (None, start_world ()) =
     (None, Some (buildEngine sample_net sample_server snap), w')"
proof -
  obtain out holder' w' where run: "reload sample_net (sample_platform sample_file) sample_server background
      (None, start_world ()) = (out, holder', w')"
    by (cases "reload sample_net (sample_platform sample_file) sample_server background (None, start_world ())") auto
  from reload_all_or_nothing [OF run] sample_server_loads run show ?thesis by (auto split: option.splits)
qed

definition limit_file :: ruleFile where
  "limit_file = sample_file\<lparr>rf_Rules := [(order_sample ''l'' [])\<lparr>rw_Type := ''rate_limit''\<rparr>]\<rparr>"

theorem rate_limit_needs_redis_witness:
  "\<exists>fatal. main_start sample_system (sample_platform limit_file) no_env background (start_world ()) = Inl fatal"
proof -
  have "(order_sample ''l'' [])\<lparr>rw_Type := ''rate_limit''\<rparr> \<in> set (rf_Rules limit_file)" by (simp add: limit_file_def)
  from rate_limit_needs_redis [where pf = "sample_platform limit_file" and data = "[]" and env = no_env
      and os = sample_system and c = background and w = "start_world ()", OF _ sample_parsed this]
  show ?thesis
    by (simp add: sample_platform_def order_sample_def ruleEnabled_def sample_system_def NewRedis_def)
qed

end
