(* ===== verification/Interference.thy ===== *)
theory Interference
  imports Server
begin

text \<open>
  \<open>RuleEngine.Evaluate\<close> among other goroutines. In \<open>Engine\<close> a request runs alone; here anything that the
  relation \<open>others\<close> allows (other requests, reloads, the goroutines of the sinks) may happen to the
  world between any two of its effects. Without interference this is the function of \<open>Engine\<close>; with
  any interference a decision is still explained by one loaded snapshot, since the request loads the
  engine from the holder once and keeps its results in local variables.
\<close>

section \<open>Evaluation with interference\<close>

inductive eval_loop ::
    "('r world \<Rightarrow> 'r world \<Rightarrow> bool) \<Rightarrow> ctx \<Rightarrow> EvalState \<Rightarrow> 'r rule list \<Rightarrow> RuleResult list \<Rightarrow> (string \<rightharpoonup> RuleResult)
       \<Rightarrow> 'r world \<Rightarrow> gerror + RuleResult list \<Rightarrow> 'r world \<Rightarrow> bool"
  for others c state where
  finished: "eval_loop others c state [] results byID w (Inr results) w"
| cancelled: "others w w1 \<Longrightarrow> poll c w1 = (Some e, w2) \<Longrightarrow>
    eval_loop others c state (rule # rules) results byID w (Inl (CtxErr e)) w2"
| evaluated: "others w w1 \<Longrightarrow> poll c w1 = (None, w2) \<Longrightarrow> others w2 w3 \<Longrightarrow>
    eval_one c state byID rule w3 = (result, w4) \<Longrightarrow>
    eval_loop others c state rules (results @ [result]) (byID(rule_ID rule \<mapsto> result)) w4 out w' \<Longrightarrow>
    eval_loop others c state (rule # rules) results byID w out w'"

text \<open>The fields that \<open>Evaluate\<close> fills in after \<open>Combine\<close>.\<close>

definition completed ::
    "'r RuleEngine \<Rightarrow> EvalState \<Rightarrow> string \<Rightarrow> int \<Rightarrow> DecideResponse \<Rightarrow> DecideResponse" where
  "completed e state uuid latency response =
     (let response = response\<lparr>dp_DecisionID := uuid, dp_RulesVersion := re_rulesVersion e,
                       dp_LatencyMS := milliseconds latency\<rparr> in
      if es_DegradedWarnings state \<noteq> []
      then response\<lparr>dp_Metadata := Some [''warnings'' \<mapsto> AStrings (es_DegradedWarnings state)]\<rparr>
      else response)"

definition observe_latency :: "DecideRequest \<Rightarrow> int \<Rightarrow> 'r world \<Rightarrow> 'r world" where
  "observe_latency req observed = tel_upd (\<lambda>t. t\<lparr>DecisionLatencySeconds :=
     DecisionLatencySeconds t @ [(ac_Type (dr_Action req), observed)]\<rparr>)"

definition count_decision :: "DecideRequest \<Rightarrow> Verdict \<Rightarrow> 'r world \<Rightarrow> 'r world" where
  "count_decision req verdict = tel_upd (\<lambda>t. t\<lparr>DecisionsTotal :=
     inc (verdict, ac_Type (dr_Action req), dr_ClientID req) (DecisionsTotal t)\<rparr>)"

inductive handed_over ::
    "('r world \<Rightarrow> 'r world \<Rightarrow> bool) \<Rightarrow> 'r RuleEngine \<Rightarrow> ctx \<Rightarrow> DecideRequest \<Rightarrow> int \<Rightarrow> DecideResponse
       \<Rightarrow> 'r world \<Rightarrow> 'r world \<Rightarrow> bool"
  for others e c req started response where
  no_sink: "re_audit e = None \<Longrightarrow> handed_over others e c req started response w w"
| sink: "re_audit e = Some sink \<Longrightarrow> others w w1 \<Longrightarrow> time_since started w1 = (elapsed, w2) \<Longrightarrow> others w2 w3 \<Longrightarrow>
    handed_over others e c req started response w (sink c (audit_record req response elapsed) w3)"

inductive responds ::
    "('r world \<Rightarrow> 'r world \<Rightarrow> bool) \<Rightarrow> 'r RuleEngine \<Rightarrow> ctx \<Rightarrow> DecideRequest \<Rightarrow> EvalState \<Rightarrow> int
       \<Rightarrow> RuleResult list \<Rightarrow> 'r world \<Rightarrow> DecideResponse \<Rightarrow> 'r world \<Rightarrow> bool"
  for others e c req state started results where
  respond: "others w w1 \<Longrightarrow> time_since started w1 = (observed, w2) \<Longrightarrow>
    others w2 w3 \<Longrightarrow> others (observe_latency req observed w3) w4 \<Longrightarrow>
    others (count_decision req (dp_Verdict (Combine results)) w4) w5 \<Longrightarrow> new_uuid w5 = (uuid, w6) \<Longrightarrow>
    others w6 w7 \<Longrightarrow> time_since started w7 = (latency, w8) \<Longrightarrow>
    handed_over others e c req started (completed e state uuid latency (Combine results)) w8 w' \<Longrightarrow>
    responds others e c req state started results w (completed e state uuid latency (Combine results)) w'"

inductive evaluates ::
    "('r world \<Rightarrow> 'r world \<Rightarrow> bool) \<Rightarrow> 'r RuleEngine \<Rightarrow> ctx \<Rightarrow> DecideRequest \<Rightarrow> 'r world
       \<Rightarrow> gerror + DecideResponse \<Rightarrow> 'r world \<Rightarrow> bool"
  for others e c req where
  cancelled: "time_now w = (started, w1) \<Longrightarrow> others w1 w2 \<Longrightarrow> poll c w2 = (Some ce, w3) \<Longrightarrow>
    evaluates others e c req w (Inl (CtxErr ce)) w3"
| aborted: "time_now w = (started, w1) \<Longrightarrow> others w1 w2 \<Longrightarrow> poll c w2 = (None, w3) \<Longrightarrow>
    others w3 w4 \<Longrightarrow> lookup_features e c req w4 = (state, w5) \<Longrightarrow>
    eval_loop others c state (re_rules e) [] Map.empty w5 (Inl err) w' \<Longrightarrow>
    evaluates others e c req w (Inl err) w'"
| decided: "time_now w = (started, w1) \<Longrightarrow> others w1 w2 \<Longrightarrow> poll c w2 = (None, w3) \<Longrightarrow>
    others w3 w4 \<Longrightarrow> lookup_features e c req w4 = (state, w5) \<Longrightarrow>
    eval_loop others c state (re_rules e) [] Map.empty w5 (Inr results) w6 \<Longrightarrow>
    responds others e c req state started results w6 response w' \<Longrightarrow>
    evaluates others e c req w (Inr response) w'"

inductive_simps eval_loop_simps:
  "eval_loop others c state [] results byID w out w'"
  "eval_loop others c state (rule # rules) results byID w out w'"
inductive_simps handed_over_simps: "handed_over others e c req started response w w'"
inductive_simps responds_simps: "responds others e c req state started results w response w'"
inductive_simps evaluates_simps: "evaluates others e c req w out w'"

section \<open>Without interference\<close>

lemma eval_loop_alone:
  "eval_loop (=) c state rules results byID w out w' \<longleftrightarrow> eval_rules c state rules results byID w = (out, w')"
proof (induction rules arbitrary: results byID w)
  case Nil
  then show ?case by (auto simp: eval_loop_simps)
next
  case (Cons rule rules)
  obtain live w1 where p: "poll c w = (live, w1)" by (cases "poll c w")
  obtain r w2 where one: "eval_one c state byID rule w1 = (r, w2)" by (cases "eval_one c state byID rule w1")
  from p one Cons.IH [of "results @ [r]" "byID(rule_ID rule \<mapsto> r)" w2] show ?case
    by (cases live) (auto simp: eval_loop_simps fun_upd_def)
qed

lemma responds_alone:
  "responds (=) e c req state started results w response w' \<longleftrightarrow>
     respond e c req state started results w = (response, w')"
  by (auto simp: responds_simps handed_over_simps respond_def completed_def observe_latency_def
      count_decision_def tel_upd_def Let_def split: option.splits prod.splits)

lemma evaluates_alone:
  "evaluates (=) e c req w out w' \<longleftrightarrow> RuleEngine_Evaluate e c req w = (out, w')"
  by (auto simp: evaluates_simps eval_loop_alone responds_alone RuleEngine_Evaluate_def
      split: option.splits sum.splits prod.splits)

section \<open>What interference cannot change\<close>

lemma eval_loop_errors:
  assumes "eval_loop others c state rules results byID w out w'" and "out = Inl err"
  shows "\<exists>n ce. c n = Some ce \<and> err = CtxErr ce"
  using assms by (induction rule: eval_loop.induct) (auto simp: poll_def)

lemma eval_loop_results:
  assumes "eval_loop others c state rules results byID w out w'" and "out = Inr all"
    and "\<And>rule. rule \<in> set rules \<Longrightarrow> rule_contract rule"
  shows "\<exists>rs. all = results @ rs \<and> map rr_RuleID rs = map rule_ID rules \<and>
    (\<forall>r \<in> set rs. rr_Matched r \<longrightarrow> well_formed (rr_RuleID r) r)"
  using assms
proof (induction arbitrary: all rule: eval_loop.induct)
  case (finished results byID w)
  then show ?case by simp
next
  case (cancelled w w1 e w2 rule rules results byID)
  then show ?case by simp
next
  case (evaluated w w1 w2 w3 byID rule result w4 rules results out w')
  then obtain rs where rs: "all = (results @ [result]) @ rs" "map rr_RuleID rs = map rule_ID rules"
    "\<forall>r \<in> set rs. rr_Matched r \<longrightarrow> well_formed (rr_RuleID r) r" by fastforce
  have contract: "rule_contract rule" using evaluated.prems(2) by simp
  from rs eval_one_result(1,2) [OF contract evaluated.hyps(4)] show ?case
    by (intro exI [of _ "result # rs"]) simp
qed

lemma completed_fields [simp]:
  "dp_Verdict (completed e state uuid latency response) = dp_Verdict response"
  "dp_Reasons (completed e state uuid latency response) = dp_Reasons response"
  "dp_EvaluatedRules (completed e state uuid latency response) = dp_EvaluatedRules response"
  "dp_RulesVersion (completed e state uuid latency response) = re_rulesVersion e"
  by (simp_all add: completed_def Let_def)

lemma responds_fields:
  assumes "responds others e c req state started results w response w'"
  shows "dp_Verdict response = dp_Verdict (Combine results)"
    and "dp_Reasons response = dp_Reasons (Combine results)"
    and "dp_EvaluatedRules response = map rr_RuleID results"
    and "dp_RulesVersion response = re_rulesVersion e"
  using assms by (auto simp: responds_simps)

text \<open>What \<open>Combine\<close> says of well-formed results of different rules.\<close>

lemma explained_results:
  assumes "distinct (map rr_RuleID rs)" and "\<forall>r \<in> set rs. rr_Matched r \<longrightarrow> well_formed (rr_RuleID r) r"
  shows "dp_Reasons (Combine rs) = map rr_Reason (filter rr_Matched rs)"
    and "rs_Rule ` set (dp_Reasons (Combine rs)) = rr_RuleID ` {r \<in> set rs. rr_Matched r}"
    and "distinct (map rs_Rule (dp_Reasons (Combine rs)))"
    and "\<forall>reason \<in> set (dp_Reasons (Combine rs)). rs_Code reason \<noteq> []"
    and "dp_Verdict (Combine rs) \<noteq> VerdictAllow \<Longrightarrow> dp_Reasons (Combine rs) \<noteq> []"
proof -
  have "filter (\<lambda>r. rr_Matched r \<and> rs_Code (rr_Reason r) \<noteq> []) rs = filter rr_Matched rs"
    using assms(2) by (intro filter_cong) (auto simp: well_formed_def)
  then show reasons: "dp_Reasons (Combine rs) = map rr_Reason (filter rr_Matched rs)"
    by (simp add: Combine_reasons)
  have names: "map rs_Rule (dp_Reasons (Combine rs)) = map rr_RuleID (filter rr_Matched rs)"
    unfolding reasons map_map using assms(2) by (intro map_cong) (auto simp: well_formed_def)
  have "rs_Rule ` set (dp_Reasons (Combine rs)) = set (map rs_Rule (dp_Reasons (Combine rs)))" by simp
  also have "\<dots> = rr_RuleID ` {r \<in> set rs. rr_Matched r}" unfolding names by simp
  finally show "rs_Rule ` set (dp_Reasons (Combine rs)) = rr_RuleID ` {r \<in> set rs. rr_Matched r}" .
  show "distinct (map rs_Rule (dp_Reasons (Combine rs)))"
    unfolding names by (rule distinct_map_filter [OF assms(1)])
  show "\<forall>reason \<in> set (dp_Reasons (Combine rs)). rs_Code reason \<noteq> []"
    using assms(2) by (auto simp: reasons well_formed_def)
  show "dp_Reasons (Combine rs) \<noteq> []" if "dp_Verdict (Combine rs) \<noteq> VerdictAllow"
  proof -
    have "\<exists>r \<in> set rs. rr_Matched r" using that Combine_allow_iff by metis
    then show ?thesis by (simp add: reasons filter_empty_conv)
  qed
qed

lemma explained_named:
  assumes "distinct (map rr_RuleID rs)" and "\<forall>r \<in> set rs. rr_Matched r \<longrightarrow> well_formed (rr_RuleID r) r"
    and "r \<in> set rs"
  shows "rr_RuleID r \<in> rs_Rule ` set (dp_Reasons (Combine rs)) \<longleftrightarrow> rr_Matched r"
proof -
  have "r' = r" if "r' \<in> set rs" "rr_RuleID r' = rr_RuleID r" for r'
    by (rule inj_onD [OF _ that(2,1) assms(3)]) (use assms(1) in \<open>simp add: distinct_map\<close>)
  then have "rr_RuleID r \<in> rr_RuleID ` {r \<in> set rs. rr_Matched r} \<longleftrightarrow> rr_Matched r"
    using assms(3) by (metis (mono_tags, lifting) image_iff mem_Collect_eq)
  then show ?thesis by (simp only: explained_results(2) [OF assms(1,2)])
qed

lemma loads_distinct:
  assumes "loads pf data opts f ordered snap"
  shows "distinct (map rule_ID (sn_Rules snap))"
  using loads_ids [OF assms] loads_order(3) [OF assms] by (simp add: enabled_rules_def distinct_map_filter)

text \<open>The outcome of a request, whatever happens around it.\<close>

lemma evaluates_error:
  "evaluates others e c req w (Inl err) w' \<Longrightarrow> \<exists>n ce. c n = Some ce \<and> err = CtxErr ce"
  using eval_loop_errors by (fastforce simp: evaluates_simps poll_def)

lemma evaluates_decision:
  assumes "evaluates others e c req w (Inr response) w'"
    and "\<And>rule. rule \<in> set (re_rules e) \<Longrightarrow> rule_contract rule"
  shows "\<exists>rs. map rr_RuleID rs = map rule_ID (re_rules e) \<and>
    (\<forall>r \<in> set rs. rr_Matched r \<longrightarrow> well_formed (rr_RuleID r) r) \<and>
    dp_Verdict response = dp_Verdict (Combine rs) \<and> dp_Reasons response = dp_Reasons (Combine rs) \<and>
    dp_EvaluatedRules response = map rule_ID (re_rules e) \<and> dp_RulesVersion response = re_rulesVersion e"
proof -
  from assms(1) obtain state w5 results w6 started where
    loop: "eval_loop others c state (re_rules e) [] Map.empty w5 (Inr results) w6"
    and resp: "responds others e c req state started results w6 response w'"
    by (auto simp: evaluates_simps)
  from eval_loop_results [OF loop refl assms(2)] responds_fields [OF resp] show ?thesis by auto
qed

text \<open>The engine in the holder of a serving process.\<close>

lemma serving_engine:
  fixes it :: "('env, 'ast, 'p) platform itself"
  assumes "serving os env ac st page it s (Some e, w)"
  shows "\<exists>(pf0 :: ('env, 'ast, 'p) platform) snap data f ordered.
    load_rules pf0 s = Inr snap \<and> e = buildEngine (os_net os) s snap \<and>
    LoadBytes pf0 data (loader_options s\<lparr>lo_BaseDir := Dir (cf_RulesPath (sv_cfg s))\<rparr>) = Inr snap \<and>
    loads pf0 data (loader_options s\<lparr>lo_BaseDir := Dir (cf_RulesPath (sv_cfg s))\<rparr>) f ordered snap \<and>
    re_rules e = sn_Rules snap \<and> re_rulesVersion e = sn_Version snap"
proof -
  from serving_holds_loaded [OF assms] obtain pf0 :: "('env, 'ast, 'p) platform" and snap
    where load: "load_rules pf0 s = Inr snap" and e: "e = buildEngine (os_net os) s snap"
    by (auto simp: holds_loaded_def)
  then obtain data where bytes: "LoadBytes pf0 data (loader_options s\<lparr>lo_BaseDir := Dir (cf_RulesPath (sv_cfg s))\<rparr>) = Inr snap"
    by (auto simp: load_rules_def LoadFile_def loader_options_def split: sum.splits)
  then obtain f ordered where l: "loads pf0 data (loader_options s\<lparr>lo_BaseDir := Dir (cf_RulesPath (sv_cfg s))\<rparr>) f ordered snap"
    unfolding LoadBytes_Inr by blast
  then have "sn_Version snap \<noteq> []" by (auto simp: loads_def)
  then have "re_rules e = sn_Rules snap" "re_rulesVersion e = sn_Version snap"
    by (simp_all add: e buildEngine_def NewRuleEngine_def WithFeatureProvider_def WithAuditSink_def Let_def split: option.split)
  with load e bytes l show ?thesis by blast
qed

text \<open>More interference, more outcomes.\<close>

lemma eval_loop_mono:
  assumes "eval_loop others c state rules results byID w out w'" and "\<And>w w'. others w w' \<Longrightarrow> others' w w'"
  shows "eval_loop others' c state rules results byID w out w'"
  using assms by (induction rule: eval_loop.induct) (blast intro: eval_loop.intros)+

lemma evaluates_mono:
  assumes "evaluates others e c req w out w'" and "\<And>w w'. others w w' \<Longrightarrow> others' w w'"
  shows "evaluates others' e c req w out w'"
proof -
  have loop: "eval_loop others' c state rules [] Map.empty w1 out w2"
    if "eval_loop others c state rules [] Map.empty w1 out w2" for state rules w1 out w2
    using that assms(2) by (rule eval_loop_mono)
  have sink: "handed_over others' e c req started response w1 w2"
    if "handed_over others e c req started response w1 w2" for started response w1 w2
    using that by (induction rule: handed_over.induct) (blast intro: handed_over.intros assms(2))+
  have resp: "responds others' e c req state started results w1 response w2"
    if "responds others e c req state started results w1 response w2" for state started results w1 response w2
    using that by (induction rule: responds.induct) (blast intro: responds.intros assms(2) sink)
  show ?thesis
    using assms(1) by (induction rule: evaluates.induct) (blast intro: evaluates.intros assms(2) loop resp)+
qed

section \<open>Counters under interference\<close>

text \<open>Counters only grow: the goroutines of this process increment them atomically and nothing resets them.\<close>

definition counters_grow :: "'r world \<Rightarrow> 'r world \<Rightarrow> bool" where
  "counters_grow w w' \<longleftrightarrow>
     (\<forall>l. RuleEvaluationsTotal (tel w) l \<le> RuleEvaluationsTotal (tel w') l) \<and>
     (\<forall>l. RuleEvalErrorsTotal (tel w) l \<le> RuleEvalErrorsTotal (tel w') l) \<and>
     (\<forall>l. DecisionsTotal (tel w) l \<le> DecisionsTotal (tel w') l)"

lemma counters_grow_refl [simp]: "counters_grow w w"
  by (simp add: counters_grow_def)

lemma counters_grow_trans [trans]: "counters_grow w w' \<Longrightarrow> counters_grow w' w'' \<Longrightarrow> counters_grow w w''"
  unfolding counters_grow_def using le_trans by blast

lemma engine_frame_grow: "engine_frame w w' \<Longrightarrow> counters_grow w w'"
  by (simp add: engine_frame_def counters_grow_def)

lemma counters_grow_steps [simp]:
  "time_now w = (t, w') \<Longrightarrow> counters_grow w w'" "time_since t w = (d, w') \<Longrightarrow> counters_grow w w'"
  "poll c w = (ce, w') \<Longrightarrow> counters_grow w w'" "new_uuid w = (u, w') \<Longrightarrow> counters_grow w w'"
  "counters_grow w (observe_latency req d w)" "counters_grow w (count_decision req v w)"
  by (auto simp: counters_grow_def time_now_def time_since_def poll_def new_uuid_def observe_latency_def
      count_decision_def tel_upd_def inc_apply)

lemma eval_one_grow:
  assumes "rule_contract rule" and "eval_one c state byID rule w = (r, w')"
  shows "counters_grow w w'"
  using eval_one_counters [OF assms] by (simp add: counters_grow_def inc_apply)

lemma eval_loop_counters:
  assumes "eval_loop others c state rules results byID w out w'" and "out = Inr all"
    and "\<And>rule. rule \<in> set rules \<Longrightarrow> rule_contract rule" and "\<And>w w'. others w w' \<Longrightarrow> counters_grow w w'"
  shows "\<exists>rs. all = results @ rs \<and> map rr_RuleID rs = map rule_ID rules \<and>
    (\<forall>r \<in> set rs. rr_Matched r \<longrightarrow> well_formed (rr_RuleID r) r) \<and> counters_grow w w' \<and>
    (\<forall>i m. RuleEvaluationsTotal (tel w) (i, m) + evaluations i m rs \<le> RuleEvaluationsTotal (tel w') (i, m)) \<and>
    (\<forall>i. RuleEvalErrorsTotal (tel w) i + eval_errors i rs \<le> RuleEvalErrorsTotal (tel w') i)"
  using assms
proof (induction arbitrary: all rule: eval_loop.induct)
  case (finished results byID w)
  then show ?case by (simp add: evaluations_def eval_errors_def)
next
  case (cancelled w w1 e w2 rule rules results byID)
  then show ?case by simp
next
  case (evaluated w w1 w2 w3 byID rule result w4 rules results out w')
  have contract: "rule_contract rule" using evaluated.prems(2) by simp
  from evaluated.IH [OF evaluated.prems(1)] evaluated.prems(2,3) obtain rs where
    rs: "all = (results @ [result]) @ rs" "map rr_RuleID rs = map rule_ID rules"
      "\<forall>r \<in> set rs. rr_Matched r \<longrightarrow> well_formed (rr_RuleID r) r" and grow: "counters_grow w4 w'"
    and ev: "\<And>i m. RuleEvaluationsTotal (tel w4) (i, m) + evaluations i m rs \<le> RuleEvaluationsTotal (tel w') (i, m)"
    and er: "\<And>i. RuleEvalErrorsTotal (tel w4) i + eval_errors i rs \<le> RuleEvalErrorsTotal (tel w') i" by auto
  have before: "counters_grow w w3"
    using evaluated.prems(3) evaluated.hyps(1-3) counters_grow_steps(3) by (meson counters_grow_trans)
  note one = eval_one_counters [OF contract evaluated.hyps(4)]
  have "RuleEvaluationsTotal (tel w) (i, m) + evaluations i m (result # rs) \<le> RuleEvaluationsTotal (tel w') (i, m)" for i m
  proof -
    have "RuleEvaluationsTotal (tel w) (i, m) \<le> RuleEvaluationsTotal (tel w3) (i, m)"
      using before by (simp add: counters_grow_def)
    then show ?thesis using ev [of i m] one(1) eval_one_result(1) [OF contract evaluated.hyps(4)]
      by (auto simp: evaluations_def inc_apply split: if_splits)
  qed
  moreover have "RuleEvalErrorsTotal (tel w) i + eval_errors i (result # rs) \<le> RuleEvalErrorsTotal (tel w') i" for i
  proof -
    have "RuleEvalErrorsTotal (tel w) i \<le> RuleEvalErrorsTotal (tel w3) i"
      using before by (simp add: counters_grow_def)
    then show ?thesis using er [of i] one(2) eval_one_result(1) [OF contract evaluated.hyps(4)]
      by (auto simp: eval_errors_def inc_apply split: if_splits)
  qed
  moreover have "counters_grow w w'"
    using before eval_one_grow [OF contract evaluated.hyps(4)] grow by (meson counters_grow_trans)
  ultimately show ?case using rs eval_one_result(1,2) [OF contract evaluated.hyps(4)]
    by (intro exI [of _ "result # rs"]) simp
qed

lemma responds_counters:
  assumes "responds others e c req state started results w response w'" and "collaborators_frame e"
    and others: "\<And>w w'. others w w' \<Longrightarrow> counters_grow w w'"
  shows "counters_grow w w'"
    and "DecisionsTotal (tel w) (dp_Verdict response, ac_Type (dr_Action req), dr_ClientID req)
      < DecisionsTotal (tel w') (dp_Verdict response, ac_Type (dr_Action req), dr_ClientID req)"
proof -
  from assms(1) obtain w1 w2 w3 w4 w5 w6 w7 w8 d d' u where
    steps: "others w w1" "time_since started w1 = (d, w2)" "others w2 w3" "others (observe_latency req d w3) w4"
      "others (count_decision req (dp_Verdict (Combine results)) w4) w5" "new_uuid w5 = (u, w6)" "others w6 w7"
      "time_since started w7 = (d', w8)" "handed_over others e c req started response w8 w'"
    and v: "dp_Verdict response = dp_Verdict (Combine results)"
    by (auto simp: responds_simps)
  have a: "counters_grow w w4"
    using steps(1-4) others counters_grow_steps(2,5) by (meson counters_grow_trans)
  have h: "counters_grow w8 w'" using steps(9)
  proof (cases rule: handed_over.cases)
    case no_sink
    then show ?thesis by simp
  next
    case (sink sink w1 elapsed w2 w3)
    from sink(2) assms(2) have "engine_frame w3 w'"
      unfolding sink(1) by (simp add: collaborators_frame_def)
    with sink(3-5) show ?thesis
      using others counters_grow_steps(2) engine_frame_grow by (meson counters_grow_trans)
  qed
  with steps(5-8) have b: "counters_grow (count_decision req (dp_Verdict (Combine results)) w4) w'"
    using others counters_grow_steps(2,4) by (meson counters_grow_trans)
  show "counters_grow w w'" using a b counters_grow_steps(6) by (meson counters_grow_trans)
  let ?l = "(dp_Verdict response, ac_Type (dr_Action req), dr_ClientID req)"
  have "DecisionsTotal (tel w) ?l \<le> DecisionsTotal (tel w4) ?l" using a by (simp add: counters_grow_def)
  also have "\<dots> < DecisionsTotal (tel (count_decision req (dp_Verdict (Combine results)) w4)) ?l"
    by (simp add: count_decision_def v tel_upd_def)
  also have "\<dots> \<le> DecisionsTotal (tel w') ?l" using b by (simp add: counters_grow_def)
  finally show "DecisionsTotal (tel w) ?l < DecisionsTotal (tel w') ?l" .
qed

lemma evaluates_counters:
  assumes "evaluates others e c req w (Inr response) w'" and "collaborators_frame e"
    and "\<And>rule. rule \<in> set (re_rules e) \<Longrightarrow> rule_contract rule"
    and others: "\<And>w w'. others w w' \<Longrightarrow> counters_grow w w'"
  shows "\<exists>rs. map rr_RuleID rs = map rule_ID (re_rules e) \<and>
    (\<forall>r \<in> set rs. rr_Matched r \<longrightarrow> well_formed (rr_RuleID r) r) \<and>
    dp_Reasons response = dp_Reasons (Combine rs) \<and>
    (\<forall>i m. RuleEvaluationsTotal (tel w) (i, m) + evaluations i m rs \<le> RuleEvaluationsTotal (tel w') (i, m)) \<and>
    DecisionsTotal (tel w) (dp_Verdict response, ac_Type (dr_Action req), dr_ClientID req)
      < DecisionsTotal (tel w') (dp_Verdict response, ac_Type (dr_Action req), dr_ClientID req)"
proof -
  from assms(1) obtain started w1 w2 w3 w4 state w5 results w6 where
    steps: "time_now w = (started, w1)" "others w1 w2" "poll c w2 = (None, w3)" "others w3 w4"
      "lookup_features e c req w4 = (state, w5)"
    and loop: "eval_loop others c state (re_rules e) [] Map.empty w5 (Inr results) w6"
    and resp: "responds others e c req state started results w6 response w'"
    by (auto simp: evaluates_simps)
  have "counters_grow w4 w5" using lookup_features_frame [OF assms(2) steps(5)] by (rule engine_frame_grow)
  with steps(1-4) have before: "counters_grow w w5"
    using others counters_grow_steps(1,3) by (meson counters_grow_trans)
  from eval_loop_counters [OF loop refl assms(3) others] have
    rs: "map rr_RuleID results = map rule_ID (re_rules e)" "\<forall>r \<in> set results. rr_Matched r \<longrightarrow> well_formed (rr_RuleID r) r"
      "counters_grow w5 w6"
      "\<And>i m. RuleEvaluationsTotal (tel w5) (i, m) + evaluations i m results \<le> RuleEvaluationsTotal (tel w6) (i, m)"
    by auto
  note after = responds_counters [OF resp assms(2) others]
  have "RuleEvaluationsTotal (tel w) (i, m) + evaluations i m results \<le> RuleEvaluationsTotal (tel w') (i, m)" for i m
  proof -
    have "RuleEvaluationsTotal (tel w) (i, m) \<le> RuleEvaluationsTotal (tel w5) (i, m)"
      "RuleEvaluationsTotal (tel w6) (i, m) \<le> RuleEvaluationsTotal (tel w') (i, m)"
      using before after(1) by (simp_all add: counters_grow_def)
    with rs(4) [of i m] show ?thesis by linarith
  qed
  moreover have "counters_grow w w6" using before rs(3) by (rule counters_grow_trans)
  then have "DecisionsTotal (tel w) (dp_Verdict response, ac_Type (dr_Action req), dr_ClientID req)
      < DecisionsTotal (tel w') (dp_Verdict response, ac_Type (dr_Action req), dr_ClientID req)"
    using after(2) unfolding counters_grow_def by (meson le_less_trans)
  ultimately show ?thesis using rs(1,2) responds_fields(2) [OF resp] by (intro exI [of _ results]) simp
qed

section \<open>What the server assembles\<close>

text \<open>
  What the server assembles keeps the contracts: its feature provider and its sinks leave alone what only
  the engine writes, if the HTTP client and the sinks in the memory of the process do.
\<close>

definition lawful_server :: "'r server \<Rightarrow> bool" where
  "lawful_server s \<longleftrightarrow> lawful_http (Some (sv_featureProvider s)) \<and> lawful_options (loader_options s) \<and>
     (\<forall>sink. sv_decisionSink s = Some sink \<longrightarrow> (\<forall>c entry w. engine_frame w (sink c entry w)))"

lemma buildEngine_frame:
  assumes "lawful_server s"
  shows "collaborators_frame (buildEngine net s snap)"
proof -
  have "collaborators_frame (NewRuleEngine (sn_Version snap) (sn_Rules snap) :: 'a RuleEngine)"
    by (simp add: collaborators_frame_def NewRuleEngine_def)
  then have "collaborators_frame (WithFeatureProvider (HTTP_GetActorFeatures net (Some (sv_featureProvider s)))
      (NewRuleEngine (sn_Version snap) (sn_Rules snap)))"
    using assms by (intro http_provider.collaborators) (simp_all add: lawful_server_def)
  with assms show ?thesis
    by (auto simp: buildEngine_def lawful_server_def WithAuditSink_def collaborators_frame_def Let_def split: option.split)
qed

text \<open>The sinks of the components keep the frame wherever the process holds them.\<close>

lemma sinks_frame:
  "engine_frame w (sink_at get put Audit_Enqueue c entry w)"
  "engine_frame w (sink_at kget kput (\<lambda>c. Kafka_Enqueue c pick) c entry w)"
  "(\<And>sink. sink \<in> set sinks \<Longrightarrow> (\<And>w. engine_frame w (sink c entry w))) \<Longrightarrow> decision_sink sinks = Some sink \<Longrightarrow>
     engine_frame w (sink c entry w)"
proof -
  show "engine_frame w (sink_at get put Audit_Enqueue c entry w)" by (rule audit.sink_at_frame)
  show "engine_frame w (sink_at kget kput (\<lambda>c. Kafka_Enqueue c pick) c entry w)" by (rule kafka.sink_at_frame)
  show "engine_frame w (sink c entry w)"
    if "\<And>sink. sink \<in> set sinks \<Longrightarrow> (\<And>w. engine_frame w (sink c entry w))" "decision_sink sinks = Some sink"
    using that by (auto simp: decision_sink_def intro!: MultiDecisionSink_frame split: list.splits)
qed

lemma sample_lawful: "lawful_server sample_server"
  by (simp add: lawful_server_def lawful_http_def sample_server_def NewHTTPFeatureProvider_def sample_net_def
      lawful_options_def loader_options_def Redis_Client_def pointer_def)

section \<open>Properties\<close>

text \<open>
  C3. Decisions are explained whatever runs concurrently. A request loads the engine of a serving process
  and from then on other requests, reloads and goroutines may change the world in any way between
  its effects. Still it fails only with the error of its own finished context, and a decision lists the
  enabled rules of one successful load, in their order and under the version of that load; its
  reasons name different rules of that list, each with a code, and a verdict other than allow has one.
\<close>

theorem interleaved_decision_explained:
  fixes it :: "('env, 'ast, 'p) platform itself"
  assumes "serving os env ac st page it s (Some e, w0)" and "lawful_options (loader_options s)"
    and "evaluates others e c req w out w'"
  shows "case out of
      Inl err \<Rightarrow> \<exists>n ce. c n = Some ce \<and> err = CtxErr ce
    | Inr response \<Rightarrow> \<exists>(pf0 :: ('env, 'ast, 'p) platform) snap. load_rules pf0 s = Inr snap \<and>
        dp_RulesVersion response = sn_Version snap \<and>
        dp_EvaluatedRules response = map rule_ID (sn_Rules snap) \<and>
        rs_Rule ` set (dp_Reasons response) \<subseteq> set (dp_EvaluatedRules response) \<and>
        distinct (map rs_Rule (dp_Reasons response)) \<and>
        (\<forall>reason \<in> set (dp_Reasons response). rs_Code reason \<noteq> []) \<and>
        (dp_Verdict response \<noteq> VerdictAllow \<longrightarrow> dp_Reasons response \<noteq> [])"
proof (cases out)
  case (Inl err)
  with assms(3) evaluates_error show ?thesis by fastforce
next
  case (Inr response)
  from serving_engine [OF assms(1)] obtain pf0 :: "('env, 'ast, 'p) platform" and snap data f ordered
    where load: "load_rules pf0 s = Inr snap"
      and l: "loads pf0 data (loader_options s\<lparr>lo_BaseDir := Dir (cf_RulesPath (sv_cfg s))\<rparr>) f ordered snap"
      and e: "re_rules e = sn_Rules snap" "re_rulesVersion e = sn_Version snap" by blast
  have opts: "lawful_options (loader_options s\<lparr>lo_BaseDir := Dir (cf_RulesPath (sv_cfg s))\<rparr>)"
    using assms(2) by (simp add: lawful_options_def)
  from evaluates_decision [OF assms(3) [unfolded Inr]] loads_contracts [OF l opts] e obtain rs where
    rs: "map rr_RuleID rs = map rule_ID (sn_Rules snap)" "\<forall>r \<in> set rs. rr_Matched r \<longrightarrow> well_formed (rr_RuleID r) r"
    and response: "dp_Verdict response = dp_Verdict (Combine rs)" "dp_Reasons response = dp_Reasons (Combine rs)"
      "dp_EvaluatedRules response = map rule_ID (sn_Rules snap)" "dp_RulesVersion response = sn_Version snap"
    by metis
  have ids: "distinct (map rr_RuleID rs)" unfolding rs(1) by (rule loads_distinct [OF l])
  have "rr_RuleID ` set rs = set (dp_EvaluatedRules response)" using rs(1) response(3) by (metis list.set_map)
  then have "rs_Rule ` set (dp_Reasons response) \<subseteq> set (dp_EvaluatedRules response)"
    unfolding response(2) explained_results(2) [OF ids rs(2)] by blast
  moreover have "dp_Verdict response \<noteq> VerdictAllow \<longrightarrow> dp_Reasons response \<noteq> []"
    using explained_results(5) [OF ids rs(2)] response(1,2) by simp
  moreover have "distinct (map rs_Rule (dp_Reasons response))" "\<forall>reason \<in> set (dp_Reasons response). rs_Code reason \<noteq> []"
    unfolding response(2) by (rule explained_results(3,4) [OF ids rs(2)])+
  ultimately show ?thesis
    unfolding Inr sum.case using load response(3,4)
    by (intro exI [of _ pf0] exI [of _ snap] conjI) assumption+
qed

text \<open>
  C32. No count is lost to concurrency. If everything that runs concurrently lets counters only grow, a
  decision of a serving process has, by its end, added at least one to the decision counter under its
  labels, to the counter of every evaluated rule with label true if the rule is named in a reason and
  with label false if it is not.
\<close>

theorem interleaved_counters:
  fixes it :: "('env, 'ast, 'p) platform itself"
  assumes "serving os env ac st page it s (Some e, w0)" and "lawful_server s"
    and "\<forall>w w'. others w w' \<longrightarrow> counters_grow w w'"
    and "evaluates others e c req w (Inr response) w'"
  shows "DecisionsTotal (tel w) (dp_Verdict response, ac_Type (dr_Action req), dr_ClientID req)
      < DecisionsTotal (tel w') (dp_Verdict response, ac_Type (dr_Action req), dr_ClientID req) \<and>
    (\<forall>i \<in> set (dp_EvaluatedRules response).
       RuleEvaluationsTotal (tel w) (i, i \<in> rs_Rule ` set (dp_Reasons response))
         < RuleEvaluationsTotal (tel w') (i, i \<in> rs_Rule ` set (dp_Reasons response)))"
proof -
  from serving_engine [OF assms(1)] obtain pf0 :: "('env, 'ast, 'p) platform" and snap data f ordered
    where l: "loads pf0 data (loader_options s\<lparr>lo_BaseDir := Dir (cf_RulesPath (sv_cfg s))\<rparr>) f ordered snap"
      and e: "re_rules e = sn_Rules snap" "e = buildEngine (os_net os) s snap" by blast
  have opts: "lawful_options (loader_options s\<lparr>lo_BaseDir := Dir (cf_RulesPath (sv_cfg s))\<rparr>)"
    using assms(2) by (simp add: lawful_server_def lawful_options_def)
  have frame: "collaborators_frame e" unfolding e(2) by (rule buildEngine_frame [OF assms(2)])
  have contract: "\<And>rule. rule \<in> set (re_rules e) \<Longrightarrow> rule_contract rule"
    using loads_contracts [OF l opts] by (simp add: e(1))
  have grow: "\<And>w w'. others w w' \<Longrightarrow> counters_grow w w'" using assms(3) by blast
  have "\<exists>rs. map rr_RuleID rs = map rule_ID (re_rules e) \<and>
    (\<forall>r \<in> set rs. rr_Matched r \<longrightarrow> well_formed (rr_RuleID r) r) \<and>
    dp_Reasons response = dp_Reasons (Combine rs) \<and>
    (\<forall>i m. RuleEvaluationsTotal (tel w) (i, m) + evaluations i m rs \<le> RuleEvaluationsTotal (tel w') (i, m)) \<and>
    DecisionsTotal (tel w) (dp_Verdict response, ac_Type (dr_Action req), dr_ClientID req)
      < DecisionsTotal (tel w') (dp_Verdict response, ac_Type (dr_Action req), dr_ClientID req)"
    by (rule evaluates_counters [OF assms(4) frame]) (rule contract grow; assumption)+
  then obtain rs where
    rs: "map rr_RuleID rs = map rule_ID (re_rules e)" "\<forall>r \<in> set rs. rr_Matched r \<longrightarrow> well_formed (rr_RuleID r) r"
      "dp_Reasons response = dp_Reasons (Combine rs)"
    and count: "\<And>i m. RuleEvaluationsTotal (tel w) (i, m) + evaluations i m rs \<le> RuleEvaluationsTotal (tel w') (i, m)"
    and decided: "DecisionsTotal (tel w) (dp_Verdict response, ac_Type (dr_Action req), dr_ClientID req)
      < DecisionsTotal (tel w') (dp_Verdict response, ac_Type (dr_Action req), dr_ClientID req)"
    by blast
  have ids: "distinct (map rr_RuleID rs)" unfolding rs(1) e(1) by (rule loads_distinct [OF l])
  from evaluates_decision [OF assms(4) contract] have evaluated: "dp_EvaluatedRules response = map rule_ID (re_rules e)"
    by blast
  have "0 < evaluations i (i \<in> rs_Rule ` set (dp_Reasons response)) rs" if "i \<in> set (dp_EvaluatedRules response)" for i
  proof -
    from that obtain r where r: "r \<in> set rs" "rr_RuleID r = i" unfolding evaluated rs(1) [symmetric] by auto
    have "i \<in> rs_Rule ` set (dp_Reasons response) \<longleftrightarrow> rr_Matched r"
      unfolding rs(3) using explained_named [OF ids rs(2) r(1)] r(2) by simp
    with r have "r \<in> set (filter (\<lambda>r. rr_RuleID r = i \<and> rr_Matched r = (i \<in> rs_Rule ` set (dp_Reasons response))) rs)"
      by simp
    then show ?thesis unfolding evaluations_def by (rule length_pos_if_in_set)
  qed
  with count decided show ?thesis by (meson add_lessD1 less_add_same_cancel1 less_le_trans)
qed

text \<open>A request to the sample server, with the interference that a property allows.\<close>

lemma sample_interleaved:
  assumes "\<And>w. others w w"
  shows "\<exists>e response w'. serving sample_system no_env sample_codec sample_struct (\<lambda>r w. (writeJSON 404 (Page []), w))
      TYPE((unit, string, string) platform) sample_server (Some e, start_world ()) \<and>
    evaluates others e background sample_request (start_world ()) (Inr response) w'"
proof -
  from sample_server_loads obtain snap where snap: "load_rules (sample_platform sample_file) sample_server = Inr snap" ..
  let ?e = "buildEngine sample_net sample_server snap"
  note up = serving.start [OF sample_start [OF snap],
      of sample_codec sample_struct "\<lambda>r w. (writeJSON 404 (Page []), w)" "TYPE((unit, string, string) platform)" "start_world ()"]
  obtain response w' where "RuleEngine_Evaluate ?e background sample_request (start_world ()) = (Inr response, w')"
    using RuleEngine_Evaluate_live [of background ?e sample_request "start_world ()"] by auto
  then have "evaluates (=) ?e background sample_request (start_world ()) (Inr response) w'"
    by (simp add: evaluates_alone)
  then have "evaluates others ?e background sample_request (start_world ()) (Inr response) w'"
    by (rule evaluates_mono) (simp add: assms)
  with up show ?thesis by blast
qed

theorem interleaved_decision_explained_witness:
  "\<exists>e response w'. serving sample_system no_env sample_codec sample_struct (\<lambda>r w. (writeJSON 404 (Page []), w))
      TYPE((unit, string, string) platform) sample_server (Some e, start_world ()) \<and>
    evaluates (\<lambda>w w'. True) e background sample_request (start_world ()) (Inr response) w' \<and>
    distinct (map rs_Rule (dp_Reasons response))"
proof -
  from sample_interleaved [of "\<lambda>w w'. True"] obtain e response w' where
    up: "serving sample_system no_env sample_codec sample_struct (\<lambda>r w. (writeJSON 404 (Page []), w))
      TYPE((unit, string, string) platform) sample_server (Some e, start_world ())"
    and run: "evaluates (\<lambda>w w'. True) e background sample_request (start_world ()) (Inr response) w'" by blast
  have "lawful_options (loader_options sample_server)" using sample_lawful by (simp add: lawful_server_def)
  from interleaved_decision_explained [OF up this run] have "distinct (map rs_Rule (dp_Reasons response))"
    unfolding sum.case by (elim exE conjE)
  with up run show ?thesis by blast
qed

theorem interleaved_counters_witness:
  "\<exists>e response w'. evaluates counters_grow e background sample_request (start_world ()) (Inr response) w' \<and>
    0 < DecisionsTotal (tel w') (dp_Verdict response, ac_Type (dr_Action sample_request), dr_ClientID sample_request)"
proof -
  from sample_interleaved [of counters_grow] obtain e response w' where
    up: "serving sample_system no_env sample_codec sample_struct (\<lambda>r w. (writeJSON 404 (Page []), w))
      TYPE((unit, string, string) platform) sample_server (Some e, start_world ())"
    and run: "evaluates counters_grow e background sample_request (start_world ()) (Inr response) w'" by auto
  have "\<forall>w w' :: unit world. counters_grow w w' \<longrightarrow> counters_grow w w'" by simp
  from interleaved_counters [OF up sample_lawful this run, THEN conjunct1] have
    "0 < DecisionsTotal (tel w') (dp_Verdict response, ac_Type (dr_Action sample_request), dr_ClientID sample_request)"
    by (rule le_less_trans [OF le0])
  with run show ?thesis by (intro exI conjI)
qed

end
