(* ===== verification/Shutdown.thy ===== *)
theory Shutdown
  imports Server
begin

text \<open>
  \<open>cmd/server/main.go\<close> after its start: the goroutines that run side by side until \<open>main\<close> returns. \<open>control\<close> is
  what they share (contexts, channels, the two servers), with one step function per goroutine:
  the one that reloads on \<open>SIGHUP\<close>, the one that shuts the servers down, and \<open>main\<close> itself. The invariants say
  which actions each position implies and what stays quiet; a measure shows that shutting down ends.
\<close>

section \<open>The goroutine that reloads\<close>

datatype hup_pc = HupSelect | HupReturned

text \<open>
  One step of the loop over \<open>ctx\<close> and the channel \<open>hup\<close> of one place. \<open>case_done\<close> is the case that the \<open>select\<close>
  takes, \<open>ctxDone\<close> and \<open>pending\<close> say which are ready, \<open>c\<close> is the context of the reload with its timeout; the
  error of a reload is only logged.
\<close>

definition hup_step ::
    "'r net \<Rightarrow> ('env, 'ast, 'p) platform \<Rightarrow> 'r server \<Rightarrow> bool \<Rightarrow> bool \<Rightarrow> ctx
       \<Rightarrow> hup_pc \<times> bool \<times> ('r engineHolder, 'r) app \<Rightarrow> (hup_pc \<times> bool \<times> ('r engineHolder, 'r) app) option" where
  "hup_step net pf s case_done ctxDone c = (\<lambda>(here, pending, app).
     case here of
       HupReturned \<Rightarrow> None
     | HupSelect \<Rightarrow>
         if case_done then (if ctxDone then Some (HupReturned, pending, app) else None)
         else if pending then
           (case reload net pf s c app of (_, app) \<Rightarrow> Some (HupSelect, False, app))
         else None)"

lemma hup_step_serving:
  fixes it :: "('env, 'ast, 'p) platform itself" and pf :: "('env, 'ast, 'p) platform"
  assumes "serving os env ac st page it s app"
    and "hup_step (os_net os) pf s case_done ctxDone c (here, pending, app) = Some (here', pending', app')"
  shows "serving os env ac st page it s app'"
  using assms serving.hup [OF assms(1), of pf c "fst (reload (os_net os) pf s c app)" app']
  by (auto simp: hup_step_def split: hup_pc.splits if_splits prod.splits)

section \<open>Shutting down, goroutine by goroutine\<close>

text \<open>
  Where the goroutine that shuts the servers down is: before \<open><-ctx.Done()\<close>, in \<open>server.Shutdown\<close>, after its
  error, in the \<open>select\<close> over \<open>stopGRPC\<close> and the timeout, after \<open>grpcServer.Stop\<close>, or past its end, where
  \<open>shutdownDone\<close> is closed. Where \<open>main\<close> is: in its \<open>select\<close>, at \<open><-shutdownDone\<close>, at \<open>sinksWG.Wait\<close>, with what is left
  to close, or returned.
\<close>

datatype closer = AwaitDone | HttpDraining | HttpFailed | GrpcDraining | GrpcForced | CloserDone

datatype main_pc = MainSelect | AwaitCloser | AwaitSinks | Closing "action list" | Exited

text \<open>
  \<open>ct_done\<close> and \<open>ct_expired\<close>: \<open>ctx\<close> and \<open>shutdownCtx\<close> are done; \<open>ct_sinksStopped\<close>: \<open>stopSinks\<close> has been called. \<open>ct_errs\<close> is
  how many errors are in the channel \<open>serverErrs\<close>. The flights are the connections of the HTTP server that
  are not idle and the pending RPCs. The last three fields are histories that the code does not keep:
  whether a server had to be closed by force, and the actions so far.
\<close>

record control =
  ct_done :: bool
  ct_expired :: bool
  ct_sinksStopped :: bool
  ct_errs :: nat
  ct_httpServing :: bool
  ct_grpcServing :: bool
  ct_httpFlight :: nat
  ct_grpcFlight :: nat
  ct_closer :: closer
  ct_main :: main_pc
  ct_httpForced :: bool
  ct_grpcForced :: bool
  ct_log :: "action list"

definition control_start :: control where
  "control_start = \<lparr>ct_done = False, ct_expired = False, ct_sinksStopped = False, ct_errs = 0,
     ct_httpServing = True, ct_grpcServing = True, ct_httpFlight = 0, ct_grpcFlight = 0,
     ct_closer = AwaitDone, ct_main = MainSelect, ct_httpForced = False, ct_grpcForced = False, ct_log = []\<rparr>"

definition act :: "action list \<Rightarrow> control \<Rightarrow> control" where
  "act actions k = k\<lparr>ct_log := ct_log k @ actions\<rparr>"

text \<open>
  A step of the goroutine that shuts down; \<open>ok\<close> is what it finds: that the server has become quiet, or that the
  timeout (or, for \<open>Shutdown\<close>, closing the listener) ends the wait. The documented behaviour of the servers:
  \<open>Shutdown\<close> returns nil only when no connection is active, otherwise an error once its context is done or a
  listener failed; \<open>GracefulStop\<close> returns when no RPC is pending or \<open>Stop\<close> was called.
\<close>

fun closer_step :: "bool \<Rightarrow> control \<Rightarrow> control option" where
  "closer_step ok k =
     (case ct_closer k of
        AwaitDone \<Rightarrow> if ct_done k then Some (act [HttpShutdown] (k\<lparr>ct_closer := HttpDraining\<rparr>)) else None
      | HttpDraining \<Rightarrow>
          if ok then (if ct_httpFlight k = 0 then Some (act [GrpcGracefulStop] (k\<lparr>ct_closer := GrpcDraining\<rparr>)) else None)
          else if ct_expired k \<or> ct_httpFlight k = 0 then Some (k\<lparr>ct_closer := HttpFailed, ct_httpForced := True\<rparr>)
          else None
      | HttpFailed \<Rightarrow> Some (act [HttpClose, GrpcGracefulStop] (k\<lparr>ct_closer := GrpcDraining\<rparr>))
      | GrpcDraining \<Rightarrow>
          if ok then (if ct_grpcFlight k = 0 then Some (act [GrpcStopped] (k\<lparr>ct_closer := CloserDone\<rparr>)) else None)
          else if ct_expired k then Some (act [GrpcStop] (k\<lparr>ct_closer := GrpcForced, ct_grpcForced := True\<rparr>))
          else None
      | GrpcForced \<Rightarrow> Some (act [GrpcStopped] (k\<lparr>ct_closer := CloserDone\<rparr>))
      | CloserDone \<Rightarrow> None)"

text \<open>What \<open>main\<close> does after the sinks have ended: the publisher, then the deferred calls, the latest first.\<close>

definition closing :: "'r server \<Rightarrow> action list" where
  "closing s = (case sv_franz s of None \<Rightarrow> [] | Some p \<Rightarrow> [CloseFranz]) @ [StopHup, CloseRedis, ClosePostgres, StopSinks, StopSignals]"

text \<open>
  A step of \<open>main\<close>; \<open>case_done\<close> is the case that its \<open>select\<close> takes, \<open>ended\<close> says that \<open>sinksWG\<close> has come to zero.
\<close>

fun main_step :: "'r server \<Rightarrow> bool \<Rightarrow> bool \<Rightarrow> control \<Rightarrow> control option" where
  "main_step s case_done ended k =
     (case ct_main k of
        MainSelect \<Rightarrow>
          if case_done then (if ct_done k then Some (k\<lparr>ct_main := AwaitCloser\<rparr>) else None)
          else if 0 < ct_errs k then Some (k\<lparr>ct_errs := ct_errs k - 1, ct_done := True, ct_main := AwaitCloser\<rparr>)
          else None
      | AwaitCloser \<Rightarrow>
          if ct_closer k = CloserDone then Some (act [StopSinks] (k\<lparr>ct_sinksStopped := True, ct_main := AwaitSinks\<rparr>))
          else None
      | AwaitSinks \<Rightarrow> if ended then Some (act [WaitSinks] (k\<lparr>ct_main := Closing (closing s)\<rparr>)) else None
      | Closing [] \<Rightarrow> Some (k\<lparr>ct_main := Exited\<rparr>)
      | Closing (action # actions) \<Rightarrow> Some (act [action] (k\<lparr>ct_main := Closing actions\<rparr>))
      | Exited \<Rightarrow> None)"

text \<open>
  What the rest does: a signal, the timeout of the shutdown, clients and handlers, and the goroutines in \<open>ListenAndServe\<close>
  and \<open>Serve\<close>, each of which returns once, with an error to report or not. A connection can become active until the
  HTTP server has been shut down or closed, an RPC can begin until the gRPC server has stopped.
\<close>

datatype event = Signal | Timeout | HttpActive | HttpIdle | GrpcBegin | GrpcEnd
  | ListenAndServeReturns bool | ServeReturns bool

fun control_event :: "event \<Rightarrow> control \<Rightarrow> control option" where
  "control_event Signal k = Some (k\<lparr>ct_done := True\<rparr>)"
| "control_event Timeout k = (if ct_closer k = AwaitDone then None else Some (k\<lparr>ct_expired := True\<rparr>))"
| "control_event HttpActive k =
     (if ct_closer k \<in> {AwaitDone, HttpDraining, HttpFailed} then Some (k\<lparr>ct_httpFlight := Suc (ct_httpFlight k)\<rparr>) else None)"
| "control_event HttpIdle k =
     (if 0 < ct_httpFlight k then Some (k\<lparr>ct_httpFlight := ct_httpFlight k - 1\<rparr>) else None)"
| "control_event GrpcBegin k =
     (if ct_closer k \<in> {GrpcForced, CloserDone} then None else Some (k\<lparr>ct_grpcFlight := Suc (ct_grpcFlight k)\<rparr>))"
| "control_event GrpcEnd k =
     (if 0 < ct_grpcFlight k then Some (k\<lparr>ct_grpcFlight := ct_grpcFlight k - 1\<rparr>) else None)"
| "control_event (ListenAndServeReturns err) k =
     (if ct_httpServing k
      then Some (k\<lparr>ct_httpServing := False, ct_errs := ct_errs k + (if err then 1 else 0)\<rparr>) else None)"
| "control_event (ServeReturns err) k =
     (if ct_grpcServing k
      then Some (k\<lparr>ct_grpcServing := False, ct_errs := ct_errs k + (if err then 1 else 0)\<rparr>) else None)"

inductive control_step :: "'r server \<Rightarrow> bool \<Rightarrow> control \<Rightarrow> control \<Rightarrow> bool" for s ended where
  closer: "closer_step ok k = Some k' \<Longrightarrow> control_step s ended k k'"
| main: "main_step s case_done ended k = Some k' \<Longrightarrow> control_step s ended k k'"
| event: "control_event ev k = Some k' \<Longrightarrow> control_step s ended k k'"

section \<open>The invariant of the shutdown\<close>

text \<open>The actions that the position of each goroutine implies.\<close>

definition closer_log :: "control \<Rightarrow> action list" where
  "closer_log k =
     (let http = [HttpShutdown] @ (if ct_httpForced k then [HttpClose] else []) @ [GrpcGracefulStop] in
      case ct_closer k of
        AwaitDone \<Rightarrow> [] | HttpDraining \<Rightarrow> [HttpShutdown] | HttpFailed \<Rightarrow> [HttpShutdown]
      | GrpcDraining \<Rightarrow> http | GrpcForced \<Rightarrow> http @ [GrpcStop]
      | CloserDone \<Rightarrow> http @ (if ct_grpcForced k then [GrpcStop, GrpcStopped] else [GrpcStopped]))"

text \<open>The actions that \<open>main\<close> still has before it.\<close>

fun main_rest :: "'r server \<Rightarrow> main_pc \<Rightarrow> action list" where
  "main_rest s MainSelect = [StopSinks, WaitSinks] @ closing s"
| "main_rest s AwaitCloser = [StopSinks, WaitSinks] @ closing s"
| "main_rest s AwaitSinks = [WaitSinks] @ closing s"
| "main_rest s (Closing rest) = rest"
| "main_rest s Exited = []"

fun stopped_sinks :: "main_pc \<Rightarrow> bool" where
  "stopped_sinks MainSelect = False"
| "stopped_sinks AwaitCloser = False"
| "stopped_sinks AwaitSinks = True"
| "stopped_sinks (Closing rest) = True"
| "stopped_sinks Exited = True"

definition log_inv :: "'r server \<Rightarrow> control \<Rightarrow> bool" where
  "log_inv s k \<longleftrightarrow>
     ct_log k @ main_rest s (ct_main k) = closer_log k @ [StopSinks, WaitSinks] @ closing s \<and>
     ct_sinksStopped k = stopped_sinks (ct_main k) \<and>
     (stopped_sinks (ct_main k) \<longrightarrow> ct_closer k = CloserDone)"

text \<open>What has ended stays quiet, unless it was ended by force.\<close>

definition quiet_inv :: "control \<Rightarrow> bool" where
  "quiet_inv k \<longleftrightarrow> (case ct_closer k of
     AwaitDone \<Rightarrow> \<not> ct_httpForced k \<and> \<not> ct_grpcForced k
   | HttpDraining \<Rightarrow> \<not> ct_httpForced k \<and> \<not> ct_grpcForced k
   | HttpFailed \<Rightarrow> ct_httpForced k \<and> \<not> ct_grpcForced k
   | GrpcDraining \<Rightarrow> (ct_httpForced k \<or> ct_httpFlight k = 0) \<and> \<not> ct_grpcForced k
   | GrpcForced \<Rightarrow> (ct_httpForced k \<or> ct_httpFlight k = 0) \<and> ct_grpcForced k
   | CloserDone \<Rightarrow> (ct_httpForced k \<or> ct_httpFlight k = 0) \<and> (ct_grpcForced k \<or> ct_grpcFlight k = 0))"

text \<open>Nothing shuts down before the context is done.\<close>

definition done_inv :: "control \<Rightarrow> bool" where
  "done_inv k \<longleftrightarrow> ct_done k \<or> ct_closer k = AwaitDone \<and> ct_main k = MainSelect"

lemma control_start_inv: "log_inv s control_start" "quiet_inv control_start" "done_inv control_start"
  by (simp_all add: log_inv_def quiet_inv_def done_inv_def control_start_def closer_log_def)

lemma act_simps [simp]:
  "ct_done (act as k) = ct_done k" "ct_expired (act as k) = ct_expired k" "ct_sinksStopped (act as k) = ct_sinksStopped k"
  "ct_errs (act as k) = ct_errs k" "ct_httpFlight (act as k) = ct_httpFlight k" "ct_grpcFlight (act as k) = ct_grpcFlight k"
  "ct_closer (act as k) = ct_closer k" "ct_main (act as k) = ct_main k" "ct_httpForced (act as k) = ct_httpForced k"
  "ct_grpcForced (act as k) = ct_grpcForced k" "ct_log (act as k) = ct_log k @ as"
  by (simp_all add: act_def)

lemma closer_step_inv:
  assumes "closer_step ok k = Some k'"
  shows "log_inv s k \<Longrightarrow> quiet_inv k \<Longrightarrow> log_inv s k'" and "quiet_inv k \<Longrightarrow> quiet_inv k'"
    and "done_inv k \<Longrightarrow> done_inv k'"
proof -
  show "quiet_inv k \<Longrightarrow> quiet_inv k'" "done_inv k \<Longrightarrow> done_inv k'"
    using assms by (cases "ct_closer k"; auto simp: quiet_inv_def done_inv_def split: if_splits)+
  assume inv: "log_inv s k" and quiet: "quiet_inv k"
  have main: "ct_main k = MainSelect \<or> ct_main k = AwaitCloser"
    using assms inv by (cases "ct_main k") (auto simp: log_inv_def)
  then have "main_rest s (ct_main k) = [StopSinks, WaitSinks] @ closing s" by auto
  with inv have "ct_log k = closer_log k" by (simp add: log_inv_def)
  then have "ct_log k' = closer_log k' \<and> ct_main k' = ct_main k \<and> ct_sinksStopped k' = ct_sinksStopped k"
    using assms quiet
    by (cases "ct_closer k") (auto simp: closer_log_def quiet_inv_def Let_def split: if_splits)
  with inv main show "log_inv s k'" by (auto simp: log_inv_def)
qed

lemma main_step_inv:
  assumes "main_step s case_done ended k = Some k'"
  shows "log_inv s k \<Longrightarrow> log_inv s k'" and "quiet_inv k \<Longrightarrow> quiet_inv k'" and "done_inv k \<Longrightarrow> done_inv k'"
proof -
  have keep: "ct_closer k' = ct_closer k" "ct_httpForced k' = ct_httpForced k" "ct_grpcForced k' = ct_grpcForced k"
    "ct_httpFlight k' = ct_httpFlight k" "ct_grpcFlight k' = ct_grpcFlight k"
    using assms by (cases "ct_main k"; auto split: if_splits list.splits)+
  then show "quiet_inv k \<Longrightarrow> quiet_inv k'" by (simp add: quiet_inv_def split: closer.splits)
  show "done_inv k \<Longrightarrow> done_inv k'"
    using assms by (cases "ct_main k") (auto simp: done_inv_def split: if_splits list.splits)
  have "closer_log k' = closer_log k" by (simp add: closer_log_def keep)
  then show "log_inv s k \<Longrightarrow> log_inv s k'"
    using assms keep(1) by (cases "ct_main k") (auto simp: log_inv_def split: if_splits list.splits)
qed

lemma control_event_inv:
  assumes "control_event ev k = Some k'"
  shows "log_inv s k \<Longrightarrow> log_inv s k'" and "quiet_inv k \<Longrightarrow> quiet_inv k'" and "done_inv k \<Longrightarrow> done_inv k'"
proof -
  have keep: "ct_closer k' = ct_closer k" "ct_httpForced k' = ct_httpForced k" "ct_grpcForced k' = ct_grpcForced k"
    "ct_main k' = ct_main k" "ct_log k' = ct_log k" "ct_sinksStopped k' = ct_sinksStopped k" "ct_done k \<Longrightarrow> ct_done k'"
    using assms by (cases ev; auto split: if_splits)+
  then have "closer_log k' = closer_log k" by (simp add: closer_log_def)
  with keep show "log_inv s k \<Longrightarrow> log_inv s k'" by (simp add: log_inv_def)
  show "done_inv k \<Longrightarrow> done_inv k'" using keep by (auto simp: done_inv_def)
  have "ct_httpFlight k' \<le> ct_httpFlight k \<or> ct_closer k \<in> {AwaitDone, HttpDraining, HttpFailed}"
    "ct_grpcFlight k' \<le> ct_grpcFlight k \<or> ct_closer k \<notin> {GrpcForced, CloserDone}"
    using assms by (cases ev; auto split: if_splits)+
  then show "quiet_inv k \<Longrightarrow> quiet_inv k'" by (auto simp: quiet_inv_def keep split: closer.splits)
qed

lemma control_step_inv:
  assumes "control_step s ended k k'"
  shows "log_inv s k \<and> quiet_inv k \<and> done_inv k \<Longrightarrow> log_inv s k' \<and> quiet_inv k' \<and> done_inv k'"
  using assms
proof (induction rule: control_step.induct)
  case (closer ok k k')
  then show ?case using closer_step_inv [OF closer.hyps] by blast
next
  case (main case_done k k')
  then show ?case using main_step_inv [OF main.hyps] by blast
next
  case (event ev k k')
  then show ?case using control_event_inv [OF event.hyps] by blast
qed

section \<open>The shutdown makes progress\<close>

text \<open>A step of one of the two goroutines that shut down, once the sinks have ended.\<close>

definition shutdown_step :: "'r server \<Rightarrow> control \<Rightarrow> control \<Rightarrow> bool" where
  "shutdown_step s k k' \<longleftrightarrow> (\<exists>ok. closer_step ok k = Some k') \<or> (\<exists>case_done. main_step s case_done True k = Some k')"

fun closer_rank :: "closer \<Rightarrow> nat" where
  "closer_rank AwaitDone = 5" | "closer_rank HttpDraining = 4" | "closer_rank HttpFailed = 3"
| "closer_rank GrpcDraining = 2" | "closer_rank GrpcForced = 1" | "closer_rank CloserDone = 0"

fun main_rank :: "'r server \<Rightarrow> main_pc \<Rightarrow> nat" where
  "main_rank s MainSelect = length (closing s) + 4"
| "main_rank s AwaitCloser = length (closing s) + 3"
| "main_rank s AwaitSinks = length (closing s) + 2"
| "main_rank s (Closing rest) = length rest + 1"
| "main_rank s Exited = 0"

definition shutdown_work :: "'r server \<Rightarrow> control \<Rightarrow> nat" where
  "shutdown_work s k = closer_rank (ct_closer k) + main_rank s (ct_main k)"

text \<open>Some request is in flight.\<close>

definition in_flight :: "control \<Rightarrow> bool" where
  "in_flight k \<longleftrightarrow> 0 < ct_httpFlight k + ct_grpcFlight k"

definition can_finish :: "control \<Rightarrow> bool" where
  "can_finish k \<longleftrightarrow> ct_done k \<and> (ct_expired k \<or> \<not> in_flight k)"

lemma closer_step_work:
  assumes "closer_step ok k = Some k'"
  shows "shutdown_work s k' < shutdown_work s k" and "can_finish k \<Longrightarrow> can_finish k'"
  using assms by (cases "ct_closer k"; auto simp: shutdown_work_def can_finish_def in_flight_def act_def split: if_splits)+

lemma main_step_work:
  assumes "main_step s case_done ended k = Some k'"
  shows "shutdown_work s k' < shutdown_work s k" and "can_finish k \<Longrightarrow> can_finish k'"
  using assms by (cases "ct_main k"; auto simp: shutdown_work_def can_finish_def in_flight_def act_def split: if_splits list.splits)+

lemma control_event_work: "control_event ev k = Some k' \<Longrightarrow> shutdown_work s k' = shutdown_work s k"
  by (cases ev) (auto simp: shutdown_work_def split: if_splits)

lemma shutdown_step_work:
  assumes "shutdown_step s k k'"
  shows "shutdown_work s k' < shutdown_work s k" and "can_finish k \<Longrightarrow> can_finish k'"
  using assms closer_step_work main_step_work unfolding shutdown_step_def by blast+

lemma closer_progress:
  assumes "can_finish k" and "ct_closer k \<noteq> CloserDone"
  shows "\<exists>ok k'. closer_step ok k = Some k'"
proof -
  have "closer_step (\<not> in_flight k) k \<noteq> None"
    using assms by (cases "ct_closer k") (auto simp: can_finish_def in_flight_def)
  then show ?thesis by blast
qed

lemma shutdown_progress:
  assumes "can_finish k" and "ct_main k \<noteq> Exited"
  shows "\<exists>k'. shutdown_step s k k'"
proof (cases "ct_closer k = CloserDone")
  case False
  with closer_progress [OF assms(1)] show ?thesis unfolding shutdown_step_def by blast
next
  case True
  have "main_step s True True k \<noteq> None"
    using assms True by (cases "ct_main k") (auto simp: can_finish_def split: list.splits)
  then show ?thesis unfolding shutdown_step_def by blast
qed

lemma shutdown_reaches_exit:
  "can_finish k \<Longrightarrow> \<exists>k'. (shutdown_step s)\<^sup>*\<^sup>* k k' \<and> ct_main k' = Exited"
proof (induction "shutdown_work s k" arbitrary: k rule: less_induct)
  case less
  show ?case
  proof (cases "ct_main k = Exited")
    case True
    then show ?thesis by blast
  next
    case False
    with shutdown_progress [OF less.prems] obtain k1 where k1: "shutdown_step s k k1" by blast
    from less.hyps [OF shutdown_step_work(1) [OF k1] shutdown_step_work(2) [OF k1 less.prems]] obtain k'
      where "(shutdown_step s)\<^sup>*\<^sup>* k1 k'" "ct_main k' = Exited" by blast
    with k1 show ?thesis by (meson converse_rtranclp_into_rtranclp)
  qed
qed

section \<open>Properties\<close>



end
