(* ===== verification/Process.thy ===== *)
theory Process
  imports Shutdown
begin

text \<open>
  The whole process of \<open>cmd/server/main.go\<close> after its start: the control flow of \<open>Shutdown\<close> with the goroutines of the audit
  writer and of the Kafka sink beside it, all in one world. Each sink is seen by the other as
  part of the rest of the program, so what \<open>Audit_Writer\<close> and \<open>Kafka_Sink\<close> prove of them alone holds of them here;
  together with the order of the shutdown it gives what \<open>main\<close> guarantees when it returns.
\<close>

section \<open>The process\<close>

text \<open>
  The writer and the configuration of the Kafka sink that \<open>main\<close> makes (\<open>open_audit\<close>, \<open>open_kafka\<close>).
\<close>

definition server_writer :: "'r server \<Rightarrow> 'r AuditWriter option" where
  "server_writer s = map_option (\<lambda>p. NewAuditWriter (Some (po_Exec (pg_pool p)))
     (cf_AuditQueueSize (sv_cfg s)) (cf_AuditBatchSize (sv_cfg s))) (pointer (sv_postgres s))"

definition server_sink_config :: "'r server \<Rightarrow> 'r KafkaDecisionSinkConfig option" where
  "server_sink_config s = map_option (\<lambda>publisher. \<lparr>kd_Topic = cf_KafkaDecisionTopic (sv_cfg s),
     kd_QueueSize = cf_KafkaQueueSize (sv_cfg s), kd_Publisher = Some (Franz_Publish publisher)\<rparr>) (sv_franz s)"

text \<open>
  The two sinks share one world: a step of one of them hands it over to the other. \<open>pr_refused\<close> counts the
  offers under a live context that found their sink closed.
\<close>

record 'r process =
  pr_control :: control
  pr_audit :: "'r audit_system option"
  pr_kafka :: "'r kafka_system option"
  pr_refused :: nat

definition with_audit :: "'r audit_system \<Rightarrow> 'r process \<Rightarrow> 'r process" where
  "with_audit y p = p\<lparr>pr_audit := Some y, pr_kafka := map_option (\<lambda>k. k\<lparr>sy_world := au_world y\<rparr>) (pr_kafka p)\<rparr>"

definition with_kafka :: "'r kafka_system \<Rightarrow> 'r process \<Rightarrow> 'r process" where
  "with_kafka k p = p\<lparr>pr_kafka := Some k, pr_audit := map_option (\<lambda>y. y\<lparr>au_world := sy_world k\<rparr>) (pr_audit p)\<rparr>"

definition process_start :: "'r server \<Rightarrow> 'r world \<Rightarrow> 'r process" where
  "process_start s w =
     (let p = \<lparr>pr_control = control_start, pr_audit = None, pr_kafka = None, pr_refused = 0\<rparr>;
          p = (case server_writer s of None \<Rightarrow> p | Some writer \<Rightarrow> with_audit (audit_start writer w) p)
      in case server_sink_config s of None \<Rightarrow> p | Some cfg \<Rightarrow> with_kafka (kafka_start cfg w) p)"

definition sinks_ended :: "'r process \<Rightarrow> bool" where
  "sinks_ended p \<longleftrightarrow> (case pr_audit p of None \<Rightarrow> True | Some y \<Rightarrow> returned (au_pc y)) \<and>
     (case pr_kafka p of None \<Rightarrow> True | Some k \<Rightarrow> sy_pc k = Stopped)"

definition refuse :: "ctx \<Rightarrow> bool \<Rightarrow> 'r world \<Rightarrow> 'r process \<Rightarrow> 'r process" where
  "refuse rc shut w p = (if rc (polls w) = None \<and> shut then p\<lparr>pr_refused := Suc (pr_refused p)\<rparr> else p)"

text \<open>
  A step of the process: one of its control flow; an offer to a sink by a request in flight; a step of \<open>Run\<close> of a sink,
  which finds \<open>sinkCtx\<close> done only after \<open>stopSinks\<close> was called; or a step of anything else, which writes
  neither the rows of this process nor the counters of the sinks. A request offers its record to one sink
  after the other, with other steps in between.
\<close>

inductive process_step ::
    "json_codec \<Rightarrow> ('r \<Rightarrow> string \<rightharpoonup> any list) \<Rightarrow> codec \<Rightarrow> ctx \<Rightarrow> ctx \<Rightarrow> ctx \<Rightarrow> 'r server \<Rightarrow> 'r process \<Rightarrow> 'r process \<Rightarrow> bool"
  for js rows cd sc fc dc s where
  control: "control_step s (sinks_ended p) (pr_control p) k \<Longrightarrow>
    process_step js rows cd sc fc dc s p (p\<lparr>pr_control := k\<rparr>)"
| audit_offer: "in_flight (pr_control p) \<Longrightarrow> pr_audit p = Some y \<Longrightarrow>
    Audit_Enqueue rc entry (Some (au_writer y), au_world y) = (Some writer, w) \<Longrightarrow>
    process_step js rows cd sc fc dc s p (refuse rc (aw_closed (au_writer y)) (au_world y)
      (with_audit (y\<lparr>au_writer := writer, au_world := w,
        au_accepted := au_accepted y @ (if aw_queue writer = aw_queue (au_writer y) then [] else [entry])\<rparr>) p))"
| audit_run: "pr_audit p = Some y \<Longrightarrow> aw_pool (au_writer y) = Some Exec \<Longrightarrow>
    audit_run_step js Exec sc fc rdy (au_pc y) (au_writer y) (au_world y) = Some (here, writer, w, flushed) \<Longrightarrow>
    (shutting_down here \<Longrightarrow> ct_sinksStopped (pr_control p)) \<Longrightarrow>
    process_step js rows cd sc fc dc s p
      (with_audit (y\<lparr>au_writer := writer, au_pc := here, au_world := w, au_flushed := au_flushed y @ flushed\<rparr>) p)"
| kafka_offer: "in_flight (pr_control p) \<Longrightarrow> pr_kafka p = Some k \<Longrightarrow>
    Kafka_Enqueue rc pick entry (Some (sy_sink k), sy_world k) = (Some sink, w) \<Longrightarrow>
    process_step js rows cd sc fc dc s p (refuse rc (ks_closed (sy_sink k)) (sy_world k)
      (with_kafka (k\<lparr>sy_sink := sink, sy_world := w,
        sy_accepted := sy_accepted k @ (if ks_queue sink = ks_queue (sy_sink k) then [] else [entry])\<rparr>) p))"
| kafka_run: "pr_kafka p = Some k \<Longrightarrow>
    kafka_run_step cd sc pc dc rdy (sy_pc k) (sy_sink k) (sy_world k) = Some (here, sink, w, tried) \<Longrightarrow>
    (stopping here \<Longrightarrow> ct_sinksStopped (pr_control p)) \<Longrightarrow>
    process_step js rows cd sc fc dc s p
      (with_kafka (k\<lparr>sy_sink := sink, sy_pc := here, sy_world := w, sy_published := sy_published k @ tried\<rparr>) p)"
| other_audit: "pr_audit p = Some y \<Longrightarrow> rows (ext w) = rows (ext (au_world y)) \<Longrightarrow>
    AuditWriteErrorsTotal (tel w) = AuditWriteErrorsTotal (tel (au_world y)) \<Longrightarrow>
    KafkaSinkDroppedTotal (tel w) = KafkaSinkDroppedTotal (tel (au_world y)) \<Longrightarrow>
    process_step js rows cd sc fc dc s p (with_audit (y\<lparr>au_world := w\<rparr>) p)"
| other_kafka: "pr_kafka p = Some k \<Longrightarrow> rows (ext w) = rows (ext (sy_world k)) \<Longrightarrow>
    AuditWriteErrorsTotal (tel w) = AuditWriteErrorsTotal (tel (sy_world k)) \<Longrightarrow>
    KafkaSinkDroppedTotal (tel w) = KafkaSinkDroppedTotal (tel (sy_world k)) \<Longrightarrow>
    process_step js rows cd sc fc dc s p (with_kafka (k\<lparr>sy_world := w\<rparr>) p)"

inductive process_reachable ::
    "json_codec \<Rightarrow> ('r \<Rightarrow> string \<rightharpoonup> any list) \<Rightarrow> codec \<Rightarrow> ctx \<Rightarrow> ctx \<Rightarrow> ctx \<Rightarrow> 'r server \<Rightarrow> 'r world \<Rightarrow> 'r process \<Rightarrow> bool"
  for js rows cd sc fc dc s w0 where
  start: "process_reachable js rows cd sc fc dc s w0 (process_start s w0)"
| step: "process_reachable js rows cd sc fc dc s w0 p \<Longrightarrow> process_step js rows cd sc fc dc s p q \<Longrightarrow>
    process_reachable js rows cd sc fc dc s w0 q"

text \<open>
  What the database client and the Kafka client are relied on to do: the statement inserts rows once, publishing
  writes no rows, and neither counts what the sinks count.
\<close>

definition sinks_apart :: "('r \<Rightarrow> string \<rightharpoonup> any list) \<Rightarrow> 'r server \<Rightarrow> bool" where
  "sinks_apart rows s \<longleftrightarrow>
     (\<forall>p. pointer (sv_postgres s) = Some p \<longrightarrow> inserts_once rows (po_Exec (pg_pool p)) \<and>
        (\<forall>c q args w. KafkaSinkDroppedTotal (tel (snd (po_Exec (pg_pool p) c q args w))) = KafkaSinkDroppedTotal (tel w))) \<and>
     (\<forall>p. sv_franz s = Some p \<longrightarrow> (\<forall>c t k v w. let w' = snd (Franz_Publish p c t k v w) in
        rows (ext w') = rows (ext w) \<and> AuditWriteErrorsTotal (tel w') = AuditWriteErrorsTotal (tel w) \<and>
        KafkaSinkDroppedTotal (tel w') = KafkaSinkDroppedTotal (tel w)))"

section \<open>The sinks inside the process\<close>

lemma updateQueueDepth_errors [world_simps]:
  "AuditWriteErrorsTotal (tel (updateQueueDepth s w)) = AuditWriteErrorsTotal (tel w)"
  by (simp add: updateQueueDepth_def world_simps)

lemma publish_apart:
  assumes "\<And>P c t k v w. ks_publisher s = Some P \<Longrightarrow>
      rows (ext (snd (P c t k v w))) = rows (ext w) \<and>
      AuditWriteErrorsTotal (tel (snd (P c t k v w))) = AuditWriteErrorsTotal (tel w)"
  shows "rows (ext (publishAndCount cd c s entry w)) = rows (ext w) \<and>
    AuditWriteErrorsTotal (tel (publishAndCount cd c s entry w)) = AuditWriteErrorsTotal (tel w)"
proof -
  have p: "rows (ext w2) = rows (ext w1) \<and> AuditWriteErrorsTotal (tel w2) = AuditWriteErrorsTotal (tel w1)"
    if "ks_publisher s = Some P" "P c t k v w1 = (out, w2)" for P t k v w1 out w2
    using assms [OF that(1), of c t k v w1] that(2) by simp
  show ?thesis
    by (auto simp: publishAndCount_def publish_def Let_def new_uuid_def time_now_def count_publish_error_def
        tel_upd_def dest: p split: option.splits sum.splits prod.splits)
qed

lemma kafka_run_step_apart:
  assumes "kafka_run_step cd c pc dc rdy here s w = Some (here', s', w', tried)"
    and law: "\<And>P c t k v w. ks_publisher s = Some P \<Longrightarrow>
      rows (ext (snd (P c t k v w))) = rows (ext w) \<and>
      AuditWriteErrorsTotal (tel (snd (P c t k v w))) = AuditWriteErrorsTotal (tel w)"
  shows "rows (ext w') = rows (ext w) \<and> AuditWriteErrorsTotal (tel w') = AuditWriteErrorsTotal (tel w)"
proof -
  have pub: "rows (ext (publishAndCount cd c' (s\<lparr>ks_queue := q\<rparr>) entry w)) = rows (ext w)"
    "AuditWriteErrorsTotal (tel (publishAndCount cd c' (s\<lparr>ks_queue := q\<rparr>) entry w)) = AuditWriteErrorsTotal (tel w)"
    "rows (ext (publishAndCount cd c' s entry w)) = rows (ext w)"
    "AuditWriteErrorsTotal (tel (publishAndCount cd c' s entry w)) = AuditWriteErrorsTotal (tel w)"
    for c' q entry w
    using publish_apart [of "s\<lparr>ks_queue := q\<rparr>" rows cd c' entry w] publish_apart [of s rows cd c' entry w] law by simp_all
  show ?thesis
    using assms(1) pub
    by (cases here; cases rdy; cases "held here")
      (auto simp: close_sink_def poll_def Let_def world_simps split: option.splits list.splits if_splits)
qed

lemma Kafka_Enqueue_apart:
  "Kafka_Enqueue c pick entry (ptr, w) = (ptr', w') \<Longrightarrow>
     ext w' = ext w \<and> AuditWriteErrorsTotal (tel w') = AuditWriteErrorsTotal (tel w)"
  by (auto simp: Kafka_Enqueue_def poll_def Let_def updateQueueDepth_def tel_upd_def split: option.splits if_splits)

lemma flush_apart:
  assumes "\<And>c q args w. KafkaSinkDroppedTotal (tel (snd (Exec c q args w))) = KafkaSinkDroppedTotal (tel w)"
  shows "KafkaSinkDroppedTotal (tel (snd (flush js Exec c records w))) = KafkaSinkDroppedTotal (tel w)"
proof (induction records arbitrary: w)
  case Nil
  then show ?case by simp
next
  case (Cons entry records)
  have "KafkaSinkDroppedTotal (tel w2) = KafkaSinkDroppedTotal (tel w1)" if "Exec c q args w1 = (out, w2)" for q args w1 out w2
    using assms [of c q args w1] that by simp
  then show ?case using Cons by (auto simp: count_write_error_def tel_upd_def split: sum.splits option.splits prod.splits)
qed

lemma audit_run_step_apart:
  assumes "audit_run_step js Exec c fc rdy pc s w = Some (here, s', w', flushed)"
    and "\<And>c q args w. KafkaSinkDroppedTotal (tel (snd (Exec c q args w))) = KafkaSinkDroppedTotal (tel w)"
  shows "KafkaSinkDroppedTotal (tel w') = KafkaSinkDroppedTotal (tel w)"
proof -
  have fl: "KafkaSinkDroppedTotal (tel (snd (flush js Exec c' records w1))) = KafkaSinkDroppedTotal (tel w1)" for c' records w1
    by (rule flush_apart) (rule assms(2))
  from assms(1) show ?thesis
  proof (cases rule: audit_run_step_outcome)
    case (move taken)
    then show ?thesis by simp
  next
    case (flushed c' w1)
    with fl [of c' "batch_of pc" w1] show ?thesis by simp
  next
    case (kept c' w1 err)
    with fl [of c' "batch_of pc" w1] show ?thesis by simp
  qed
qed

text \<open>What holds in every reachable state of the process, part by part.\<close>

definition audit_part ::
    "json_codec \<Rightarrow> ('r \<Rightarrow> string \<rightharpoonup> any list) \<Rightarrow> ctx \<Rightarrow> ctx \<Rightarrow> 'r server \<Rightarrow> 'r world \<Rightarrow> bool \<Rightarrow> 'r audit_system \<Rightarrow> bool" where
  "audit_part js rows sc fc s w0 stopped y \<longleftrightarrow>
     (\<exists>writer. server_writer s = Some writer \<and> audit_reachable js rows sc fc writer w0 y) \<and>
     (shutting_down (au_pc y) \<longrightarrow> stopped)"

definition kafka_part :: "codec \<Rightarrow> ctx \<Rightarrow> ctx \<Rightarrow> 'r server \<Rightarrow> 'r world \<Rightarrow> bool \<Rightarrow> 'r kafka_system \<Rightarrow> bool" where
  "kafka_part cd sc dc s w0 stopped k \<longleftrightarrow>
     (\<exists>cfg. server_sink_config s = Some cfg \<and> kafka_reachable cd sc dc cfg w0 k) \<and>
     (stopping (sy_pc k) \<longrightarrow> stopped)"

definition shared_world :: "'r process \<Rightarrow> bool" where
  "shared_world p \<longleftrightarrow> (\<forall>y k. pr_audit p = Some y \<longrightarrow> pr_kafka p = Some k \<longrightarrow> au_world y = sy_world k)"

fun closing_now :: "main_pc \<Rightarrow> bool" where
  "closing_now (Closing rest) = True"
| "closing_now Exited = True"
| "closing_now MainSelect = False"
| "closing_now AwaitCloser = False"
| "closing_now AwaitSinks = False"

definition forced :: "control \<Rightarrow> bool" where
  "forced k \<longleftrightarrow> ct_httpForced k \<or> ct_grpcForced k"

definition control_part :: "'r server \<Rightarrow> 'r process \<Rightarrow> bool" where
  "control_part s p \<longleftrightarrow> log_inv s (pr_control p) \<and> quiet_inv (pr_control p) \<and> done_inv (pr_control p) \<and>
     (pr_refused p = 0 \<or> forced (pr_control p)) \<and> (closing_now (ct_main (pr_control p)) \<longrightarrow> sinks_ended p)"

definition process_inv ::
    "json_codec \<Rightarrow> ('r \<Rightarrow> string \<rightharpoonup> any list) \<Rightarrow> codec \<Rightarrow> ctx \<Rightarrow> ctx \<Rightarrow> ctx \<Rightarrow> 'r server \<Rightarrow> 'r world \<Rightarrow> 'r process \<Rightarrow> bool" where
  "process_inv js rows cd sc fc dc s w0 p \<longleftrightarrow> control_part s p \<and> shared_world p \<and>
     (\<forall>y. pr_audit p = Some y \<longrightarrow> audit_part js rows sc fc s w0 (ct_sinksStopped (pr_control p)) y) \<and>
     (\<forall>k. pr_kafka p = Some k \<longrightarrow> kafka_part cd sc dc s w0 (ct_sinksStopped (pr_control p)) k)"

lemma with_audit_simps [simp]:
  "pr_control (with_audit y p) = pr_control p" "pr_audit (with_audit y p) = Some y"
  "pr_kafka (with_audit y p) = map_option (\<lambda>k. k\<lparr>sy_world := au_world y\<rparr>) (pr_kafka p)"
  "pr_refused (with_audit y p) = pr_refused p"
  by (simp_all add: with_audit_def)

lemma with_kafka_simps [simp]:
  "pr_control (with_kafka k p) = pr_control p" "pr_kafka (with_kafka k p) = Some k"
  "pr_audit (with_kafka k p) = map_option (\<lambda>y. y\<lparr>au_world := sy_world k\<rparr>) (pr_audit p)"
  "pr_refused (with_kafka k p) = pr_refused p"
  by (simp_all add: with_kafka_def)

lemma refuse_simps [simp]:
  "pr_control (refuse rc shut w p) = pr_control p" "pr_audit (refuse rc shut w p) = pr_audit p"
  "pr_kafka (refuse rc shut w p) = pr_kafka p" "sinks_ended (refuse rc shut w p) = sinks_ended p"
  by (simp_all add: refuse_def sinks_ended_def)

text \<open>A sink that is closed while a request is in flight: a server was ended by force.\<close>

lemma late_forced:
  assumes "log_inv s k" and "quiet_inv k" and "in_flight k" and "ct_sinksStopped k"
  shows "forced k"
  using assms by (auto simp: log_inv_def quiet_inv_def in_flight_def forced_def)

lemma refuse_inv:
  assumes "process_inv js rows cd sc fc dc s w0 p" and "in_flight (pr_control p)"
    and "shut \<Longrightarrow> ct_sinksStopped (pr_control p)"
  shows "process_inv js rows cd sc fc dc s w0 (refuse rc shut w p)"
proof -
  have "shut \<longrightarrow> forced (pr_control p)"
    using assms late_forced by (auto simp: process_inv_def control_part_def)
  then have "pr_refused (refuse rc shut w p) = 0 \<or> forced (pr_control p)"
    using assms(1) by (auto simp: refuse_def process_inv_def control_part_def)
  with assms(1) show ?thesis by (simp add: process_inv_def control_part_def shared_world_def)
qed

text \<open>A step of one sink is a step of the rest of the program for the other.\<close>

lemma with_audit_inv:
  assumes "process_inv js rows cd sc fc dc s w0 p" and "pr_audit p = Some y" and "audit_step js rows sc fc y z"
    and "shutting_down (au_pc z) \<Longrightarrow> ct_sinksStopped (pr_control p)"
    and "KafkaSinkDroppedTotal (tel (au_world z)) = KafkaSinkDroppedTotal (tel (au_world y))"
    and "returned (au_pc y) \<Longrightarrow> returned (au_pc z)"
  shows "process_inv js rows cd sc fc dc s w0 (with_audit z p)"
proof -
  have "audit_part js rows sc fc s w0 (ct_sinksStopped (pr_control p)) z"
    using assms(1-4) unfolding process_inv_def audit_part_def by (blast intro: audit_reachable.step)
  moreover have "kafka_part cd sc dc s w0 (ct_sinksStopped (pr_control p)) (k\<lparr>sy_world := au_world z\<rparr>)"
    if k: "pr_kafka p = Some k" for k
  proof -
    have "sy_world k = au_world y" using assms(1,2) k by (simp add: process_inv_def shared_world_def)
    then have "kafka_step cd sc dc k (k\<lparr>sy_world := au_world z\<rparr>)"
      using assms(5) by (intro kafka_step.other) simp
    with assms(1) k show ?thesis
      unfolding process_inv_def kafka_part_def by (auto intro: kafka_reachable.step)
  qed
  moreover have "sinks_ended p \<longrightarrow> sinks_ended (with_audit z p)"
    using assms(2,6) by (simp add: sinks_ended_def split: option.splits)
  ultimately show ?thesis
    using assms(1) by (auto simp: process_inv_def control_part_def shared_world_def)
qed

lemma with_kafka_inv:
  assumes "process_inv js rows cd sc fc dc s w0 p" and "pr_kafka p = Some k" and "kafka_step cd sc dc k z"
    and "stopping (sy_pc z) \<Longrightarrow> ct_sinksStopped (pr_control p)"
    and "rows (ext (sy_world z)) = rows (ext (sy_world k))"
    and "AuditWriteErrorsTotal (tel (sy_world z)) = AuditWriteErrorsTotal (tel (sy_world k))"
    and "sy_pc k = Stopped \<Longrightarrow> sy_pc z = Stopped"
  shows "process_inv js rows cd sc fc dc s w0 (with_kafka z p)"
proof -
  have "kafka_part cd sc dc s w0 (ct_sinksStopped (pr_control p)) z"
    using assms(1-4) unfolding process_inv_def kafka_part_def by (blast intro: kafka_reachable.step)
  moreover have "audit_part js rows sc fc s w0 (ct_sinksStopped (pr_control p)) (y\<lparr>au_world := sy_world z\<rparr>)"
    if y: "pr_audit p = Some y" for y
  proof -
    have "au_world y = sy_world k" using assms(1,2) y by (simp add: process_inv_def shared_world_def)
    then have "audit_step js rows sc fc y (y\<lparr>au_world := sy_world z\<rparr>)"
      using assms(5,6) by (intro audit_step.other) simp_all
    with assms(1) y show ?thesis
      unfolding process_inv_def audit_part_def by (auto intro: audit_reachable.step)
  qed
  moreover have "sinks_ended p \<longrightarrow> sinks_ended (with_kafka z p)"
    using assms(2,7) by (simp add: sinks_ended_def split: option.splits)
  ultimately show ?thesis
    using assms(1) by (auto simp: process_inv_def control_part_def shared_world_def)
qed

lemma control_step_keeps:
  assumes "control_step s ended k k'"
  shows "closing_now (ct_main k') \<Longrightarrow> closing_now (ct_main k) \<or> ended"
    and "ct_sinksStopped k \<Longrightarrow> ct_sinksStopped k'" and "forced k \<Longrightarrow> forced k'"
proof -
  have "(closing_now (ct_main k') \<longrightarrow> closing_now (ct_main k) \<or> ended) \<and>
    (ct_sinksStopped k \<longrightarrow> ct_sinksStopped k') \<and> (forced k \<longrightarrow> forced k')"
    using assms
  proof (induction rule: control_step.induct)
    case (closer ok k k')
    then show ?case by (cases "ct_closer k") (auto simp: forced_def act_def split: if_splits)
  next
    case (main case_done k k')
    then show ?case by (cases "ct_main k") (auto simp: forced_def act_def split: if_splits list.splits)
  next
    case (event ev k k')
    then show ?case by (cases ev) (auto simp: forced_def split: if_splits)
  qed
  then show "closing_now (ct_main k') \<Longrightarrow> closing_now (ct_main k) \<or> ended"
    and "ct_sinksStopped k \<Longrightarrow> ct_sinksStopped k'" and "forced k \<Longrightarrow> forced k'" by blast+
qed

lemma control_process_inv:
  assumes "process_inv js rows cd sc fc dc s w0 p" and "control_step s (sinks_ended p) (pr_control p) k"
  shows "process_inv js rows cd sc fc dc s w0 (p\<lparr>pr_control := k\<rparr>)"
proof -
  note keeps = control_step_keeps [OF assms(2)]
  have "log_inv s k \<and> quiet_inv k \<and> done_inv k"
    using assms by (intro control_step_inv [OF assms(2)]) (simp add: process_inv_def control_part_def)
  moreover have "sinks_ended (p\<lparr>pr_control := k\<rparr>) = sinks_ended p" by (simp add: sinks_ended_def)
  ultimately show ?thesis
    using assms(1) keeps
    by (auto simp: process_inv_def control_part_def shared_world_def audit_part_def kafka_part_def)
qed

text \<open>The laws of the clients, for the sinks of a reachable state.\<close>

lemma audit_part_laws:
  assumes "audit_part js rows sc fc s w0 stopped y" and "sinks_apart rows s"
  shows "\<exists>p. pointer (sv_postgres s) = Some p \<and> aw_pool (au_writer y) = Some (po_Exec (pg_pool p)) \<and>
    aw_closed (au_writer y) = shutting_down (au_pc y) \<and>
    audit_inv js rows (NewAuditWriter (Some (po_Exec (pg_pool p))) (cf_AuditQueueSize (sv_cfg s)) (cf_AuditBatchSize (sv_cfg s))) w0 y \<and>
    inserts_once rows (po_Exec (pg_pool p)) \<and>
    (\<forall>c q args w. KafkaSinkDroppedTotal (tel (snd (po_Exec (pg_pool p) c q args w))) = KafkaSinkDroppedTotal (tel w))"
proof -
  from assms(1) obtain p where p: "pointer (sv_postgres s) = Some p"
    and reach: "audit_reachable js rows sc fc (NewAuditWriter (Some (po_Exec (pg_pool p)))
      (cf_AuditQueueSize (sv_cfg s)) (cf_AuditBatchSize (sv_cfg s))) w0 y"
    by (auto simp: audit_part_def server_writer_def)
  from assms(2) p have law: "inserts_once rows (po_Exec (pg_pool p))"
    "\<forall>c q args w. KafkaSinkDroppedTotal (tel (snd (po_Exec (pg_pool p) c q args w))) = KafkaSinkDroppedTotal (tel w)"
    by (auto simp: sinks_apart_def)
  have "audit_inv js rows (NewAuditWriter (Some (po_Exec (pg_pool p))) (cf_AuditQueueSize (sv_cfg s)) (cf_AuditBatchSize (sv_cfg s))) w0 y"
    by (rule audit_reachable_inv [OF reach]) (use law(1) in simp_all)
  with p law audit_reachable_writer [OF reach] show ?thesis by simp
qed

lemma kafka_part_laws:
  assumes "kafka_part cd sc dc s w0 stopped k" and "sinks_apart rows s"
  shows "\<exists>p. sv_franz s = Some p \<and> ks_publisher (sy_sink k) = Some (Franz_Publish p) \<and>
    kafka_inv dc (KafkaSinkDroppedTotal (tel w0)) k \<and>
    (\<forall>c t key v w. rows (ext (snd (Franz_Publish p c t key v w))) = rows (ext w) \<and>
       AuditWriteErrorsTotal (tel (snd (Franz_Publish p c t key v w))) = AuditWriteErrorsTotal (tel w))"
proof -
  from assms(1) obtain p where p: "sv_franz s = Some p"
    and reach: "kafka_reachable cd sc dc \<lparr>kd_Topic = cf_KafkaDecisionTopic (sv_cfg s),
     kd_QueueSize = cf_KafkaQueueSize (sv_cfg s), kd_Publisher = Some (Franz_Publish p)\<rparr> w0 k"
    by (auto simp: kafka_part_def server_sink_config_def)
  from assms(2) p have law: "rows (ext (snd (Franz_Publish p c t key v w))) = rows (ext w)"
    "AuditWriteErrorsTotal (tel (snd (Franz_Publish p c t key v w))) = AuditWriteErrorsTotal (tel w)"
    "KafkaSinkDroppedTotal (tel (snd (Franz_Publish p c t key v w))) = KafkaSinkDroppedTotal (tel w)" for c t key v w
    by (simp_all add: sinks_apart_def Let_def)
  let ?cfg = "\<lparr>kd_Topic = cf_KafkaDecisionTopic (sv_cfg s),
     kd_QueueSize = cf_KafkaQueueSize (sv_cfg s), kd_Publisher = Some (Franz_Publish p)\<rparr>"
  have drops: "KafkaSinkDroppedTotal (tel (snd (P c t key v w))) = KafkaSinkDroppedTotal (tel w)"
    if "kd_Publisher ?cfg = Some P" for P c t key v w
    using that law(3) by auto
  have "kafka_inv dc (KafkaSinkDroppedTotal (tel w0)) k \<and> ks_publisher (sy_sink k) = kd_Publisher ?cfg \<and>
      ks_capacity (sy_sink k) = (if kd_QueueSize ?cfg \<le> 0 then 10000 else nat (kd_QueueSize ?cfg))"
    by (rule kafka_reachable_inv [OF reach]) (rule drops)
  then have "kafka_inv dc (KafkaSinkDroppedTotal (tel w0)) k" "ks_publisher (sy_sink k) = Some (Franz_Publish p)" by simp_all
  with p law(1,2) show ?thesis by blast
qed

lemma process_start_inv:
  "process_inv js rows cd sc fc dc s w0 (process_start s w0)"
proof -
  have "pr_control (process_start s w0) = control_start" "pr_refused (process_start s w0) = 0"
    by (simp_all add: process_start_def Let_def split: option.split)
  moreover have "\<not> closing_now (ct_main control_start)" by (simp add: control_start_def)
  ultimately have base: "control_part s (process_start s w0)"
    by (simp add: control_part_def control_start_inv)
  have shared: "shared_world (process_start s w0)"
    by (auto simp: shared_world_def process_start_def Let_def split: option.split)
  have audit: "audit_part js rows sc fc s w0 (ct_sinksStopped (pr_control (process_start s w0))) y"
    if y: "pr_audit (process_start s w0) = Some y" for y
  proof -
    obtain writer w where "server_writer s = Some writer" "y = audit_start writer w0\<lparr>au_world := w\<rparr>"
      and w: "rows (ext w) = rows (ext w0)" "AuditWriteErrorsTotal (tel w) = AuditWriteErrorsTotal (tel w0)"
      using y that [of _ w0] that [of _ "sy_world (kafka_start (the (server_sink_config s)) w0)"]
      by (auto simp: process_start_def Let_def kafka_start_def NewKafkaDecisionSink_def world_simps audit_start_def
          split: option.splits)
    moreover have "audit_step js rows sc fc (audit_start writer w0) (audit_start writer w0\<lparr>au_world := w\<rparr>)"
      using w by (intro audit_step.other) (simp_all add: audit_start_def)
    ultimately show ?thesis
      unfolding audit_part_def by (auto simp: audit_start_def [of writer] intro: audit_reachable.intros)
  qed
  have kafka: "kafka_part cd sc dc s w0 (ct_sinksStopped (pr_control (process_start s w0))) k"
    if "pr_kafka (process_start s w0) = Some k" for k
  proof -
    have "\<exists>cfg. server_sink_config s = Some cfg \<and> k = kafka_start cfg w0"
      using that by (auto simp: process_start_def Let_def split: option.splits)
    moreover have "\<not> stopping (sy_pc (kafka_start cfg w0))" for cfg
      by (simp add: kafka_start_def split: prod.split)
    ultimately show ?thesis by (auto simp: kafka_part_def intro: kafka_reachable.start)
  qed
  show ?thesis using base shared audit kafka by (simp add: process_inv_def)
qed

lemma process_step_inv:
  assumes "process_step js rows cd sc fc dc s p q" and "sinks_apart rows s"
    and "process_inv js rows cd sc fc dc s w0 p"
  shows "process_inv js rows cd sc fc dc s w0 q"
  using assms
proof (induction rule: process_step.induct)
  case (control p k)
  then show ?case by (intro control_process_inv)
next
  case (audit_offer p y rc entry writer w)
  have part: "audit_part js rows sc fc s w0 (ct_sinksStopped (pr_control p)) y"
    using audit_offer by (simp add: process_inv_def)
  from audit_part_laws [OF part audit_offer.prems(1)] have shut: "aw_closed (au_writer y) = shutting_down (au_pc y)" by blast
  have frame: "tel w = tel (au_world y)" using Audit_Enqueue_frame [OF audit_offer.hyps(3)] by blast
  show ?case
    by (rule refuse_inv [OF with_audit_inv [OF audit_offer.prems(2) audit_offer.hyps(2) audit_step.offer [OF audit_offer.hyps(3)]]])
      (use part shut audit_offer.hyps(1) in \<open>simp_all add: frame audit_part_def\<close>)
next
  case (audit_run p y Exec rdy here writer w flushed)
  have part: "audit_part js rows sc fc s w0 (ct_sinksStopped (pr_control p)) y"
    using audit_run by (simp add: process_inv_def)
  from audit_part_laws [OF part audit_run.prems(1)] audit_run.hyps(2)
  have law: "\<And>c q args w. KafkaSinkDroppedTotal (tel (snd (Exec c q args w))) = KafkaSinkDroppedTotal (tel w)" by auto
  show ?case
    by (rule with_audit_inv [OF audit_run.prems(2) audit_run.hyps(1) audit_step.run [OF audit_run.hyps(2,3)]])
      (use audit_run.hyps(4) audit_run_step_writer [OF audit_run.hyps(3)] audit_run_step_apart [OF audit_run.hyps(3) law]
        in simp_all)
next
  case (kafka_offer p k rc pick entry sink w)
  have part: "kafka_part cd sc dc s w0 (ct_sinksStopped (pr_control p)) k"
    using kafka_offer by (simp add: process_inv_def)
  from kafka_part_laws [OF part kafka_offer.prems(1)] have shut: "ks_closed (sy_sink k) = stopping (sy_pc k)"
    by (auto simp: kafka_inv_def)
  note frame = Kafka_Enqueue_apart [OF kafka_offer.hyps(3)]
  show ?case
    by (rule refuse_inv [OF with_kafka_inv [OF kafka_offer.prems(2) kafka_offer.hyps(2) kafka_step.offer [OF kafka_offer.hyps(3)]]])
      (use part shut kafka_offer.hyps(1) in \<open>simp_all add: frame kafka_part_def\<close>)
next
  case (kafka_run p k pc rdy here sink w tried)
  have part: "kafka_part cd sc dc s w0 (ct_sinksStopped (pr_control p)) k"
    using kafka_run by (simp add: process_inv_def)
  have apart: "rows (ext w) = rows (ext (sy_world k)) \<and> AuditWriteErrorsTotal (tel w) = AuditWriteErrorsTotal (tel (sy_world k))"
    by (rule kafka_run_step_apart [OF kafka_run.hyps(2)])
      (use kafka_part_laws [OF part kafka_run.prems(1)] in auto)
  have "sy_pc k \<noteq> Stopped" using kafka_run.hyps(2) by auto
  then show ?case
    by (intro with_kafka_inv [OF kafka_run.prems(2) kafka_run.hyps(1) kafka_step.run [OF kafka_run.hyps(2)]])
      (use kafka_run.hyps(3) apart in simp_all)
next
  case (other_audit p y w)
  have part: "audit_part js rows sc fc s w0 (ct_sinksStopped (pr_control p)) y"
    using other_audit by (simp add: process_inv_def)
  show ?case
    by (rule with_audit_inv [OF other_audit.prems(2) other_audit.hyps(1) audit_step.other [OF other_audit.hyps(2,3)]])
      (use part other_audit.hyps(4) in \<open>simp_all add: audit_part_def\<close>)
next
  case (other_kafka p k w)
  have part: "kafka_part cd sc dc s w0 (ct_sinksStopped (pr_control p)) k"
    using other_kafka by (simp add: process_inv_def)
  show ?case
    by (rule with_kafka_inv [OF other_kafka.prems(2) other_kafka.hyps(1) kafka_step.other [OF other_kafka.hyps(4)]])
      (use part other_kafka.hyps(2,3) in \<open>simp_all add: kafka_part_def\<close>)
qed

lemma process_reachable_inv:
  assumes "process_reachable js rows cd sc fc dc s w0 p" and "sinks_apart rows s"
  shows "process_inv js rows cd sc fc dc s w0 p"
  using assms(1)
  by (induction rule: process_reachable.induct) (blast intro: process_start_inv process_step_inv [OF _ assms(2)])+

section \<open>Properties\<close>

text \<open>
  C5. The process ends in order. When \<open>main\<close> returns, the log of its actions is the sequence \<open>main_shutdown\<close>: the servers
  before the sinks, the sinks before the clients they write to. Every decision that the audit writer ever
  accepted has its row, or is in the batch of a final flush whose failure was counted; and every decision that
  the Kafka sink accepted was tried, unless the timeout of the drain ran out.
\<close>

theorem orderly_exit:
  assumes "process_reachable js rows cd sc fc dc s w0 p" and "sinks_apart rows s"
    and "ct_main (pr_control p) = Exited"
  shows "ct_log (pr_control p) =
      main_shutdown (\<not> ct_httpForced (pr_control p)) (\<not> ct_grpcForced (pr_control p)) s \<and>
    (\<forall>y. pr_audit p = Some y \<longrightarrow>
       (\<forall>entry \<in> set (au_accepted y). rows (ext (au_world y)) (ar_DecisionID entry) \<noteq> None \<or>
          entry \<in> set (batch_of (au_pc y)) \<and> AuditWriteErrorsTotal (tel w0) < AuditWriteErrorsTotal (tel (au_world y)))) \<and>
    (\<forall>k. pr_kafka p = Some k \<longrightarrow> sy_accepted k = sy_published k \<or> (\<exists>n. dc n \<noteq> None))"
proof -
  from process_reachable_inv [OF assms(1,2)] have inv: "process_inv js rows cd sc fc dc s w0 p" .
  then have log: "log_inv s (pr_control p)" and ended: "sinks_ended p"
    using assms(3) by (auto simp: process_inv_def control_part_def)
  have "ct_log (pr_control p) = main_shutdown (\<not> ct_httpForced (pr_control p)) (\<not> ct_grpcForced (pr_control p)) s"
    using log assms(3)
    by (simp add: log_inv_def closer_log_def main_shutdown_def closing_def Let_def)
  moreover have "rows (ext (au_world y)) (ar_DecisionID entry) \<noteq> None \<or>
      entry \<in> set (batch_of (au_pc y)) \<and> AuditWriteErrorsTotal (tel w0) < AuditWriteErrorsTotal (tel (au_world y))"
    if y: "pr_audit p = Some y" and entry: "entry \<in> set (au_accepted y)" for y entry
  proof -
    have "audit_part js rows sc fc s w0 (ct_sinksStopped (pr_control p)) y" using inv y by (simp add: process_inv_def)
    from audit_part_laws [OF this assms(2)] obtain writer where a: "audit_inv js rows writer w0 y" by blast
    moreover have "returned (au_pc y)" using ended y by (simp add: sinks_ended_def)
    ultimately show ?thesis using entry by (cases "batch_of (au_pc y)") (auto simp: audit_inv_def)
  qed
  moreover have "sy_accepted k = sy_published k \<or> (\<exists>n. dc n \<noteq> None)" if k: "pr_kafka p = Some k" for k
  proof -
    have "kafka_part cd sc dc s w0 (ct_sinksStopped (pr_control p)) k" using inv k by (simp add: process_inv_def)
    from kafka_part_laws [OF this assms(2)] have "kafka_inv dc (KafkaSinkDroppedTotal (tel w0)) k" by blast
    moreover have "sy_pc k = Stopped" using ended k by (simp add: sinks_ended_def)
    ultimately show ?thesis by (auto simp: kafka_inv_def)
  qed
  ultimately show ?thesis by blast
qed

text \<open>
  C12. An orderly shutdown refuses no decision. As long as \<open>stopSinks\<close> has not been called, both sinks are open; and
  unless a server had to be ended by force, no offer under a live context has found its sink closed, and
  nothing is in flight once the sinks are told to stop.
\<close>

theorem no_decision_refused:
  assumes "process_reachable js rows cd sc fc dc s w0 p" and "sinks_apart rows s"
  shows "(\<not> ct_sinksStopped (pr_control p) \<longrightarrow>
      (\<forall>y. pr_audit p = Some y \<longrightarrow> \<not> aw_closed (au_writer y)) \<and>
      (\<forall>k. pr_kafka p = Some k \<longrightarrow> \<not> ks_closed (sy_sink k))) \<and>
    (\<not> ct_httpForced (pr_control p) \<and> \<not> ct_grpcForced (pr_control p) \<longrightarrow>
      pr_refused p = 0 \<and> (ct_sinksStopped (pr_control p) \<longrightarrow>
        ct_httpFlight (pr_control p) = 0 \<and> ct_grpcFlight (pr_control p) = 0))"
proof -
  from process_reachable_inv [OF assms] have inv: "process_inv js rows cd sc fc dc s w0 p" .
  have "\<not> aw_closed (au_writer y)" if "\<not> ct_sinksStopped (pr_control p)" "pr_audit p = Some y" for y
  proof -
    have part: "audit_part js rows sc fc s w0 (ct_sinksStopped (pr_control p)) y" using inv that(2) by (simp add: process_inv_def)
    from audit_part_laws [OF part assms(2)] part that(1) show ?thesis by (auto simp: audit_part_def)
  qed
  moreover have "\<not> ks_closed (sy_sink k)" if "\<not> ct_sinksStopped (pr_control p)" "pr_kafka p = Some k" for k
  proof -
    have part: "kafka_part cd sc dc s w0 (ct_sinksStopped (pr_control p)) k" using inv that(2) by (simp add: process_inv_def)
    from kafka_part_laws [OF part assms(2)] part that(1) show ?thesis by (auto simp: kafka_part_def kafka_inv_def)
  qed
  moreover have "control_part s p" using inv by (simp add: process_inv_def)
  then have "\<not> forced (pr_control p) \<longrightarrow> pr_refused p = 0 \<and> (ct_sinksStopped (pr_control p) \<longrightarrow> \<not> in_flight (pr_control p))"
    using late_forced [of s "pr_control p"] by (auto simp: control_part_def)
  ultimately show ?thesis by (auto simp: forced_def in_flight_def)
qed

section \<open>Witnesses\<close>

text \<open>A schedule of the control flow, for building runs.\<close>

datatype choice = Closer bool | Main bool | Happens event

fun follow :: "'r server \<Rightarrow> bool \<Rightarrow> choice list \<Rightarrow> control \<Rightarrow> control option" where
  "follow s ended [] k = Some k"
| "follow s ended (choice # choices) k =
     (case (case choice of
          Closer ok \<Rightarrow> closer_step ok k | Main case_done \<Rightarrow> main_step s case_done ended k | Happens ev \<Rightarrow> control_event ev k) of
        None \<Rightarrow> None | Some k' \<Rightarrow> follow s ended choices k')"

lemma reach_follow:
  assumes "process_reachable js rows cd sc fc dc s w0 \<lparr>pr_control = k, pr_audit = a, pr_kafka = b, pr_refused = n\<rparr>"
    and "follow s (sinks_ended \<lparr>pr_control = k, pr_audit = a, pr_kafka = b, pr_refused = n\<rparr>) choices k = Some k'"
  shows "process_reachable js rows cd sc fc dc s w0 \<lparr>pr_control = k', pr_audit = a, pr_kafka = b, pr_refused = n\<rparr>"
  using assms
proof (induction choices arbitrary: k)
  case Nil
  then show ?case by simp
next
  case (Cons choice choices)
  let ?p = "\<lambda>k. \<lparr>pr_control = k, pr_audit = a, pr_kafka = b, pr_refused = n\<rparr>"
  have same: "sinks_ended (?p k1) = sinks_ended (?p k)" for k1 by (simp add: sinks_ended_def)
  from Cons.prems(2) obtain k1 where one: "control_step s (sinks_ended (?p k)) k k1"
    and rest: "follow s (sinks_ended (?p k)) choices k1 = Some k'"
    by (cases choice) (auto simp del: closer_step.simps main_step.simps intro: control_step.intros split: option.splits)
  have "process_reachable js rows cd sc fc dc s w0 (?p k1)"
    using process_reachable.step [OF Cons.prems(1) process_step.control [where k = k1]] one by simp
  moreover have "follow s (sinks_ended (?p k1)) choices k1 = Some k'" using rest by (simp only: same [of k1])
  ultimately show ?case by (rule Cons.IH)
qed

lemma reach_choices:
  assumes "process_reachable js rows cd sc fc dc s w0 \<lparr>pr_control = k, pr_audit = Some y, pr_kafka = None, pr_refused = n\<rparr>"
    and "follow s (returned (au_pc y)) choices k = Some k'"
  shows "process_reachable js rows cd sc fc dc s w0 \<lparr>pr_control = k', pr_audit = Some y, pr_kafka = None, pr_refused = n\<rparr>"
  by (rule reach_follow [OF assms(1), where choices = choices]) (simp add: sinks_ended_def assms(2))

lemma reach_audit_offer:
  assumes "process_reachable js rows cd sc fc dc s w0 \<lparr>pr_control = k, pr_audit = Some \<lparr>au_writer = writer,
      au_pc = pc, au_world = w, au_accepted = acc, au_flushed = fl\<rparr>, pr_kafka = None, pr_refused = n\<rparr>"
    and "in_flight k" and "aw_pool writer \<noteq> None" and "length (aw_queue writer) < aw_capacity writer"
  shows "process_reachable js rows cd sc fc dc s w0 \<lparr>pr_control = k, pr_audit = Some \<lparr>
      au_writer = (if aw_closed writer then writer else writer\<lparr>aw_queue := aw_queue writer @ [entry]\<rparr>),
      au_pc = pc, au_world = snd (poll background w), au_accepted = acc @ (if aw_closed writer then [] else [entry]),
      au_flushed = fl\<rparr>, pr_kafka = None, pr_refused = n + (if aw_closed writer then 1 else 0)\<rparr>"
proof -
  have "Audit_Enqueue background entry (Some writer, w) =
      (Some (if aw_closed writer then writer else writer\<lparr>aw_queue := aw_queue writer @ [entry]\<rparr>), snd (poll background w))"
    using assms(3,4) by (auto simp: Audit_Enqueue_def poll_def)
  then show ?thesis
    using process_reachable.step [OF assms(1) process_step.audit_offer
        [where y = "\<lparr>au_writer = writer, au_pc = pc, au_world = w, au_accepted = acc, au_flushed = fl\<rparr>"
          and rc = background and entry = entry]] assms(2)
    by (simp add: with_audit_def refuse_def split: if_splits)
qed

lemma reach_audit_run:
  assumes "process_reachable js rows cd sc fc dc s w0 \<lparr>pr_control = k, pr_audit = Some \<lparr>au_writer = writer,
      au_pc = pc, au_world = w, au_accepted = acc, au_flushed = fl\<rparr>, pr_kafka = None, pr_refused = n\<rparr>"
    and "aw_pool writer = Some Exec" and "ct_sinksStopped k"
    and "audit_run_step js Exec sc fc rdy pc writer w = Some (here, writer', w', flushed)"
  shows "process_reachable js rows cd sc fc dc s w0 \<lparr>pr_control = k, pr_audit = Some \<lparr>au_writer = writer',
      au_pc = here, au_world = w', au_accepted = acc, au_flushed = fl @ flushed\<rparr>, pr_kafka = None, pr_refused = n\<rparr>"
  using process_reachable.step [OF assms(1) process_step.audit_run
      [where y = "\<lparr>au_writer = writer, au_pc = pc, au_world = w, au_accepted = acc, au_flushed = fl\<rparr>"
        and Exec = Exec and rdy = rdy]] assms(2-4)
  by (simp add: with_audit_def)

text \<open>A process with a database in memory and no Kafka.\<close>

definition db_server :: "(string \<rightharpoonup> any list) server" where
  "db_server = \<lparr>sv_cfg = Load no_env,
     sv_postgres = Inr \<lparr>pg_pool = \<lparr>po_Exec = mem_exec, po_Ping = (\<lambda>c w. (None, w)), po_Close = (\<lambda>w. w)\<rparr>\<rparr>,
     sv_redis = Inl (ExtErr ''invalid URL''),
     sv_featureProvider = NewHTTPFeatureProvider sample_net ''http://features'' 0 None,
     sv_decisionSink = None, sv_franz = None\<rparr>"

definition db_writer :: "(string \<rightharpoonup> any list) AuditWriter" where
  "db_writer = NewAuditWriter (Some mem_exec) (cf_AuditQueueSize (Load no_env)) (cf_AuditBatchSize (Load no_env))"

lemma db_server_simps:
  "closing db_server = [StopHup, CloseRedis, ClosePostgres, StopSinks, StopSignals]" "sinks_apart id db_server"
  "process_start db_server w = \<lparr>pr_control = control_start, pr_audit = Some \<lparr>au_writer = db_writer, au_pc = Looping [],
     au_world = w, au_accepted = [], au_flushed = []\<rparr>, pr_kafka = None, pr_refused = 0\<rparr>"
proof -
  show "closing db_server = [StopHup, CloseRedis, ClosePostgres, StopSinks, StopSignals]" by (simp add: closing_def db_server_def)
  show "process_start db_server w = \<lparr>pr_control = control_start, pr_audit = Some \<lparr>au_writer = db_writer, au_pc = Looping [],
     au_world = w, au_accepted = [], au_flushed = []\<rparr>, pr_kafka = None, pr_refused = 0\<rparr>"
    by (simp add: process_start_def server_writer_def server_sink_config_def db_server_def pointer_def db_writer_def
        audit_start_def with_audit_def)
  show "sinks_apart id db_server"
    using mem_exec_inserts_once
    by (auto simp: sinks_apart_def db_server_def pointer_def mem_exec_def split: list.split any.split)
qed

lemma db_writer_simps [simp]:
  "aw_pool db_writer = Some mem_exec" "aw_queue db_writer = []" "\<not> aw_closed db_writer" "0 < aw_capacity db_writer"
  by (simp_all add: db_writer_def)

lemma sample_flush:
  "\<exists>w'. flush plain_json mem_exec background [sample_entry] w = (None, w')"
  by (simp add: plain_json_def mem_exec_def decision_row_def sample_entry_def audit_record_def sample_request_def)

text \<open>A run in order: one decision, a signal, and everything comes to rest in time.\<close>

lemma orderly_run:
  "\<exists>k w. process_reachable plain_json id plain_codec (\<lambda>_. Some Canceled) background background db_server
      (start_world Map.empty) \<lparr>pr_control = k, pr_audit = Some \<lparr>au_writer = close_audit db_writer, au_pc = Returned [],
        au_world = w, au_accepted = [sample_entry], au_flushed = [sample_entry]\<rparr>, pr_kafka = None, pr_refused = 0\<rparr> \<and>
     ct_main k = Exited \<and> \<not> ct_httpForced k \<and> \<not> ct_grpcForced k \<and> ct_sinksStopped k"
proof -
  let ?c = "\<lambda>_. Some Canceled"
  let ?reach = "process_reachable plain_json id plain_codec ?c background background db_server (start_world Map.empty)"
  let ?w1 = "snd (poll background (start_world Map.empty))"
  let ?w2 = "snd (poll ?c ?w1)"
  let ?stop = "[Happens HttpIdle, Happens Signal, Main True, Closer True, Closer True, Closer True, Main True]"
  let ?close = "[Main True, Main True, Main True, Main True, Main True, Main True, Main True]"
  obtain k1 where k1: "follow db_server False [Happens HttpActive] control_start = Some k1" "in_flight k1"
    by (simp add: control_start_def in_flight_def)
  obtain k2 where k2: "follow db_server False ?stop k1 = Some k2" "ct_sinksStopped k2" "ct_main k2 = AwaitSinks"
      "\<not> ct_httpForced k2" "\<not> ct_grpcForced k2"
    using k1(1) by (auto simp: control_start_def)
  obtain k3 where k3: "follow db_server True ?close k2 = Some k3" "ct_main k3 = Exited" "ct_sinksStopped k3"
      "\<not> ct_httpForced k3" "\<not> ct_grpcForced k3"
    using k2 by (simp add: db_server_simps act_def)
  have r0: "?reach \<lparr>pr_control = control_start, pr_audit = Some \<lparr>au_writer = db_writer, au_pc = Looping [],
      au_world = start_world Map.empty, au_accepted = [], au_flushed = []\<rparr>, pr_kafka = None, pr_refused = 0\<rparr>"
    using process_reachable.start [of plain_json id plain_codec ?c background background db_server "start_world Map.empty"]
    by (simp add: db_server_simps)
  have "?reach \<lparr>pr_control = k1, pr_audit = Some \<lparr>au_writer = db_writer, au_pc = Looping [],
      au_world = start_world Map.empty, au_accepted = [], au_flushed = []\<rparr>, pr_kafka = None, pr_refused = 0\<rparr>"
    by (rule reach_choices [OF r0, of "[Happens HttpActive]"]) (use k1(1) in simp)
  from reach_audit_offer [OF this k1(2), of sample_entry]
  have "?reach \<lparr>pr_control = k1, pr_audit = Some \<lparr>au_writer = db_writer\<lparr>aw_queue := [sample_entry]\<rparr>, au_pc = Looping [],
      au_world = ?w1, au_accepted = [sample_entry], au_flushed = []\<rparr>, pr_kafka = None, pr_refused = 0\<rparr>" by simp
  from reach_choices [OF this, of ?stop] k2(1)
  have r2: "?reach \<lparr>pr_control = k2, pr_audit = Some \<lparr>au_writer = db_writer\<lparr>aw_queue := [sample_entry]\<rparr>, au_pc = Looping [],
      au_world = ?w1, au_accepted = [sample_entry], au_flushed = []\<rparr>, pr_kafka = None, pr_refused = 0\<rparr>"
    by (simp del: follow.simps)
  from reach_audit_run [OF r2 _ k2(2), where rdy = CtxDone]
  have r3: "?reach \<lparr>pr_control = k2, pr_audit = Some \<lparr>au_writer = close_audit (db_writer\<lparr>aw_queue := [sample_entry]\<rparr>),
      au_pc = DrainingQueue [], au_world = ?w2, au_accepted = [sample_entry], au_flushed = []\<rparr>, pr_kafka = None, pr_refused = 0\<rparr>"
    by (simp add: poll_def)
  from reach_audit_run [OF r3 _ k2(2), where rdy = RecordReady]
  have r4: "?reach \<lparr>pr_control = k2, pr_audit = Some \<lparr>au_writer = close_audit db_writer,
      au_pc = DrainingQueue [sample_entry], au_world = ?w2, au_accepted = [sample_entry], au_flushed = []\<rparr>, pr_kafka = None, pr_refused = 0\<rparr>"
    by (simp add: close_audit_def db_writer_def NewAuditWriter_def)
  obtain w where "flush plain_json mem_exec background [sample_entry] ?w2 = (None, w)" using sample_flush by blast
  with reach_audit_run [OF r4 _ k2(2), where rdy = NothingReady]
  have "?reach \<lparr>pr_control = k2, pr_audit = Some \<lparr>au_writer = close_audit db_writer, au_pc = Returned [],
      au_world = w, au_accepted = [sample_entry], au_flushed = [sample_entry]\<rparr>, pr_kafka = None, pr_refused = 0\<rparr>"
    by (simp add: close_audit_def flush_batch_def)
  from reach_choices [OF this, of ?close] k3(1)
  have "?reach \<lparr>pr_control = k3, pr_audit = Some \<lparr>au_writer = close_audit db_writer, au_pc = Returned [],
      au_world = w, au_accepted = [sample_entry], au_flushed = [sample_entry]\<rparr>, pr_kafka = None, pr_refused = 0\<rparr>"
    by (simp del: follow.simps)
  with k3 show ?thesis by blast
qed

text \<open>
  A decision that comes too late. A handler that is still running when the timeout of the shutdown has expired outlives the
  server; the sinks stop without it, and its decision is neither queued nor counted as dropped.
\<close>

theorem late_decision_lost:
  "\<exists>k w. process_reachable plain_json id plain_codec (\<lambda>_. Some Canceled) background background db_server
      (start_world Map.empty) \<lparr>pr_control = k, pr_audit = Some \<lparr>au_writer = close_audit db_writer, au_pc = Returned [],
        au_world = w, au_accepted = [], au_flushed = []\<rparr>, pr_kafka = None, pr_refused = 1\<rparr> \<and>
     ct_main k = Exited \<and> ct_httpForced k \<and> aw_dropped (close_audit db_writer) = 0"
proof -
  let ?c = "\<lambda>_. Some Canceled"
  let ?reach = "process_reachable plain_json id plain_codec ?c background background db_server (start_world Map.empty)"
  let ?w1 = "snd (poll ?c (start_world Map.empty))"
  let ?w2 = "snd (poll background ?w1)"
  let ?stop = "[Happens HttpActive, Happens Signal, Closer True, Happens Timeout, Closer False, Closer True, Closer True, Main True, Main True]"
  let ?close = "[Main True, Main True, Main True, Main True, Main True, Main True, Main True]"
  obtain k1 where k1: "follow db_server False ?stop control_start = Some k1" "ct_sinksStopped k1" "ct_main k1 = AwaitSinks"
      "ct_httpForced k1" "in_flight k1"
    by (simp add: control_start_def in_flight_def)
  obtain k2 where k2: "follow db_server True ?close k1 = Some k2" "ct_main k2 = Exited" "ct_httpForced k2"
    using k1 by (simp add: db_server_simps act_def)
  have "?reach \<lparr>pr_control = control_start, pr_audit = Some \<lparr>au_writer = db_writer, au_pc = Looping [],
      au_world = start_world Map.empty, au_accepted = [], au_flushed = []\<rparr>, pr_kafka = None, pr_refused = 0\<rparr>"
    using process_reachable.start [of plain_json id plain_codec ?c background background db_server "start_world Map.empty"]
    by (simp add: db_server_simps)
  from reach_choices [OF this, of ?stop] k1(1)
  have r1: "?reach \<lparr>pr_control = k1, pr_audit = Some \<lparr>au_writer = db_writer, au_pc = Looping [],
      au_world = start_world Map.empty, au_accepted = [], au_flushed = []\<rparr>, pr_kafka = None, pr_refused = 0\<rparr>"
    by (simp del: follow.simps)
  from reach_audit_run [OF r1 _ k1(2), where rdy = CtxDone]
  have "?reach \<lparr>pr_control = k1, pr_audit = Some \<lparr>au_writer = close_audit db_writer, au_pc = DrainingQueue [],
      au_world = ?w1, au_accepted = [], au_flushed = []\<rparr>, pr_kafka = None, pr_refused = 0\<rparr>"
    by (simp add: poll_def)
  from reach_audit_offer [OF this k1(5), of sample_entry]
  have r2: "?reach \<lparr>pr_control = k1, pr_audit = Some \<lparr>au_writer = close_audit db_writer, au_pc = DrainingQueue [],
      au_world = ?w2, au_accepted = [], au_flushed = []\<rparr>, pr_kafka = None, pr_refused = 1\<rparr>"
    by (simp add: close_audit_def)
  from reach_audit_run [OF r2 _ k1(2), where rdy = NothingReady]
  have "?reach \<lparr>pr_control = k1, pr_audit = Some \<lparr>au_writer = close_audit db_writer, au_pc = Returned [],
      au_world = ?w2, au_accepted = [], au_flushed = []\<rparr>, pr_kafka = None, pr_refused = 1\<rparr>"
    by (simp add: close_audit_def flush_batch_def)
  from reach_choices [OF this, of ?close] k2(1)
  have "?reach \<lparr>pr_control = k2, pr_audit = Some \<lparr>au_writer = close_audit db_writer, au_pc = Returned [],
      au_world = ?w2, au_accepted = [], au_flushed = []\<rparr>, pr_kafka = None, pr_refused = 1\<rparr>"
    by (simp del: follow.simps)
  moreover have "aw_dropped (close_audit db_writer) = 0" by (simp add: close_audit_def db_writer_def)
  ultimately show ?thesis using k2(2,3) by blast
qed

theorem orderly_exit_witness:
  "\<exists>p :: (string \<rightharpoonup> any list) process. ct_main (pr_control p) = Exited \<and> pr_audit p \<noteq> None \<and>
     ct_log (pr_control p) = [HttpShutdown, GrpcGracefulStop, GrpcStopped, StopSinks, WaitSinks,
       StopHup, CloseRedis, ClosePostgres, StopSinks, StopSignals]"
proof -
  from orderly_run obtain k w where r: "process_reachable plain_json id plain_codec (\<lambda>_. Some Canceled) background background
      db_server (start_world Map.empty) \<lparr>pr_control = k, pr_audit = Some \<lparr>au_writer = close_audit db_writer, au_pc = Returned [],
        au_world = w, au_accepted = [sample_entry], au_flushed = [sample_entry]\<rparr>, pr_kafka = None, pr_refused = 0\<rparr>"
      (is "process_reachable _ _ _ _ _ _ _ _ ?p")
    and k: "ct_main k = Exited" "\<not> ct_httpForced k" "\<not> ct_grpcForced k" by blast
  have exited: "ct_main (pr_control ?p) = Exited" using k(1) by simp
  from orderly_exit [OF r db_server_simps(2) exited, THEN conjunct1] k
  have "ct_log k = main_shutdown True True db_server" by simp
  with k(1) show ?thesis by (intro exI [of _ ?p]) (simp add: main_shutdown_def db_server_def)
qed

theorem no_decision_refused_witness:
  "\<exists>p :: (string \<rightharpoonup> any list) process. process_reachable plain_json id plain_codec (\<lambda>_. Some Canceled) background background
      db_server (start_world Map.empty) p \<and> ct_sinksStopped (pr_control p) \<and> pr_refused p = 0 \<and> ct_httpFlight (pr_control p) = 0"
proof -
  from orderly_run obtain k w where r: "process_reachable plain_json id plain_codec (\<lambda>_. Some Canceled) background background
      db_server (start_world Map.empty) \<lparr>pr_control = k, pr_audit = Some \<lparr>au_writer = close_audit db_writer, au_pc = Returned [],
        au_world = w, au_accepted = [sample_entry], au_flushed = [sample_entry]\<rparr>, pr_kafka = None, pr_refused = 0\<rparr>"
      (is "process_reachable _ _ _ _ _ _ _ _ ?p")
    and k: "\<not> ct_httpForced k" "\<not> ct_grpcForced k" "ct_sinksStopped k" by blast
  from no_decision_refused [OF r db_server_simps(2), THEN conjunct2] k r show ?thesis by (intro exI [of _ ?p]) simp
qed

end
