(* ===== verification/Rate_Window.thy ===== *)
theory Rate_Window
  imports Rate_Limit
begin

text \<open>
  The rate limit as a sliding-window counter. The abstract specification counts the executions of the
  script by key prefix and bucket; \<open>limiter_trace\<close> are the executions of one rule against Redis in
  the order in which Redis runs them, for requests that are evaluated concurrently and by several
  processes. Under the documented behaviour of the Redis commands every decision is the one of the
  specification, unless a script ran so much later than an earlier one that the counter it reads
  has expired; how late that is is part of the theorem.
\<close>

section \<open>The documented behaviour of Redis\<close>

text \<open>
  What a client can see of the server: the integer stored at a key (0 where there is none), the time at
  which a key expires, and the time. Redis keeps its time in milliseconds; \<open>EXPIRE\<close> takes seconds.
\<close>

record 'r redis_view =
  rv_count :: "'r \<Rightarrow> string \<Rightarrow> int"
  rv_expiry :: "'r \<Rightarrow> string \<Rightarrow> int option"
  rv_time :: "'r \<Rightarrow> int"

definition redis_documented :: "'r Cmdable \<Rightarrow> 'r redis_view \<Rightarrow> bool" where
  "redis_documented client view \<longleftrightarrow>
     (\<forall>k r n r'. rd_INCR client k r = (Inr n, r') \<longrightarrow>
        n = rv_count view r k + 1 \<and> rv_count view r' = (rv_count view r)(k := n) \<and>
        (\<forall>k'. k' \<noteq> k \<longrightarrow> rv_expiry view r' k' = rv_expiry view r k') \<and> rv_time view r' = rv_time view r) \<and>
     (\<forall>k s r n r'. rd_EXPIRE client k (format_int s) r = (Inr n, r') \<longrightarrow> 0 < s \<longrightarrow> s < 2 ^ 63 \<longrightarrow>
        rv_count view r k \<noteq> 0 \<longrightarrow>
        rv_count view r' = rv_count view r \<and> rv_time view r' = rv_time view r \<and>
        rv_expiry view r' = (rv_expiry view r)(k := Some (rv_time view r + 1000 * s))) \<and>
     (\<forall>k r v r'. rd_GET client k r = (Inr v, r') \<longrightarrow>
        rv_count view r' = rv_count view r \<and> rv_time view r' = rv_time view r \<and>
        rv_expiry view r' = rv_expiry view r \<and>
        (case v of None \<Rightarrow> rv_count view r k = 0 | Some s \<Rightarrow> s = format_int (rv_count view r k)))"

text \<open>
  Between two executions of a rule's script other clients may do what they want with other keys. The keys of
  the rule keep their counter and their expiry; a key can only be gone because its expiry has
  passed, which says nothing of the exact moment at which the server removes it.
\<close>

definition rule_key :: "'r RateLimitRule \<Rightarrow> string \<Rightarrow> bool" where
  "rule_key rl k \<longleftrightarrow> (\<exists>req b. k = bucket_key (keyPrefix rl req) b)"

definition alive :: "'r redis_view \<Rightarrow> 'r \<Rightarrow> int \<Rightarrow> string \<Rightarrow> bool" where
  "alive view r t k \<longleftrightarrow> (\<forall>d. rv_expiry view r k = Some d \<longrightarrow> t < d)"

definition idle :: "'r redis_view \<Rightarrow> 'r RateLimitRule \<Rightarrow> 'r \<Rightarrow> 'r \<Rightarrow> bool" where
  "idle view rl r r0 \<longleftrightarrow> rv_time view r \<le> rv_time view r0 \<and>
     (\<forall>k. rule_key rl k \<longrightarrow>
        rv_count view r0 k = rv_count view r k \<and> rv_expiry view r0 k = rv_expiry view r k \<or>
        rv_count view r0 k = 0 \<and> (rv_count view r k = 0 \<or> \<not> alive view r (rv_time view r0) k))"

section \<open>The specification\<close>

text \<open>
  An execution of the script: the prefix of its keys, the second that the service had read from its own clock, the
  millisecond at which the server ran it, and the result of the evaluation, where the reply reached
  the service.
\<close>

record execution =
  ex_prefix :: string
  ex_second :: int
  ex_server :: int
  ex_result :: "RuleResult option"

definition bucket_of :: "int \<Rightarrow> execution list \<Rightarrow> string \<Rightarrow> int \<Rightarrow> execution list" where
  "bucket_of ws xs p b = filter (\<lambda>x. ex_prefix x = p \<and> ex_second x div ws = b) xs"

definition hits :: "int \<Rightarrow> execution list \<Rightarrow> string \<Rightarrow> int \<Rightarrow> int" where
  "hits ws xs p b = int (length (bucket_of ws xs p b))"

text \<open>The decision at the second \<open>t\<close> on the counts of the current and of the previous bucket.\<close>

definition decision_on :: "bool \<Rightarrow> 'r RateLimitRule \<Rightarrow> int \<Rightarrow> int \<Rightarrow> int \<Rightarrow> RuleResult" where
  "decision_on fma rl t current previous =
     (if estimate fma (window_seconds rl) (t mod window_seconds rl) current previous \<le> f_of_int (rl_limit rl)
      then unmatched (rl_id rl)
      else matched (rl_id rl) (ra_Verdict (rl_onExceed rl)) (ra_Code (rl_onExceed rl)))"

definition window_decision :: "bool \<Rightarrow> 'r RateLimitRule \<Rightarrow> int \<Rightarrow> execution list \<Rightarrow> execution \<Rightarrow> RuleResult" where
  "window_decision fma rl ws earlier x =
     (let p = ex_prefix x; b = ex_second x div ws in
      decision_on fma rl (ex_second x) (hits ws (earlier @ [x]) p b) (hits ws earlier p (b - 1)))"

text \<open>
  How late the server ran a script, by its clock, after the second that the service had read. The difference of the
  clocks is part of it; what matters is only by how much it grows from one execution to a
  later one.
\<close>

definition lateness :: "execution \<Rightarrow> int" where
  "lateness x = ex_server x - 1000 * ex_second x"

definition late_at_most :: "int \<Rightarrow> execution list \<Rightarrow> bool" where
  "late_at_most d xs \<longleftrightarrow> sorted_wrt (\<lambda>x y. lateness y - lateness x \<le> d) xs"

lemma bucket_of_snoc:
  "bucket_of ws (xs @ [x]) p b =
     bucket_of ws xs p b @ (if ex_prefix x = p \<and> ex_second x div ws = b then [x] else [])"
  by (simp add: bucket_of_def)

lemma bucket_of_last:
  assumes "bucket_of ws xs p b \<noteq> []"
  shows "last (bucket_of ws xs p b) \<in> set xs" and "ex_second (last (bucket_of ws xs p b)) div ws = b"
  using last_in_set [OF assms] by (simp_all add: bucket_of_def)

lemma hits_bounds: "0 \<le> hits ws xs p b" "hits ws xs p b \<le> int (length xs)"
  by (simp_all add: hits_def bucket_of_def)

section \<open>The executions of a rule\<close>

text \<open>
  The scripts that Redis runs for the rule \<open>rl\<close>, one after the other, as Redis does. An evaluation whose
  reply arrives is a run of \<open>Evaluate\<close> in a world of its own: the requests are concurrent and may
  belong to several processes, and what ties them together is the server, which runs the script
  atomically, to its end, on the state \<open>r0\<close> that the scripts before it and the time since then have left. The
  reply of an execution can also be lost.
\<close>

inductive limiter_trace ::
    "bool \<Rightarrow> 'r RateLimitRule \<Rightarrow> 'r redis_view \<Rightarrow> 'r \<Rightarrow> execution list \<Rightarrow> 'r \<Rightarrow> bool"
  for fma rl view init where
  start: "limiter_trace fma rl view init [] init"
| answered: "limiter_trace fma rl view init xs r \<Longrightarrow> idle view rl r r0 \<Longrightarrow>
     applies rl state \<Longrightarrow> time_now w = (now, w1) \<Longrightarrow> 0 \<le> now \<Longrightarrow>
     rd_Run (rl_redis rl) c (window_script rl (es_Request state) (now div 1000000000)) w1 = (Inr vs, w') \<Longrightarrow>
     window_script rl (es_Request state) (now div 1000000000) r0 = (Inr vs, ext w') \<Longrightarrow>
     invoke (rate_limit_rule fma rl) c state byID w = (Inr res, w') \<Longrightarrow>
     limiter_trace fma rl view init
       (xs @ [\<lparr>ex_prefix = keyPrefix rl (es_Request state), ex_second = now div 1000000000,
               ex_server = rv_time view r0, ex_result = Some res\<rparr>]) (ext w')"
| unanswered: "limiter_trace fma rl view init xs r \<Longrightarrow> idle view rl r r0 \<Longrightarrow> 0 \<le> t \<Longrightarrow>
     window_script rl req t r0 = (Inr vs, r1) \<Longrightarrow>
     limiter_trace fma rl view init
       (xs @ [\<lparr>ex_prefix = keyPrefix rl req, ex_second = t, ex_server = rv_time view r0, ex_result = None\<rparr>]) r1"

section \<open>One evaluation\<close>

lemma split_last_unique:
  assumes "x \<notin> set zs" "x \<notin> set zs'" "xs @ x # zs = xs' @ x # zs'"
  shows "xs = xs' \<and> zs = zs'"
proof -
  have tw: "takeWhile (\<lambda>y. y \<noteq> x) (rev (ys @ x # us)) = rev us" if "x \<notin> set us" for ys us
    using that by (simp add: takeWhile_append)
  from assms tw [of zs xs] tw [of zs' xs'] have "rev zs = rev zs'" by metis
  with assms(3) show ?thesis by simp
qed

lemma bucket_key_inj [simp]: "bucket_key p b = bucket_key q d \<longleftrightarrow> p = q \<and> b = d"
  using split_last_unique [of "CHR '':''" "format_int b" "format_int d" p q] format_int_colon format_int_inj
  by (auto simp: bucket_key_def)

text \<open>What one run of the script does to the counters.\<close>

lemma rateLimitScript_effect:
  assumes "redis_documented client view" and "k \<noteq> k2" and ttl: "0 < ttl" "ttl < 2 ^ 63"
    and "0 \<le> rv_count view r k"
    and script: "rateLimitScript client [k, k2] [format_int ttl] r = (Inr vs, r')"
  shows "vs = [AInt (lua_number (rv_count view r k + 1)), AString (format_int (rv_count view r k2))]"
    and "rv_count view r' = (rv_count view r)(k := rv_count view r k + 1)"
    and "rv_time view r' = rv_time view r"
    and "rv_expiry view r' k = Some (rv_time view r + 1000 * ttl)"
    and "k' \<noteq> k \<Longrightarrow> rv_expiry view r' k' = rv_expiry view r k'"
proof -
  from script obtain n r1 n1 r2 v where incr: "rd_INCR client k r = (Inr n, r1)"
    and expire: "rd_EXPIRE client k (format_int ttl) r1 = (Inr n1, r2)"
    and get: "rd_GET client k2 r2 = (Inr v, r')"
    and vs: "vs = [AInt (lua_number n), AString (case v of None \<Rightarrow> ''0'' | Some s \<Rightarrow> s)]"
    by (auto simp: rateLimitScript_def split: prod.splits sum.splits)
  have i: "n = rv_count view r k + 1" "rv_count view r1 = (rv_count view r)(k := n)"
    "\<And>k'. k' \<noteq> k \<Longrightarrow> rv_expiry view r1 k' = rv_expiry view r k'" "rv_time view r1 = rv_time view r"
    using assms(1) incr unfolding redis_documented_def by blast+
  have "rv_count view r1 k \<noteq> 0" using i(1,2) assms(5) by simp
  then have e: "rv_count view r2 = rv_count view r1"
    "rv_expiry view r2 = (rv_expiry view r1)(k := Some (rv_time view r1 + 1000 * ttl))"
    "rv_time view r2 = rv_time view r1"
    using assms(1) expire ttl unfolding redis_documented_def by blast+
  have g: "rv_count view r' = rv_count view r2" "rv_expiry view r' = rv_expiry view r2"
    "rv_time view r' = rv_time view r2"
    "case v of None \<Rightarrow> rv_count view r2 k2 = 0 | Some s \<Rightarrow> s = format_int (rv_count view r2 k2)"
    using assms(1) get unfolding redis_documented_def by blast+
  have "format_int 0 = ''0''" by code_simp
  with vs g(4) e(1) i(1,2) assms(2)
  show "vs = [AInt (lua_number (rv_count view r k + 1)), AString (format_int (rv_count view r k2))]"
    by (auto split: option.splits)
  show "rv_count view r' = (rv_count view r)(k := rv_count view r k + 1)" using g e i by simp
  show "rv_time view r' = rv_time view r" using g e i by simp
  show "rv_expiry view r' k = Some (rv_time view r + 1000 * ttl)" using g e i by simp
  show "k' \<noteq> k \<Longrightarrow> rv_expiry view r' k' = rv_expiry view r k'" using g e i by simp
qed

lemma Seconds_whole:
  assumes "0 \<le> n" "n \<le> 2 ^ 53"
  shows "Seconds (n * 1000000000) = of_int n"
proof -
  have "f_of_int n = of_int n" using assms by (intro f_of_int_exact) simp
  moreover have "float64 (of_int n) = of_int n" using calculation by (simp add: f_of_int_def)
  ultimately show ?thesis
    using assms by (simp add: Seconds_def f_add_def f_div_def f_of_int_def [of 0])
qed

definition whole_window :: "'r RateLimitRule \<Rightarrow> int \<Rightarrow> bool" where
  "whole_window r ws \<longleftrightarrow> 0 < ws \<and> rl_window r = ws * 1000000000 \<and> 2 * rl_window r < 2 ^ 63"

lemma whole_window_seconds:
  assumes "whole_window r ws"
  shows "window_seconds r = ws" and "ttl_seconds r = 2 * ws"
proof -
  have ws: "0 \<le> ws" "ws \<le> 2 ^ 53" "0 \<le> 2 * ws" "2 * ws \<le> 2 ^ 53"
    using assms by (simp_all add: whole_window_def)
  from Seconds_whole [OF ws(1,2)] assms show "window_seconds r = ws"
    by (simp add: window_seconds_def whole_window_def)
  have "wrap64 (2 * rl_window r) = 2 * ws * 1000000000"
    using assms by (simp add: wrap64_def whole_window_def)
  with Seconds_whole [OF ws(3,4)] show "ttl_seconds r = 2 * ws"
    unfolding ttl_seconds_def by (simp only: ceiling_of_int)
qed

lemma Sscanf_d_format_int: "0 \<le> n \<Longrightarrow> n < 2 ^ 63 \<Longrightarrow> Sscanf_d (format_int n) = Inr n"
  using Sscanf_d_format_nat [of "nat n"] by (simp add: format_int_def)

lemma lua_number_exact: "\<bar>n\<bar> \<le> 2 ^ 53 \<Longrightarrow> lua_number n = n"
  by (simp add: lua_number_def f_of_int_exact)

section \<open>The counters\<close>

text \<open>
  What the server holds for a bucket: as many as there were executions in it, with an expiry two windows after
  the last of them; or nothing any more, once that moment has passed.
\<close>

definition counter :: "'r redis_view \<Rightarrow> int \<Rightarrow> execution list \<Rightarrow> 'r \<Rightarrow> string \<Rightarrow> int \<Rightarrow> bool" where
  "counter view ws xs r p b \<longleftrightarrow>
     (let k = bucket_key p b; ys = bucket_of ws xs p b in
      if ys = [] then rv_count view r k = 0
      else rv_count view r k = hits ws xs p b \<and> rv_expiry view r k = Some (ex_server (last ys) + 2000 * ws) \<or>
        rv_count view r k = 0 \<and> ex_server (last ys) + 2000 * ws \<le> rv_time view r)"

definition ledger :: "'r redis_view \<Rightarrow> 'r RateLimitRule \<Rightarrow> int \<Rightarrow> execution list \<Rightarrow> 'r \<Rightarrow> bool" where
  "ledger view rl ws xs r \<longleftrightarrow> (\<forall>req b. counter view ws xs r (keyPrefix rl req) b)"

lemma ledgerD: "ledger view rl ws xs r \<Longrightarrow> counter view ws xs r (keyPrefix rl req) b"
  by (simp add: ledger_def)

lemma counter_unexpired:
  assumes "counter view ws xs r p b"
    and "bucket_of ws xs p b \<noteq> [] \<Longrightarrow> rv_time view r < ex_server (last (bucket_of ws xs p b)) + 2000 * ws"
  shows "rv_count view r (bucket_key p b) = hits ws xs p b"
  using assms by (auto simp: counter_def hits_def Let_def split: if_splits)

lemma counter_read:
  assumes "counter view ws xs r p b"
  shows "rv_count view r (bucket_key p b) = hits ws xs p b \<or>
    rv_count view r (bucket_key p b) = 0 \<and> bucket_of ws xs p b \<noteq> [] \<and>
      ex_server (last (bucket_of ws xs p b)) + 2000 * ws \<le> rv_time view r"
  using assms by (auto simp: counter_def hits_def Let_def split: if_splits)

lemma ledger_idle:
  assumes "ledger view rl ws xs r" and "idle view rl r r0"
  shows "ledger view rl ws xs r0"
  unfolding ledger_def
proof (intro allI)
  fix req b
  let ?p = "keyPrefix rl req"
  have "rule_key rl (bucket_key ?p b)" by (auto simp: rule_key_def)
  with assms(2) have
    "rv_count view r0 (bucket_key ?p b) = rv_count view r (bucket_key ?p b) \<and>
       rv_expiry view r0 (bucket_key ?p b) = rv_expiry view r (bucket_key ?p b) \<or>
     rv_count view r0 (bucket_key ?p b) = 0 \<and>
       (rv_count view r (bucket_key ?p b) = 0 \<or> \<not> alive view r (rv_time view r0) (bucket_key ?p b))"
    and "rv_time view r \<le> rv_time view r0"
    by (simp_all add: idle_def)
  with ledgerD [OF assms(1), of req b] show "counter view ws xs r0 ?p b"
    by (auto simp: counter_def alive_def Let_def hits_def split: if_splits)
qed

lemma div_bucket:
  fixes t u :: int
  assumes "0 < ws"
  shows "t div ws = u div ws \<Longrightarrow> t - u \<le> ws - 1" and "u div ws = t div ws - 1 \<Longrightarrow> t - u \<le> t mod ws + ws"
proof -
  have t: "t = t div ws * ws + t mod ws" and u: "u = u div ws * ws + u mod ws" by simp_all
  have m: "t mod ws < ws" "0 \<le> u mod ws" using assms by simp_all
  show "t - u \<le> ws - 1" if "t div ws = u div ws"
  proof -
    from that have "u div ws * ws = t div ws * ws" by simp
    with t u m show ?thesis by linarith
  qed
  show "t - u \<le> t mod ws + ws" if "u div ws = t div ws - 1"
  proof -
    from that have "u div ws * ws = t div ws * ws - ws" by (simp add: left_diff_distrib)
    with t u m show ?thesis by linarith
  qed
qed

lemma late_snoc:
  "late_at_most d (xs @ [x]) \<longleftrightarrow> late_at_most d xs \<and> (\<forall>y \<in> set xs. lateness x - lateness y \<le> d)"
  by (auto simp: late_at_most_def sorted_wrt_append)

text \<open>
  One execution. The counter of the current bucket is there, and the counter of the bucket before it is there or
  the script is late by the rest of its bucket at least.
\<close>

lemma execution_counts:
  assumes ledger: "ledger view rl ws xs r0" and ws: "0 < ws" and "d \<le> 1000 * ws"
    and late: "\<forall>y \<in> set xs. lateness x - lateness y \<le> d"
    and x: "ex_prefix x = keyPrefix rl req" "ex_server x = rv_time view r0"
  defines "b \<equiv> ex_second x div ws"
  shows "rv_count view r0 (bucket_key (ex_prefix x) b) = hits ws xs (ex_prefix x) b"
    and "rv_count view r0 (bucket_key (ex_prefix x) (b - 1)) = hits ws xs (ex_prefix x) (b - 1) \<or>
      rv_count view r0 (bucket_key (ex_prefix x) (b - 1)) = 0 \<and> 1000 * ws \<le> 1000 * (ex_second x mod ws) + d"
proof -
  note at = ledgerD [OF ledger, of req, folded x(1)]
  have gap: "rv_time view r0 - ex_server y \<le> d + 1000 * (ex_second x - ex_second y)" if "y \<in> set xs" for y
    using bspec [OF late that] by (simp add: lateness_def x(2))
  show "rv_count view r0 (bucket_key (ex_prefix x) b) = hits ws xs (ex_prefix x) b"
  proof (rule counter_unexpired [OF at])
    assume ne: "bucket_of ws xs (ex_prefix x) b \<noteq> []"
    let ?y = "last (bucket_of ws xs (ex_prefix x) b)"
    from bucket_of_last [OF ne] have "?y \<in> set xs" "ex_second x - ex_second ?y \<le> ws - 1"
      using div_bucket(1) [OF ws, of "ex_second x" "ex_second ?y"] by (simp_all add: b_def)
    with gap [of ?y] assms(3) ws show "rv_time view r0 < ex_server ?y + 2000 * ws" by simp
  qed
  show "rv_count view r0 (bucket_key (ex_prefix x) (b - 1)) = hits ws xs (ex_prefix x) (b - 1) \<or>
      rv_count view r0 (bucket_key (ex_prefix x) (b - 1)) = 0 \<and> 1000 * ws \<le> 1000 * (ex_second x mod ws) + d"
  proof (rule disj_forward [OF counter_read [OF at]])
    let ?y = "last (bucket_of ws xs (ex_prefix x) (b - 1))"
    assume lost: "rv_count view r0 (bucket_key (ex_prefix x) (b - 1)) = 0 \<and> bucket_of ws xs (ex_prefix x) (b - 1) \<noteq> [] \<and>
      ex_server ?y + 2000 * ws \<le> rv_time view r0"
    then have "?y \<in> set xs" "ex_second x - ex_second ?y \<le> ex_second x mod ws + ws"
      using bucket_of_last [of ws xs "ex_prefix x" "b - 1"] div_bucket(2) [OF ws, of "ex_second ?y" "ex_second x"]
      by (simp_all add: b_def)
    with gap [of ?y] lost ws
    show "rv_count view r0 (bucket_key (ex_prefix x) (b - 1)) = 0 \<and> 1000 * ws \<le> 1000 * (ex_second x mod ws) + d"
      by simp
  qed
qed

lemma execution_ledger:
  assumes ledger: "ledger view rl ws xs r0" and "redis_documented (rl_redis rl) view" and "whole_window rl ws"
    and "0 \<le> ex_second x" and "ex_prefix x = keyPrefix rl req" and "ex_server x = rv_time view r0"
    and current: "rv_count view r0 (bucket_key (ex_prefix x) (ex_second x div ws)) =
      hits ws xs (ex_prefix x) (ex_second x div ws)"
    and script: "window_script rl req (ex_second x) r0 = (Inr vs, r1)"
  shows "vs = [AInt (lua_number (hits ws (xs @ [x]) (ex_prefix x) (ex_second x div ws))),
      AString (format_int (rv_count view r0 (bucket_key (ex_prefix x) (ex_second x div ws - 1))))]"
    and "ledger view rl ws (xs @ [x]) r1"
proof -
  let ?b = "ex_second x div ws"
  let ?k = "bucket_key (ex_prefix x) ?b" and ?k2 = "bucket_key (ex_prefix x) (?b - 1)"
  have ws: "0 < ws" "0 < 2 * ws" "2 * ws < 2 ^ 63" using assms(3) by (simp_all add: whole_window_def)
  have snoc: "hits ws (xs @ [x]) (ex_prefix x) ?b = hits ws xs (ex_prefix x) ?b + 1"
    by (simp add: hits_def bucket_of_snoc)
  from script have run: "rateLimitScript (rl_redis rl) [?k, ?k2] [format_int (2 * ws)] r0 = (Inr vs, r1)"
    using assms(4,5) ws by (simp add: whole_window_seconds [OF assms(3)])
  have pre: "?k \<noteq> ?k2" "0 \<le> rv_count view r0 ?k" by (simp_all add: current hits_bounds)
  note eff = rateLimitScript_effect [OF assms(2) pre(1) ws(2,3) pre(2) run]
  from eff(1) show "vs = [AInt (lua_number (hits ws (xs @ [x]) (ex_prefix x) ?b)),
      AString (format_int (rv_count view r0 ?k2))]"
    by (simp add: current snoc)
  show "ledger view rl ws (xs @ [x]) r1"
    unfolding ledger_def
  proof (intro allI)
    fix req' b
    show "counter view ws (xs @ [x]) r1 (keyPrefix rl req') b"
    proof (cases "keyPrefix rl req' = ex_prefix x \<and> b = ?b")
      case True
      then show ?thesis
        using eff(2,4) assms(6) by (simp add: counter_def Let_def bucket_of_snoc snoc current)
    next
      case False
      then have "bucket_key (keyPrefix rl req') b \<noteq> ?k" by simp
      with ledgerD [OF ledger, of req' b] eff(2,3,5) False show ?thesis
        by (auto simp: counter_def Let_def bucket_of_snoc hits_def)
    qed
  qed
qed

text \<open>The decision on the values that the script returns.\<close>

lemma decide_counts:
  assumes "whole_window rl ws" and "0 \<le> t" and "0 \<le> current" "current \<le> 2 ^ 53" "0 \<le> previous" "previous \<le> 2 ^ 53"
  shows "decide fma rl t [AInt (lua_number current), AString (format_int previous)] =
    Inr (decision_on fma rl t current previous)"
proof -
  have ws: "0 < ws" using assms(1) by (simp add: whole_window_def)
  have "lua_number current = current" "Sscanf_d (format_int previous) = Inr previous"
    using assms(3-6) by (intro lua_number_exact Sscanf_d_format_int; simp)+
  then show ?thesis
    using assms(2) ws by (simp add: decide_pair decision_on_def whole_window_seconds [OF assms(1)])
qed

definition counted_decision :: "bool \<Rightarrow> 'r RateLimitRule \<Rightarrow> int \<Rightarrow> int \<Rightarrow> execution list \<Rightarrow> execution \<Rightarrow> RuleResult \<Rightarrow> bool" where
  "counted_decision fma rl ws d earlier x res \<longleftrightarrow>
     res = window_decision fma rl ws earlier x \<or>
     1000 * ws \<le> 1000 * (ex_second x mod ws) + d \<and>
     res = decision_on fma rl (ex_second x) (hits ws (earlier @ [x]) (ex_prefix x) (ex_second x div ws)) 0"

lemma answered_decision:
  assumes ledger: "ledger view rl ws xs r0" and redis: "redis_documented (rl_redis rl) view"
    and window: "whole_window rl ws" and now: "rl_now rl = time_now" "time_now w = (now, w1)" "0 \<le> now"
    and "d \<le> 1000 * ws" and late: "\<forall>y \<in> set xs. lateness x - lateness y \<le> d" and "length xs < 2 ^ 53"
    and x: "x = \<lparr>ex_prefix = keyPrefix rl (es_Request state), ex_second = now div 1000000000,
      ex_server = rv_time view r0, ex_result = Some res\<rparr>"
    and run: "rd_Run (rl_redis rl) c (window_script rl (es_Request state) (now div 1000000000)) w1 = (Inr vs, w')"
    and script: "window_script rl (es_Request state) (now div 1000000000) r0 = (Inr vs, ext w')"
    and "applies rl state" and eval: "invoke (rate_limit_rule fma rl) c state byID w = (Inr res, w')"
  shows "counted_decision fma rl ws d xs x res" and "ledger view rl ws (xs @ [x]) (ext w')"
proof -
  let ?t = "now div 1000000000" and ?p = "keyPrefix rl (es_Request state)"
  have ws: "0 < ws" using window by (simp add: whole_window_def)
  have t: "0 \<le> ?t" using now(3) by (simp add: pos_imp_zdiv_nonneg_iff)
  have fields: "ex_prefix x = ?p" "ex_second x = ?t" "ex_server x = rv_time view r0" by (simp_all add: x)
  note counts = execution_counts [OF ledger ws assms(7) late fields(1,3)]
  note exec = execution_ledger [OF ledger redis window _ fields(1,3) counts(1), unfolded fields(2), OF t script]
  from exec(2) show "ledger view rl ws (xs @ [x]) (ext w')" .
  from eval have "RateLimitRule_Evaluate fma rl c state w = (Inr res, w')"
    by (simp add: invoke_def rate_limit_rule_def)
  then have "Inr res = decide fma rl ?t vs"
    using run now by (cases rule: RateLimitRule_Evaluate_cases) (use assms(13) whole_window_seconds [OF window] ws in auto)
  moreover define previous where "previous = rv_count view r0 (bucket_key ?p (?t div ws - 1))"
  moreover have bounds: "0 \<le> previous" "previous \<le> 2 ^ 53"
    using counts(2) hits_bounds [of ws xs ?p "?t div ws - 1"] assms(9) unfolding previous_def fields by auto
  moreover have "0 \<le> hits ws (xs @ [x]) ?p (?t div ws)" "hits ws (xs @ [x]) ?p (?t div ws) \<le> 2 ^ 53"
    using hits_bounds [of ws "xs @ [x]" ?p "?t div ws"] assms(9) by simp_all
  ultimately have "res = decision_on fma rl ?t (hits ws (xs @ [x]) ?p (?t div ws)) previous"
    using exec(1) decide_counts [OF window t] by (simp add: fields)
  with counts(2) show "counted_decision fma rl ws d xs x res"
    unfolding previous_def by (auto simp: counted_decision_def window_decision_def fields Let_def)
qed

lemma trace_decisions:
  assumes "limiter_trace fma rl view init xs r" and "redis_documented (rl_redis rl) view" and "rl_now rl = time_now"
    and "whole_window rl ws" and "d \<le> 1000 * ws" and "\<forall>k. rule_key rl k \<longrightarrow> rv_count view init k = 0"
  shows "late_at_most d xs \<Longrightarrow> length xs \<le> 2 ^ 53 \<Longrightarrow> ledger view rl ws xs r \<and>
    (\<forall>pre x post res. xs = pre @ x # post \<longrightarrow> ex_result x = Some res \<longrightarrow> counted_decision fma rl ws d pre x res)"
  using assms(1)
proof (induction rule: limiter_trace.induct)
  case start
  have "rule_key rl (bucket_key (keyPrefix rl req) b)" for req b by (auto simp: rule_key_def)
  with assms(6) show ?case by (simp add: ledger_def counter_def bucket_of_def)
next
  case (answered xs r r0 state w now w1 c vs w' byID res)
  let ?x = "\<lparr>ex_prefix = keyPrefix rl (es_Request state), ex_second = now div 1000000000,
    ex_server = rv_time view r0, ex_result = Some res\<rparr>"
  from answered.prems have late: "late_at_most d xs" "\<forall>y \<in> set xs. lateness ?x - lateness y \<le> d"
    and len: "length xs \<le> 2 ^ 53" "length xs < 2 ^ 53"
    by (simp_all add: late_snoc)
  note ih = answered.IH [OF late(1) len(1)]
  from ih answered.hyps(2) have "ledger view rl ws xs r0" by (blast intro: ledger_idle)
  note here = answered_decision [OF this assms(2,4,3) answered.hyps(4,5) assms(5) late(2) len(2) refl
      answered.hyps(6,7,3,8)]
  show ?case
  proof (intro conjI allI impI here(2))
    fix pre y post res'
    assume split: "xs @ [?x] = pre @ y # post" and "ex_result y = Some res'"
    then show "counted_decision fma rl ws d pre y res'"
      using ih here(1) by (cases post rule: rev_cases) auto
  qed
next
  case (unanswered xs r r0 t req vs r1)
  let ?x = "\<lparr>ex_prefix = keyPrefix rl req, ex_second = t, ex_server = rv_time view r0, ex_result = None\<rparr>"
  from unanswered.prems have late: "late_at_most d xs" "\<forall>y \<in> set xs. lateness ?x - lateness y \<le> d"
    and len: "length xs \<le> 2 ^ 53"
    by (simp_all add: late_snoc)
  note ih = unanswered.IH [OF late(1) len(1)]
  have ws: "0 < ws" using assms(4) by (simp add: whole_window_def)
  from ih unanswered.hyps(2) have before: "ledger view rl ws xs r0" by (blast intro: ledger_idle)
  note counts = execution_counts [OF before ws assms(5) late(2), of req, simplified]
  from execution_ledger [OF before assms(2,4), of ?x req vs r1] unanswered.hyps(3,4) counts(1)
  have "ledger view rl ws (xs @ [?x]) r1" by simp
  then show ?case
  proof (intro conjI allI impI)
    fix pre y post res'
    assume split: "xs @ [?x] = pre @ y # post" and "ex_result y = Some res'"
    then show "counted_decision fma rl ws d pre y res'"
      using ih by (cases post rule: rev_cases) auto
  qed
qed

section \<open>A server for the witnesses\<close>

text \<open>
  An in-memory server with the commands that the script uses: an integer and an optional expiry, in
  milliseconds, at each key.
\<close>

record memory =
  mem_now :: int
  mem_data :: "string \<rightharpoonup> int \<times> int option"

definition mem_live :: "memory \<Rightarrow> string \<rightharpoonup> int \<times> int option" where
  "mem_live m k =
     (case mem_data m k of
        Some (v, Some d) \<Rightarrow> if mem_now m < d then Some (v, Some d) else None
      | x \<Rightarrow> x)"

definition mem_client :: "memory Cmdable" where
  "mem_client = \<lparr>
     rd_INCR = (\<lambda>k m.
       case (case mem_live m k of None \<Rightarrow> (0, None) | Some x \<Rightarrow> x) of (v, e) \<Rightarrow>
         (Inr (v + 1), m\<lparr>mem_data := (mem_data m)(k \<mapsto> (v + 1, e))\<rparr>)),
     rd_EXPIRE = (\<lambda>k s m.
       case mem_live m k of None \<Rightarrow> (Inr 0, m)
       | Some (v, _) \<Rightarrow>
           (case Sscanf_d s of Inl _ \<Rightarrow> (Inl ''value is not an integer or out of range'', m)
            | Inr n \<Rightarrow> (Inr 1, m\<lparr>mem_data := (mem_data m)(k \<mapsto> (v, Some (mem_now m + 1000 * n)))\<rparr>))),
     rd_GET = (\<lambda>k m. (Inr (map_option (\<lambda>(v, _). format_int v) (mem_live m k)), m)),
     rd_Run = (\<lambda>c s w. case s (ext w) of (out, m) \<Rightarrow> (out, w\<lparr>ext := m\<rparr>))\<rparr>"

definition mem_view :: "memory redis_view" where
  "mem_view = \<lparr>rv_count = (\<lambda>m k. case mem_live m k of None \<Rightarrow> 0 | Some (v, _) \<Rightarrow> v),
     rv_expiry = (\<lambda>m k. case mem_live m k of None \<Rightarrow> None | Some (_, e) \<Rightarrow> e), rv_time = mem_now\<rparr>"

definition mem_empty :: memory where
  "mem_empty = \<lparr>mem_now = 0, mem_data = Map.empty\<rparr>"

lemma mem_live_cases:
  "mem_live m k = Some (v, e) \<Longrightarrow> mem_data m k = Some (v, e) \<and> (\<forall>d. e = Some d \<longrightarrow> mem_now m < d)"
  by (auto simp: mem_live_def split: option.splits if_splits prod.splits)

lemma mem_live_upd:
  "mem_live (m\<lparr>mem_data := (mem_data m)(k \<mapsto> (v, e))\<rparr>) k' =
     (if k' = k then (case e of Some d \<Rightarrow> if mem_now m < d then Some (v, e) else None | None \<Rightarrow> Some (v, e))
      else mem_live m k')"
  by (auto simp: mem_live_def split: option.splits)

lemma mem_now_upd [simp]: "mem_now (m\<lparr>mem_data := f\<rparr>) = mem_now m"
  by simp

lemma mem_INCR:
  assumes "rd_INCR mem_client k m = (Inr n, m')"
  shows "n = rv_count mem_view m k + 1 \<and> rv_count mem_view m' = (rv_count mem_view m)(k := n) \<and>
    (\<forall>k'. k' \<noteq> k \<longrightarrow> rv_expiry mem_view m' k' = rv_expiry mem_view m k') \<and>
    rv_time mem_view m' = rv_time mem_view m"
proof (cases "mem_live m k")
  case None
  with assms show ?thesis by (auto simp: mem_client_def mem_view_def mem_live_upd fun_eq_iff)
next
  case (Some x)
  with mem_live_cases [of m k "fst x" "snd x"] assms show ?thesis
    by (auto simp: mem_client_def mem_view_def mem_live_upd fun_eq_iff split: option.splits prod.splits)
qed

lemma mem_EXPIRE:
  assumes "rd_EXPIRE mem_client k (format_int s) m = (Inr n, m')" and "0 < s" "s < 2 ^ 63"
    and "rv_count mem_view m k \<noteq> 0"
  shows "rv_count mem_view m' = rv_count mem_view m \<and> rv_time mem_view m' = rv_time mem_view m \<and>
    rv_expiry mem_view m' = (rv_expiry mem_view m)(k := Some (rv_time mem_view m + 1000 * s))"
proof -
  from assms(4) obtain v e where live: "mem_live m k = Some (v, e)"
    by (auto simp: mem_view_def split: option.splits)
  have "Sscanf_d (format_int s) = Inr s" using assms(2,3) by (intro Sscanf_d_format_int) simp_all
  with assms(1) live have "m' = m\<lparr>mem_data := (mem_data m)(k \<mapsto> (v, Some (mem_now m + 1000 * s)))\<rparr>"
    by (simp add: mem_client_def)
  with live assms(2) show ?thesis by (simp add: mem_view_def mem_live_upd fun_eq_iff)
qed

lemma mem_GET:
  assumes "rd_GET mem_client k m = (Inr v, m')"
  shows "rv_count mem_view m' = rv_count mem_view m \<and> rv_time mem_view m' = rv_time mem_view m \<and>
    rv_expiry mem_view m' = rv_expiry mem_view m \<and>
    (case v of None \<Rightarrow> rv_count mem_view m k = 0 | Some s \<Rightarrow> s = format_int (rv_count mem_view m k))"
  using assms by (auto simp: mem_client_def mem_view_def split: option.splits)

lemma mem_client_documented: "redis_documented mem_client mem_view"
  unfolding redis_documented_def
  by (intro conjI; intro allI impI; rule mem_INCR mem_EXPIRE mem_GET; assumption)

text \<open>While nobody uses it, its clock goes on and the keys whose expiry has passed are gone.\<close>

lemma mem_idle:
  assumes "mem_now m \<le> s"
  shows "idle mem_view rl m (m\<lparr>mem_now := s\<rparr>)"
  using assms
  by (auto simp: idle_def alive_def mem_view_def mem_live_def split: option.split)

lemma mem_script:
  assumes "k \<noteq> k2" and ttl: "0 < ttl" "ttl < 2 ^ 63"
  shows "rateLimitScript mem_client [k, k2] [format_int ttl] m =
    (Inr [AInt (lua_number (rv_count mem_view m k + 1)), AString (format_int (rv_count mem_view m k2))],
     m\<lparr>mem_data := (mem_data m)(k \<mapsto> (rv_count mem_view m k + 1, Some (mem_now m + 1000 * ttl)))\<rparr>)"
proof -
  obtain v e where old: "(case mem_live m k of None \<Rightarrow> (0, None) | Some x \<Rightarrow> x) = (v, e)" by fastforce
  let ?m1 = "m\<lparr>mem_data := (mem_data m)(k \<mapsto> (v + 1, e))\<rparr>"
  have v: "v = rv_count mem_view m k" using old by (auto simp: mem_view_def split: option.splits)
  have "mem_live ?m1 k = Some (v + 1, e)"
    using old mem_live_cases [of m k v e] by (auto simp: mem_live_upd split: option.splits)
  moreover have "Sscanf_d (format_int ttl) = Inr ttl" using ttl by (intro Sscanf_d_format_int) simp_all
  moreover have "format_int 0 = ''0''" by code_simp
  ultimately show ?thesis
    using old assms(1)
    by (auto simp: rateLimitScript_def mem_client_def v [symmetric] mem_live_upd mem_view_def split: option.splits)
qed

text \<open>An answered execution on this server.\<close>

lemma mem_answered:
  assumes "limiter_trace fma rl mem_view init xs m" and "mem_now m \<le> s" and "0 \<le> t" and "applies rl state"
    and rl: "rl_redis rl = mem_client" "rl_now rl = time_now" "0 < window_seconds rl"
    and script: "window_script rl (es_Request state) t (m\<lparr>mem_now := s\<rparr>) = (Inr vs, m')"
    and res: "decide fma rl t vs = Inr res"
  shows "limiter_trace fma rl mem_view init
    (xs @ [\<lparr>ex_prefix = keyPrefix rl (es_Request state), ex_second = t, ex_server = s, ex_result = Some res\<rparr>]) m'"
proof -
  obtain w w1 where now: "time_now w = (t * 1000000000, w1)" and ext: "ext w1 = m\<lparr>mem_now := s\<rparr>"
  proof
    let ?w = "(start_world (m\<lparr>mem_now := s\<rparr>))\<lparr>clock := \<lambda>_. t * 1000000000\<rparr>"
    show "time_now ?w = (t * 1000000000, snd (time_now ?w))" "ext (snd (time_now ?w)) = m\<lparr>mem_now := s\<rparr>"
      by (simp_all add: time_now_def start_world_def)
  qed
  have run: "rd_Run (rl_redis rl) background (window_script rl (es_Request state) t) w1 = (Inr vs, w1\<lparr>ext := m'\<rparr>)"
    using script by (simp add: rl(1) mem_client_def ext)
  have "RateLimitRule_Evaluate fma rl background state w = (Inr res, w1\<lparr>ext := m'\<rparr>)"
    using assms(4) rl(2,3) run res now unfolding RateLimitRule_Evaluate_def applies_def by (auto simp: Let_def)
  then have "invoke (rate_limit_rule fma rl) background state Map.empty w = (Inr res, w1\<lparr>ext := m'\<rparr>)"
    by (simp add: invoke_def rate_limit_rule_def)
  from limiter_trace.answered [OF assms(1) mem_idle [OF assms(2)] assms(4) now _ _ _ this] run script assms(3)
  show ?thesis by (simp add: mem_view_def)
qed

section \<open>Properties\<close>

text \<open>
  C7. The rate limit refines the sliding-window counter. Take a rule built with the wall clock and a whole
  number of seconds as its window, and any sequence of at most \<open>2 ^ 53\<close> executions of its script, in the
  order in which Redis runs them: the requests may be evaluated concurrently and by several processes, their
  clocks may differ and go back, replies may get lost, and other clients may use other keys. Assumed of Redis
  is that it does what it documents for the commands and the expiry of keys, that it starts without
  this rule's keys and that nothing else writes or evicts them. Let \<open>d\<close> be a bound, of at
  most a window, on how much more late one script ran than an earlier one, in
  milliseconds. Then each decision that reaches the service is the one that the specification makes from the earlier
  executions alone, counted by prefix in the current bucket (with the one being decided) and in the bucket before
  it; or the counter of the bucket before had expired and counted as none, which happens at most in the
  last \<open>d\<close> milliseconds of a bucket, when its weight is at most \<open>d\<close> by the window. The counter of the current bucket
  never expires while it is in use. So with scripts that run less than a second late every
  decision is exactly that of the specification.
\<close>

theorem rate_limit_window:
  assumes "NewRateLimitRule cfg (Some client) = Inr rl" and "lc_Now cfg = None"
    and "redis_documented client view" and "whole_window rl ws"
    and "\<forall>k. rule_key rl k \<longrightarrow> rv_count view init k = 0"
    and "limiter_trace fma rl view init (pre @ x # post) r" and "ex_result x = Some res"
    and "late_at_most d (pre @ x # post)" and "d \<le> 1000 * ws" and "length (pre @ x # post) \<le> 2 ^ 53"
  shows "(res = window_decision fma rl ws pre x \<or>
      1000 * ws \<le> 1000 * (ex_second x mod ws) + d \<and>
      res = decision_on fma rl (ex_second x) (hits ws (pre @ [x]) (ex_prefix x) (ex_second x div ws)) 0) \<and>
    (d < 1000 \<longrightarrow> res = window_decision fma rl ws pre x)"
proof -
  note rl = NewRateLimitRule_Inr [OF assms(1)]
  have redis: "redis_documented (rl_redis rl) view" and clock: "rl_now rl = time_now"
    using rl(2,9) assms(2,3) by simp_all
  from trace_decisions [OF assms(6) redis clock assms(4,9,5,8,10)] assms(7)
  have "counted_decision fma rl ws d pre x res" by blast
  moreover have "ex_second x mod ws \<le> ws - 1" using assms(4) by (simp add: whole_window_def)
  ultimately show ?thesis by (auto simp: counted_decision_def)
qed

definition sample_limit_config :: "'r RateLimitRuleConfig" where
  "sample_limit_config = \<lparr>lc_ID = ''rl'', lc_Scope = [], lc_Action = ''publish'',
     lc_Window = 60 * 1000000000, lc_Limit = 2,
     lc_OnExceed = \<lparr>ra_Verdict = ''block'', ra_Code = ''quota''\<rparr>, lc_Now = None\<rparr>"

definition limit_state :: EvalState where
  "limit_state = \<lparr>es_Request = sample_request, es_Features = zero_ActorFeatures,
     es_FeatureDegraded = False, es_DegradedWarnings = []\<rparr>"

text \<open>The rule that this configuration gives.\<close>

definition sample_limit :: "'r Cmdable \<Rightarrow> 'r RateLimitRule" where
  "sample_limit client = \<lparr>rl_id = ''rl'', rl_scope = ''actor'', rl_action = ''publish'',
     rl_window = 60 * 1000000000, rl_limit = 2,
     rl_onExceed = \<lparr>ra_Verdict = ''block'', ra_Code = ''quota''\<rparr>, rl_now = time_now,
     rl_redis = client\<rparr>"

lemma sample_limit_built: "NewRateLimitRule sample_limit_config (Some client) = Inr (sample_limit client)"
proof -
  have "TrimSpace ''rl'' \<noteq> []" by code_simp
  then show ?thesis
    by (simp add: NewRateLimitRule_def sample_limit_config_def sample_limit_def validate_def
        VerdictBlock_def VerdictAllow_def VerdictFlag_def)
qed

text \<open>The rule evaluated on one request after the other.\<close>

fun run_rule :: "'r rule \<Rightarrow> ctx \<Rightarrow> EvalState list \<Rightarrow> 'r world \<Rightarrow> (gerror + RuleResult) list \<times> 'r world" where
  "run_rule rule c [] w = ([], w)"
| "run_rule rule c (state # states) w =
     (case invoke rule c state Map.empty w of (out, w) \<Rightarrow>
      case run_rule rule c states w of (outs, w) \<Rightarrow> (out # outs, w))"

text \<open>Three requests of one actor within a minute, the last of which Redis runs half a second after the service read its clock.\<close>

definition limit_execution :: "int \<Rightarrow> int \<Rightarrow> RuleResult \<Rightarrow> execution" where
  "limit_execution t s res = \<lparr>ex_prefix = ''pds:rl:a1:publish'', ex_second = t, ex_server = s, ex_result = Some res\<rparr>"

definition three_executions :: "execution list" where
  "three_executions = [limit_execution 58 58100 (unmatched ''rl''), limit_execution 59 59200 (unmatched ''rl''),
     limit_execution 59 59600 (matched ''rl'' ''block'' ''quota'')]"

lemma limit_state_prefix: "keyPrefix (sample_limit mem_client) (es_Request limit_state) = ''pds:rl:a1:publish''"
  by (simp add: keyPrefix_def sample_limit_def limit_state_def sample_request_def)

lemma limit_state_applies: "applies (sample_limit mem_client) limit_state"
  by (simp add: applies_def sample_limit_def limit_state_def sample_request_def)

lemma sample_limit_simps:
  "rl_redis (sample_limit client) = client" "rl_now (sample_limit client) = time_now"
  "whole_window (sample_limit client) 60"
  by (simp_all add: sample_limit_def whole_window_def)

lemma three_executions_run:
  "\<exists>m. limiter_trace False (sample_limit mem_client) mem_view mem_empty three_executions m"
proof -
  let ?r = "sample_limit mem_client"
  have secs: "0 < window_seconds ?r" by (simp add: whole_window_seconds [OF sample_limit_simps(3)])
  note next' = mem_answered [OF _ _ _ limit_state_applies sample_limit_simps(1,2) secs, unfolded limit_state_prefix,
    folded limit_execution_def]
  note script = mem_script [where ttl = 120]
  let ?m1 = "\<lparr>mem_now = 58100, mem_data = [''pds:rl:a1:publish:0'' \<mapsto> (1, Some 178100)]\<rparr>"
  let ?m2 = "\<lparr>mem_now = 59200, mem_data = [''pds:rl:a1:publish:0'' \<mapsto> (2, Some 179200)]\<rparr>"
  let ?m3 = "\<lparr>mem_now = 59600, mem_data = [''pds:rl:a1:publish:0'' \<mapsto> (3, Some 179600)]\<rparr>"
  have keys: "bucket_key ''pds:rl:a1:publish'' 0 = ''pds:rl:a1:publish:0''" by code_simp
  have dec: "decide False ?r 58 [AInt (lua_number 1), AString (format_int 0)] = Inr (unmatched ''rl'')"
    "decide False ?r 59 [AInt (lua_number 2), AString (format_int 0)] = Inr (unmatched ''rl'')"
    "decide False ?r 59 [AInt (lua_number 3), AString (format_int 0)] = Inr (matched ''rl'' ''block'' ''quota'')"
    by code_simp+
  have run: "window_script ?r (es_Request limit_state) t m =
      (Inr [AInt (lua_number (rv_count mem_view m ''pds:rl:a1:publish:0'' + 1)),
            AString (format_int (rv_count mem_view m (bucket_key ''pds:rl:a1:publish'' (- 1))))],
       m\<lparr>mem_data := (mem_data m)(''pds:rl:a1:publish:0'' \<mapsto>
         (rv_count mem_view m ''pds:rl:a1:publish:0'' + 1, Some (mem_now m + 120000)))\<rparr>)"
    if "0 \<le> t" "t < 60" for t m
  proof -
    from that have "t div 60 = 0" by simp
    moreover have "bucket_key ''pds:rl:a1:publish'' 0 \<noteq> bucket_key ''pds:rl:a1:publish'' (- 1)" by simp
    ultimately show ?thesis
      using that mem_script [of "bucket_key ''pds:rl:a1:publish'' 0" "bucket_key ''pds:rl:a1:publish'' (- 1)" 120 m]
      by (simp add: whole_window_seconds [OF sample_limit_simps(3)] sample_limit_simps(1) limit_state_prefix keys)
  qed
  note run = run [unfolded limit_state_prefix]
  have other: "bucket_key ''pds:rl:a1:publish'' (- 1) \<noteq> ''pds:rl:a1:publish:0''"
    unfolding keys [symmetric] by simp
  have view: "rv_count mem_view \<lparr>mem_now = s, mem_data = f\<rparr> k =
      (case f k of None \<Rightarrow> 0 | Some (v, None) \<Rightarrow> v | Some (v, Some d) \<Rightarrow> if s < d then v else 0)" for s f k
    by (simp add: mem_view_def mem_live_def split: option.split)
  have "limiter_trace False ?r mem_view mem_empty ([] @ [limit_execution 58 58100 (unmatched ''rl'')]) ?m1"
    by (rule next' [OF limiter_trace.start _ _ _ dec(1)]) (simp_all add: run mem_empty_def view other)
  from next' [OF this _ _ _ dec(2), of 59200 ?m2]
  have "limiter_trace False ?r mem_view mem_empty
      ([limit_execution 58 58100 (unmatched ''rl'')] @ [limit_execution 59 59200 (unmatched ''rl'')]) ?m2"
    by (simp add: run view other)
  from next' [OF this _ _ _ dec(3), of 59600 ?m3] show ?thesis
    by (intro exI [of _ ?m3]) (simp add: run view other three_executions_def)
qed

theorem rate_limit_window_witness:
  "window_decision False (sample_limit mem_client) 60
     [limit_execution 58 58100 (unmatched ''rl''), limit_execution 59 59200 (unmatched ''rl'')]
     (limit_execution 59 59600 (matched ''rl'' ''block'' ''quota'')) = matched ''rl'' ''block'' ''quota''"
proof -
  let ?r = "sample_limit mem_client"
  let ?pre = "[limit_execution 58 58100 (unmatched ''rl''), limit_execution 59 59200 (unmatched ''rl'')]"
  let ?x = "limit_execution 59 59600 (matched ''rl'' ''block'' ''quota'')"
  from three_executions_run obtain m where trace: "limiter_trace False ?r mem_view mem_empty (?pre @ ?x # []) m"
    by (auto simp: three_executions_def)
  have fresh: "\<forall>k. rule_key ?r k \<longrightarrow> rv_count mem_view mem_empty k = 0"
    by (simp add: mem_view_def mem_live_def mem_empty_def)
  have late: "late_at_most 500 (?pre @ ?x # [])"
    by (simp add: late_at_most_def lateness_def limit_execution_def)
  from rate_limit_window [OF sample_limit_built _ mem_client_documented sample_limit_simps(3) fresh trace _ late]
  show ?thesis by (simp add: sample_limit_config_def limit_execution_def)
qed

text \<open>The rule with a window of \<open>ws\<close> seconds and a limit of one request, and its first two requests.\<close>

definition one_per_window :: "int \<Rightarrow> memory RateLimitRule" where
  "one_per_window ws = (sample_limit mem_client)\<lparr>rl_window := ws * 1000000000, rl_limit := 1\<rparr>"

lemma one_per_window_built:
  assumes "0 < ws"
  shows "NewRateLimitRule (sample_limit_config\<lparr>lc_Window := ws * 1000000000, lc_Limit := 1\<rparr>) (Some mem_client) =
    Inr (one_per_window ws)"
proof -
  have "TrimSpace ''rl'' \<noteq> []" by code_simp
  with assms show ?thesis
    by (simp add: NewRateLimitRule_def sample_limit_config_def sample_limit_def validate_def one_per_window_def
        VerdictBlock_def VerdictAllow_def VerdictFlag_def)
qed

lemma one_per_window_simps:
  "rl_redis (one_per_window ws) = mem_client" "rl_now (one_per_window ws) = time_now" "rl_limit (one_per_window ws) = 1"
  "rl_id (one_per_window ws) = ''rl''" "rl_onExceed (one_per_window ws) = \<lparr>ra_Verdict = ''block'', ra_Code = ''quota''\<rparr>"
  "keyPrefix (one_per_window ws) (es_Request limit_state) = ''pds:rl:a1:publish''"
  "applies (one_per_window ws) limit_state"
  by (simp_all add: one_per_window_def sample_limit_def keyPrefix_def applies_def limit_state_def sample_request_def)

lemma weight_counts:
  assumes "0 < ws" "ws \<le> 2 ^ 33"
  shows "1 < estimate fma ws (ws - 1) 1 1"
proof -
  let ?u = "1 / 2 ^ 33 :: rat" and ?w = "float64 (1 / of_int ws)"
  have u: "float64 ?u = ?u" "float64 (1 + ?u) = 1 + ?u" by code_simp+
  have one: "f_of_int 1 = 1" "f_of_int ws = of_int ws" using assms by (simp_all add: f_of_int_exact)
  have "?u \<le> 1 / of_int ws" using assms by (intro divide_left_mono) simp_all
  from float64_mono [OF this] have w: "?u \<le> ?w" by (simp only: u)
  from float64_mono [OF w] have ww: "?u \<le> float64 ?w" by (simp only: u)
  have sum: "1 < float64 (1 + y)" if "?u \<le> y" for y
  proof -
    from that have "1 + ?u \<le> 1 + y" by simp
    from float64_mono [OF this] have "1 + ?u \<le> float64 (1 + y)" by (simp only: u)
    then show ?thesis by (rule less_le_trans [rotated]) simp
  qed
  from sum [OF w] sum [OF ww] show ?thesis
    by (simp add: estimate_def Let_def f_div_def f_add_def f_mul_def one)
qed

text \<open>
  C14. The expiry of twice the window is too short for a script that Redis runs late. Whatever the window: a limit
  of one request per window, a first request at second 0, and a second one in the last second of the next
  window, whose script runs one second and a millisecond later, for the delay or for the difference of the clocks of
  two processes. The counter of the first request has expired, and the rule admits the
  second request, which the sliding window counts over the limit.
\<close>

theorem rate_limit_late_script:
  assumes "0 < ws" and "2 * (ws * 1000000000) < 2 ^ 63"
  shows "\<exists>rl x y r.
    NewRateLimitRule (sample_limit_config\<lparr>lc_Window := ws * 1000000000, lc_Limit := 1\<rparr>) (Some mem_client) = Inr rl \<and>
    limiter_trace fma rl mem_view mem_empty [x, y] r \<and> lateness y - lateness x = 1001 \<and>
    ex_result y = Some (unmatched ''rl'') \<and>
    window_decision fma rl ws [x] y = matched ''rl'' ''block'' ''quota''"
proof -
  let ?r = "one_per_window ws" and ?p = "''pds:rl:a1:publish''"
  have window: "whole_window ?r ws" using assms by (simp add: whole_window_def one_per_window_def)
  note secs = whole_window_seconds [OF window]
  have ws: "0 < window_seconds ?r" using assms(1) by (simp add: secs)
  note next' = mem_answered [OF _ _ _ one_per_window_simps(7,1,2) ws, unfolded one_per_window_simps(6),
    folded limit_execution_def]
  have buckets: "go_div (2 * ws - 1) ws = 1" "(2 * ws - 1) mod ws = ws - 1" "(2 * ws - 1) div ws = 1"
  proof -
    have split: "2 * ws - 1 = (ws - 1) + ws" by simp
    have small: "(ws - 1) div ws = 0" "(ws - 1) mod ws = ws - 1"
      using assms(1) by (intro div_pos_pos_trivial mod_pos_pos_trivial; simp)+
    show "(2 * ws - 1) mod ws = ws - 1" unfolding split mod_add_self2 by (rule small(2))
    have "ws \<noteq> 0" using assms(1) by simp
    from div_add_self2 [OF this, of "ws - 1"] show "(2 * ws - 1) div ws = 1"
      unfolding split small(1) by simp
    with assms(1) show "go_div (2 * ws - 1) ws = 1" by simp
  qed
  have dec: "decide fma ?r t [AInt (lua_number 1), AString (format_int 0)] = Inr (unmatched ''rl'')" if "0 \<le> t" for t
    using decide_counts [OF window that, of 1 0 fma]
    by (simp add: decision_on_def estimate_no_previous one_per_window_simps f_of_int_exact)
  let ?m1 = "\<lparr>mem_now = 0, mem_data = [bucket_key ?p 0 \<mapsto> (1, Some (2000 * ws))]\<rparr>"
  let ?m2 = "\<lparr>mem_now = 2000 * ws + 1, mem_data = [bucket_key ?p 0 \<mapsto> (1, Some (2000 * ws)),
    bucket_key ?p 1 \<mapsto> (1, Some (2000 * ws + 1 + 2000 * ws))]\<rparr>"
  have ttl: "0 < 2 * ws" "2 * ws < 2 ^ 63" using assms by simp_all
  have view: "rv_count mem_view \<lparr>mem_now = s, mem_data = f\<rparr> k =
      (case f k of None \<Rightarrow> 0 | Some (v, None) \<Rightarrow> v | Some (v, Some d) \<Rightarrow> if s < d then v else 0)" for s f k
    by (simp add: mem_view_def mem_live_def split: option.split)
  have script: "rateLimitScript mem_client [bucket_key ?p b, bucket_key ?p (b - 1)] [format_int (2 * ws)] m =
    (Inr [AInt (lua_number (rv_count mem_view m (bucket_key ?p b) + 1)),
          AString (format_int (rv_count mem_view m (bucket_key ?p (b - 1))))],
     m\<lparr>mem_data := (mem_data m)(bucket_key ?p b \<mapsto>
       (rv_count mem_view m (bucket_key ?p b) + 1, Some (mem_now m + 1000 * (2 * ws))))\<rparr>)" for b m
    by (rule mem_script [OF _ ttl]) simp
  have "limiter_trace fma ?r mem_view mem_empty ([] @ [limit_execution 0 0 (unmatched ''rl'')]) ?m1"
  proof (rule next' [OF limiter_trace.start _ _ _ dec])
    show "rateLimitScript (rl_redis ?r) [bucket_key ?p (go_div 0 (window_seconds ?r)),
        bucket_key ?p (go_div 0 (window_seconds ?r) - 1)] [format_int (ttl_seconds ?r)] (mem_empty\<lparr>mem_now := 0\<rparr>) =
      (Inr [AInt (lua_number 1), AString (format_int 0)], ?m1)"
      using assms(1) script [of 0 mem_empty] by (simp add: secs one_per_window_simps mem_empty_def view)
  qed (simp_all add: mem_empty_def)
  then have first: "limiter_trace fma ?r mem_view mem_empty [limit_execution 0 0 (unmatched ''rl'')] ?m1" by simp
  have "limiter_trace fma ?r mem_view mem_empty
      ([limit_execution 0 0 (unmatched ''rl'')] @ [limit_execution (2 * ws - 1) (2000 * ws + 1) (unmatched ''rl'')]) ?m2"
  proof (rule next' [OF first _ _ _ dec])
    show "rateLimitScript (rl_redis ?r) [bucket_key ?p (go_div (2 * ws - 1) (window_seconds ?r)),
        bucket_key ?p (go_div (2 * ws - 1) (window_seconds ?r) - 1)] [format_int (ttl_seconds ?r)]
        (?m1\<lparr>mem_now := 2000 * ws + 1\<rparr>) =
      (Inr [AInt (lua_number 1), AString (format_int 0)], ?m2)"
      using script [of 1 "?m1\<lparr>mem_now := 2000 * ws + 1\<rparr>"] by (simp add: secs one_per_window_simps buckets view)
  qed (use assms(1) in simp_all)
  moreover have "window_decision fma ?r ws [limit_execution 0 0 (unmatched ''rl'')]
      (limit_execution (2 * ws - 1) (2000 * ws + 1) (unmatched ''rl'')) = matched ''rl'' ''block'' ''quota''"
    using weight_counts [of ws fma] assms
    by (simp add: window_decision_def decision_on_def hits_def bucket_of_def limit_execution_def buckets secs
        one_per_window_simps f_of_int_exact)
  ultimately show ?thesis
    by (intro exI conjI) (rule one_per_window_built [OF assms(1)], simp, simp_all add: lateness_def limit_execution_def)
qed

theorem rate_limit_late_script_witness:
  "\<exists>x y r. limiter_trace False (one_per_window 60) mem_view mem_empty [x, y] r \<and> lateness y - lateness x = 1001 \<and>
     ex_result y = Some (unmatched ''rl'') \<and>
     window_decision False (one_per_window 60) 60 [x] y = matched ''rl'' ''block'' ''quota''"
  using rate_limit_late_script [of 60 False] one_per_window_built [of 60] by auto

text \<open>
  C27. The floating-point estimate decides like exact arithmetic away from the limit. With counts up
  to \<open>2 ^ 53\<close>, a request is not matched when the exact sliding-window estimate, enlarged by three
  rounding errors, stays within the limit, and it is matched when the estimate less three rounding
  errors exceeds it; in a bucket without predecessor the count alone decides, without any error.
  This holds on platforms that fuse multiplication and addition and on those that do not.
\<close>

theorem rate_limit_threshold:
  assumes "whole_window r ws" and "0 \<le> unix" and "0 \<le> current" "current \<le> 2 ^ 53"
    and "0 \<le> previous" "previous \<le> 2 ^ 53" and "0 \<le> rl_limit r" "rl_limit r \<le> 2 ^ 53"
    and "E = exact_estimate ws (unix mod ws) current previous"
    and "out = decide fma r unix [AInt current, AString (format_int previous)]"
    and "over = matched (rl_id r) (ra_Verdict (rl_onExceed r)) (ra_Code (rl_onExceed r))"
  shows "(E * (1 + ulp_error) ^ 3 \<le> of_int (rl_limit r) \<longrightarrow> out = Inr (unmatched (rl_id r))) \<and>
    (of_int (rl_limit r) < E * (1 - ulp_error) ^ 3 \<longrightarrow> out = Inr over) \<and>
    (previous = 0 \<longrightarrow> out = Inr (if current \<le> rl_limit r then unmatched (rl_id r) else over))"
proof -
  have ws: "0 < ws" "ws \<le> 2 ^ 53" using assms(1) by (simp_all add: whole_window_def)
  then have elapsed: "0 \<le> unix mod ws" "unix mod ws < ws" by simp_all
  have limit: "f_of_int (rl_limit r) = of_int (rl_limit r)" using assms(7,8) by (simp add: f_of_int_exact)
  have parsed: "Sscanf_d (format_int previous) = Inr previous"
    using assms(5,6) by (intro Sscanf_d_format_int) simp_all
  have out: "out = Inr (if estimate fma ws (unix mod ws) current previous \<le> of_int (rl_limit r)
      then unmatched (rl_id r) else over)"
    using assms(2) ws by (simp add: assms(10,11) decide_pair parsed limit whole_window_seconds [OF assms(1)])
  have hi: "estimate fma ws (unix mod ws) current previous \<le> E * (1 + ulp_error) ^ 3"
    and lo: "E * (1 - ulp_error) ^ 3 \<le> estimate fma ws (unix mod ws) current previous"
    using estimate_error [OF assms(3-6) elapsed ws(2)] by (simp_all add: assms(9))
  have "out = Inr (unmatched (rl_id r))" if "E * (1 + ulp_error) ^ 3 \<le> of_int (rl_limit r)"
    unfolding out if_P [OF order_trans [OF hi that]] ..
  moreover have "out = Inr over" if "of_int (rl_limit r) < E * (1 - ulp_error) ^ 3"
    using less_le_trans [OF that lo] by (simp add: out)
  moreover have "out = Inr (if current \<le> rl_limit r then unmatched (rl_id r) else over)" if "previous = 0"
    using that estimate_no_previous [OF assms(3,4)] by (simp add: out)
  ultimately show ?thesis by blast
qed

theorem rate_limit_threshold_witness:
  "decide False (sample_limit mem_client) 90 [AInt 1, AString ''1''] = Inr (unmatched ''rl'') \<and>
   decide False (sample_limit mem_client) 90 [AInt 2, AString ''9''] = Inr (matched ''rl'' ''block'' ''quota'')"
proof -
  let ?r = "sample_limit mem_client"
  have w: "whole_window ?r 60" by (simp add: whole_window_def sample_limit_def)
  have n: "format_int 1 = ''1''" "format_int 9 = ''9''" by code_simp+
  have E: "3 / 2 = exact_estimate 60 (90 mod 60) 1 1" "13 / 2 = exact_estimate 60 (90 mod 60) 2 9"
    by (simp_all add: exact_estimate_def)
  have e: "3 / 2 * (1 + ulp_error) ^ 3 \<le> of_int 2" "of_int 2 < 13 / 2 * (1 - ulp_error) ^ 3"
    by (simp_all add: ulp_error_def power3_eq_cube)
  have r: "rl_limit ?r = 2" "rl_id ?r = ''rl''" "rl_onExceed ?r = \<lparr>ra_Verdict = ''block'', ra_Code = ''quota''\<rparr>"
    by (simp_all add: sample_limit_def)
  have limit: "0 \<le> rl_limit ?r" "rl_limit ?r \<le> 2 ^ 53" by (simp_all add: r)
  note t = rate_limit_threshold [where fma = False and unix = 90, OF w _ _ _ _ _ limit _ refl refl]
  from t [where current = 1 and previous = 1, OF _ _ _ _ _ E(1)] e(1)
  have "decide False ?r 90 [AInt 1, AString ''1''] = Inr (unmatched ''rl'')"
    unfolding n r by simp
  moreover from t [where current = 2 and previous = 9, OF _ _ _ _ _ E(2)] e(2)
  have "decide False ?r 90 [AInt 2, AString ''9''] = Inr (matched ''rl'' ''block'' ''quota'')"
    unfolding n r by simp
  ultimately show ?thesis ..
qed

text \<open>
  At the limit itself the rounding can tip the decision. After 150 requests in the previous minute,
  the first request at second 14 of a minute has the exact estimate 116, which a limit of 116
  admits; the floating-point estimate is larger than 116, and the rule matches.
\<close>

theorem rate_limit_rounds_over:
  "exact_estimate 60 14 1 150 = 116 \<and>
   decide False ((sample_limit client)\<lparr>rl_limit := 116\<rparr>) 74 [AInt 1, AString ''150''] =
     Inr (matched ''rl'' ''block'' ''quota'')"
proof
  show "exact_estimate 60 14 1 150 = 116" by (simp add: exact_estimate_def)
  have "\<not> estimate False 60 14 1 150 \<le> f_of_int 116" by code_simp
  moreover have "Sscanf_d ''150'' = Inr 150" by code_simp
  moreover have "window_seconds ((sample_limit client)\<lparr>rl_limit := 116\<rparr>) = 60"
    by (rule whole_window_seconds) (simp add: whole_window_def sample_limit_def)
  ultimately show "decide False ((sample_limit client)\<lparr>rl_limit := 116\<rparr>) 74 [AInt 1, AString ''150''] =
      Inr (matched ''rl'' ''block'' ''quota'')"
    by (simp add: decide_pair sample_limit_def)
qed

text \<open>A positive duration below one second has no whole seconds.\<close>

lemma Seconds_below_one:
  assumes "0 < d" "d < 1000000000"
  shows "0 \<le> Seconds d" and "Seconds d < 1"
proof -
  let ?x = "of_int d / of_int 1000000000 :: rat" and ?top = "of_int (2 ^ 53 - 1) / 2 ^ 53 :: rat"
  have top: "float64 ?top = ?top" by code_simp
  have ints: "f_of_int d = of_int d" "f_of_int 1000000000 = of_int 1000000000"
    using assms by (simp_all add: f_of_int_exact)
  have x: "0 \<le> ?x" "?x \<le> ?top" using assms by (simp_all add: field_simps)
  let ?y = "float64 ?x"
  have y: "0 \<le> ?y" "?y \<le> ?top"
    using float64_nonneg [OF x(1)] float64_mono [OF x(2)] unfolding top by blast+
  have "Seconds d = float64 ?y"
    using assms ints by (simp add: Seconds_def f_add_def f_div_def f_of_int_def [of 0])
  with float64_nonneg [OF y(1)] float64_mono [OF y(2)] show "0 \<le> Seconds d" "Seconds d < 1"
    unfolding top by simp_all
qed

text \<open>
  A window below one second passes validation and never limits anything. The constructor
  accepts it, yet every evaluation that applies fails with the same error, before any call to
  Redis, so the engine goes on without the rule.
\<close>

theorem rate_limit_short_window:
  assumes "valid_limit_config cfg" and "lc_Window cfg < 1000000000" and "lc_Now cfg = None"
  shows "\<exists>r. NewRateLimitRule cfg (Some client) = Inr r \<and>
    (\<forall>c state byID w. applies r state \<longrightarrow>
       (\<exists>w'. invoke (rate_limit_rule fma r) c state byID w =
           (Inl (Errorf ''rate limit window is below one second''), w') \<and> ext w' = ext w))"
proof -
  from NewRateLimitRule_valid [OF assms(1)] obtain r where r: "NewRateLimitRule cfg (Some client) = Inr r" ..
  have "0 < rl_window r" "rl_window r < 1000000000"
    using NewRateLimitRule_Inr(6) [OF r] assms(1,2) by (simp_all add: valid_limit_config_def)
  from Seconds_below_one [OF this] have "window_seconds r = 0"
    by (simp add: window_seconds_def f_to_int_def floor_eq_iff)
  moreover have "rl_now r = time_now" using NewRateLimitRule_Inr(9) [OF r] assms(3) by simp
  ultimately have "\<exists>w'. invoke (rate_limit_rule fma r) c state byID w =
      (Inl (Errorf ''rate limit window is below one second''), w') \<and> ext w' = ext w"
    if "applies r state" for c state byID w
    using that by (auto simp: invoke_def rate_limit_rule_def RateLimitRule_Evaluate_def applies_def Let_def time_now_def)
  with r show ?thesis by blast
qed

theorem rate_limit_short_window_witness:
  "\<exists>r. NewRateLimitRule (sample_limit_config\<lparr>lc_Window := 500000000\<rparr>) (Some mem_client) = Inr r \<and>
     fst (invoke (rate_limit_rule False r) background limit_state Map.empty (start_world mem_empty)) =
       Inl (Errorf ''rate limit window is below one second'')"
proof -
  let ?cfg = "sample_limit_config\<lparr>lc_Window := 500000000\<rparr> :: memory RateLimitRuleConfig"
  have "TrimSpace ''rl'' \<noteq> []" by code_simp
  then have "valid_limit_config ?cfg"
    by (simp add: valid_limit_config_def sample_limit_config_def default_scope_def valid_action_def
        known_verdict_def VerdictBlock_def)
  then obtain r where r: "NewRateLimitRule ?cfg (Some mem_client) = Inr r"
    and err: "\<And>c state byID w. applies r state \<Longrightarrow> \<exists>w'. invoke (rate_limit_rule False r) c state byID w =
      (Inl (Errorf ''rate limit window is below one second''), w') \<and> ext w' = ext w"
    using rate_limit_short_window [of ?cfg mem_client False] by (auto simp: sample_limit_config_def)
  have "applies r limit_state"
    using NewRateLimitRule_Inr(5) [OF r]
    by (simp add: applies_def limit_state_def sample_limit_config_def sample_request_def)
  from err [OF this, of background Map.empty "start_world mem_empty"] r show ?thesis by force
qed

text \<open>
  C28. The counters belong to the key format, not to the rule: two rate limits with the same scope,
  action and window read and increment the same counters, whatever their ids and limits are. Run
  on the same request from the same world they leave the same world behind, so together they count
  each request twice.
\<close>

theorem rate_limit_shared_counters:
  assumes "NewRateLimitRule cfg client = Inr r" and "NewRateLimitRule cfg' client = Inr r'"
    and "default_scope (lc_Scope cfg) = default_scope (lc_Scope cfg')" and "lc_Action cfg = lc_Action cfg'"
    and "lc_Window cfg = lc_Window cfg'" and "lc_Now cfg = lc_Now cfg'"
  shows "snd (invoke (rate_limit_rule fma r) c state byID w) = snd (invoke (rate_limit_rule fma r') c state byID w)"
proof -
  note r = NewRateLimitRule_Inr [OF assms(1)] and r' = NewRateLimitRule_Inr [OF assms(2)]
  from assms r r' have fields: "rl_scope r = rl_scope r'" "rl_action r = rl_action r'" "rl_window r = rl_window r'"
    "rl_now r = rl_now r'" "rl_redis r = rl_redis r'"
    by simp_all
  then have pre: "keyPrefix r = keyPrefix r'" by (simp add: keyPrefix_def fun_eq_iff)
  have secs: "window_seconds r = window_seconds r'" "ttl_seconds r = ttl_seconds r'"
    using fields by (simp_all add: window_seconds_def ttl_seconds_def)
  show ?thesis
    by (simp add: invoke_def rate_limit_rule_def RateLimitRule_Evaluate_def Let_def fields pre secs
        split: prod.split sum.split)
qed

text \<open>Two rules that differ in id and limit, on one request each: the second counts the first's request.\<close>

theorem rate_limit_shared_counters_witness:
  "fst (run_rule (rate_limit_rule False ((sample_limit mem_client)\<lparr>rl_id := ''other'', rl_limit := 1\<rparr>)) background
     [limit_state] (snd (invoke (rate_limit_rule False (sample_limit mem_client)) background limit_state
        Map.empty (start_world mem_empty)))) = [Inr (matched ''other'' ''block'' ''quota'')]"
proof -
  let ?r' = "(sample_limit mem_client)\<lparr>rl_id := ''other'', rl_limit := 1\<rparr>"
  have "TrimSpace ''other'' \<noteq> []" by code_simp
  then have "NewRateLimitRule (sample_limit_config\<lparr>lc_ID := ''other'', lc_Limit := 1\<rparr>) (Some mem_client) = Inr ?r'"
    by (simp add: NewRateLimitRule_def sample_limit_config_def sample_limit_def validate_def
        VerdictBlock_def VerdictAllow_def VerdictFlag_def)
  from rate_limit_shared_counters [OF sample_limit_built this, of False background limit_state Map.empty "start_world mem_empty"]
  have "snd (invoke (rate_limit_rule False (sample_limit mem_client)) background limit_state Map.empty
      (start_world mem_empty)) =
    snd (invoke (rate_limit_rule False ?r') background limit_state Map.empty (start_world mem_empty))"
    by (simp add: sample_limit_config_def)
  moreover have "fst (run_rule (rate_limit_rule False ?r') background [limit_state]
      (snd (invoke (rate_limit_rule False ?r') background limit_state Map.empty (start_world mem_empty)))) =
    [Inr (matched ''other'' ''block'' ''quota'')]"
    by code_simp
  ultimately show ?thesis by simp
qed

text \<open>
  C29. The keys separate what they should, with one exception. Different buckets of one prefix never
  share a key. With scope \<open>actor\<close> two requests share a prefix only if they come from the same actor.
  With scope \<open>actor+action\<close> that needs actor ids without a colon: the second part gives the prefix
  of two different actors.
\<close>

theorem rate_limit_keys:
  "(rl_scope r = ''actor'' \<longrightarrow>
     (bucket_key (keyPrefix r req) b = bucket_key (keyPrefix r req') b' \<longleftrightarrow>
        dr_ActorID req = dr_ActorID req' \<and> b = b')) \<and>
   (rl_scope r = ''actor+action'' \<longrightarrow> CHR '':'' \<notin> set (dr_ActorID req) \<longrightarrow> CHR '':'' \<notin> set (dr_ActorID req') \<longrightarrow>
     (bucket_key (keyPrefix r req) b = bucket_key (keyPrefix r req') b' \<longleftrightarrow>
        dr_ActorID req = dr_ActorID req' \<and> ac_Type (dr_Action req) = ac_Type (dr_Action req') \<and> b = b')) \<and>
   (rl_scope r = ''actor+action'' \<longrightarrow> dr_ActorID req = ''a:b'' \<longrightarrow> ac_Type (dr_Action req) = ''c'' \<longrightarrow>
      dr_ActorID req' = ''a'' \<longrightarrow> ac_Type (dr_Action req') = ''b:c'' \<longrightarrow>
      keyPrefix r req = keyPrefix r req')"
proof -
  have "xs @ CHR '':'' # zs = xs' @ CHR '':'' # zs' \<longleftrightarrow> xs = xs' \<and> zs = zs'"
    if "CHR '':'' \<notin> set xs" "CHR '':'' \<notin> set xs'" for xs xs' zs zs'
  proof
    assume "xs @ CHR '':'' # zs = xs' @ CHR '':'' # zs'"
    then have "rev (xs @ CHR '':'' # zs) = rev (xs' @ CHR '':'' # zs')" by (rule arg_cong)
    then have "rev zs @ CHR '':'' # rev xs = rev zs' @ CHR '':'' # rev xs'" by simp
    then show "xs = xs' \<and> zs = zs'"
      using split_last_unique [of "CHR '':''" "rev xs" "rev xs'" "rev zs" "rev zs'"] that by simp
  qed simp
  then show ?thesis by (auto simp: keyPrefix_def)
qed

theorem rate_limit_keys_witness:
  "bucket_key (keyPrefix (sample_limit mem_client) sample_request) 7 \<noteq>
     bucket_key (keyPrefix (sample_limit mem_client) (sample_request\<lparr>dr_ActorID := ''a2''\<rparr>)) 7"
  using rate_limit_keys [of "sample_limit mem_client" sample_request 7 "sample_request\<lparr>dr_ActorID := ''a2''\<rparr>" 7]
  by (simp add: sample_limit_def sample_request_def)

end
