(* ===== verification/Spec2Isabelle.thy ===== *)
theory Spec2Isabelle
  imports Interference Process Rate_Window
begin

text \<open>
  A verification development for the policy decision service, a Go program that answers requests
  (an actor wants to do something) with a verdict \<open>allow\<close>, \<open>flag\<close> or \<open>block\<close>.

  \<^bold>\<open>The program.\<close> A request comes in over HTTP or gRPC (\<open>internal/api\<close>). The handler checks it and calls the
  current engine, which \<open>cmd/server/main.go\<close> keeps in a holder that a reload replaces. The engine
  (\<open>internal/engine\<close>) looks up the actor's features (\<open>internal/profile\<close>), evaluates the rules of the loaded
  file (\<open>internal/rules\<close>: keyword, rate limit, CEL and combiner rules, put in order by the loader), combines
  their results by precedence and hands an audit record to the decision sinks: the audit writer
  (\<open>internal/store\<close>) and the Kafka sink (\<open>internal/sink\<close>), each a bounded queue with a goroutine.
  Settings come from the environment (\<open>internal/config\<close>), counters are Prometheus collectors
  (\<open>internal/telemetry\<close>).

  \<^bold>\<open>Conventions\<close> (\<open>Prelude\<close>, \<open>Types\<close>). Structs are records, field for field; strings are byte sequences; a
  value-and-error result is a sum with the error on the left; a pointer or nil map is an option.
  Effects pass a \<open>world\<close> along: readings of the clock, fresh identifiers, observations of contexts, the
  collectors, and one component \<open>ext\<close> for the systems outside. A context is the sequence of what its
  observations find. Code that is not part of the repository is a parameter with its documented
  laws as hypotheses: Redis (\<open>Cmdable\<close>), Postgres (\<open>Exec\<close>, \<open>pool\<close>), Kafka (\<open>Publisher\<close>), the CEL library (\<open>cel\<close>),
  YAML, SHA-256 and the file system (\<open>platform\<close>), the HTTP client (\<open>net\<close>), JSON (\<open>codec\<close>, \<open>json_codec\<close>,
  \<open>api_codec\<close>), protobuf's \<open>Struct\<close> (\<open>structpb\<close>).

  \<^bold>\<open>Standard library.\<close> \<open>Go_Strings\<close> (\<open>TrimSpace\<close>, \<open>ToLower\<close>, UTF-8, \<open>Split\<close>, decimal numbers), \<open>Go_Path_Time\<close>
  (\<open>filepath\<close>, \<open>ParseDuration\<close>, hexadecimal), \<open>Go_Float\<close> (binary64 rounding with its error bounds).

  \<^bold>\<open>Components.\<close>

  \<^item> \<open>Combine\<close> and \<open>Engine\<close>: \<open>combine.go\<close> and \<open>engine.go\<close>. \<open>Evaluate\<close> is split into feature lookup, rule loop and
    response. The lemmas show the precedence of verdicts, failing open, that a sink gets exactly one record and
    nothing else changes, and that a degraded feature lookup is the only source of warnings. The contract of a rule is \<open>rule_contract\<close>; the locale \<open>rule_constructor\<close> is the interface
    to constructors and the locale \<open>rule_set\<close> what the loop makes of contracted rules.

  \<^item> \<open>Aho_Matcher\<close>, \<open>Keyword_Rule\<close>: the Aho-Corasick automaton as the code builds it (nodes in an array, a
    breadth-first queue, map iteration in any order) finds exactly the keywords; the rule on top of it.

  \<^item> \<open>Combiner_Rule\<close>, \<open>CEL_Rule\<close>, \<open>Rule_Action\<close>: the combiner over earlier results and the CEL rule; the
    lemmas on \<open>select\<close> say what a program finds under each path of its activation.

  \<^item> \<open>Rate_Limit\<close>, \<open>Rate_Window\<close>: the Lua script, the keys and the floating-point estimate; \<open>limiter_trace\<close>
    are the executions of a rule's script in the order of the server, for concurrent requests of any number of
    processes. Under the laws of Redis the rule refines a sliding-window counter over these executions, as long
    as no script runs a second later than an earlier one; the expiry of the keys is not enough beyond that.
    Redis' time is in milliseconds; counts stay below \<open>2 ^ 53\<close>, where floats are exact.

  \<^item> \<open>Rule_Order\<close>, \<open>Loader\<close>: the depth-first ordering of rules (it always ends, with an order or a real
    cycle) and the checks and construction of \<open>LoadBytes\<close>; each rule type interprets \<open>rule_constructor\<close>, and
    a loaded file interprets \<open>rule_set\<close>.

  \<^item> \<open>Decision_Sink\<close>, \<open>Kafka_Sink\<close>, \<open>Audit_Writer\<close>: the locale \<open>bounded_sink\<close> is the contract of an offer; both
    sinks interpret it. Each goroutine is a step function, and \<open>kafka_reachable\<close> and \<open>audit_reachable\<close> are the
    states that offers and goroutine reach in any interleaving. The invariants show that accepted
    records are neither lost, doubled nor reordered; for the writer also what the table holds.

  \<^item> \<open>Feature_Provider\<close>: the providers; the locale \<open>feature_provider\<close> is what the engine relies on.

  \<^item> \<open>API\<close>: the handlers, routes and conversions; HTTP and gRPC answer alike.

  \<^item> \<open>Config\<close>, \<open>Stores\<close>, \<open>Server\<close>: the settings, the wrappers of the clients, and \<open>main\<close>: starting with its
    fatal errors, reload, readiness, the step relation \<open>serving\<close> over requests and reloads, and the order
    of shutting down.

  \<^item> \<open>Interference\<close>: \<open>Evaluate\<close> with anything that the relation \<open>others\<close> allows between any two of its effects. Without
    interference it is the function of \<open>Engine\<close>; with any interference a decision is still explained by
    one loaded snapshot, and if counters only grow, none of its counts is lost.

  \<^item> \<open>Shutdown\<close>, \<open>Process\<close>: the goroutines of \<open>main\<close>. \<open>control\<close> is what they share, with one step function for each
    (\<open>hup_step\<close>, \<open>closer_step\<close>, \<open>main_step\<close>) and \<open>control_event\<close> for signals, clients and the accept loops; a measure
    shows that shutting down ends. \<open>process\<close> adds the goroutines of both sinks in one world, and every
    step of one sink is proved to be a step of the rest of the program for the other, so the invariants of
    \<open>Audit_Writer\<close> and \<open>Kafka_Sink\<close> hold in it. On exit every accepted decision is stored, tried or
    counted as failed, and an orderly shutdown refuses none.

  This theory holds the properties that span engine and loader: every decision of a loaded file is
  explained by its reasons and counters, which combiners fail on every decision, and what an answer over
  HTTP of the running server says.

  \<^bold>\<open>Bounds and loops.\<close> Loops without a structural argument (the failure links of the automaton, the
  breadth-first queue, the visit of the ordering) are partial functions or carry a measure, and the
  value \<open>NoReturn\<close> or \<open>None\<close> that marks an endless loop or an index out of range is proved
  impossible. Numbers from JSON are rationals; 64-bit integers are integers with the range checked
  where the code parses them; the estimate of the rate limit is rounded to binary64 step by step.

  \<^bold>\<open>Atomicity.\<close> An offer to a sink runs under the sink's mutex and is one step; so are the increment of a
  counter and the evaluation of one rule, whose only access to shared state is a single script run in
  Redis. In \<open>serving\<close> a whole handler is one step; \<open>Interference\<close> shows that this loses nothing: a request loads
  the engine once, and whatever happens between its effects changes neither which rules it lists nor
  how its decision is explained. In \<open>process\<close> a request is what is in flight at a server, its offers to the
  two sinks are separate steps, and the goroutines of the sinks, of the shutdown and of \<open>main\<close> take
  steps in any order.

  \<^bold>\<open>Behaviour of other packages.\<close> The steps of \<open>Shutdown\<close> rest on what \<open>net/http\<close>, \<open>grpc\<close> and \<open>sync\<close> document:
  \<open>Shutdown\<close> returns nil only when no connection is active, \<open>GracefulStop\<close> returns when no RPC is pending or
  \<open>Stop\<close> was called, neither \<open>Close\<close> nor \<open>Stop\<close> waits for handlers, and \<open>Wait\<close> returns when every sink has
  ended. The predicate \<open>sinks_apart\<close> collects what is assumed of the database and Kafka clients there.

  \<^bold>\<open>Not modelled.\<close> Log output, the delivery of signals by the operating system and the bytes on the wire
  (\<open>main.go\<close>), the construction of the logger (\<open>logging.go\<close>), registration and exposition of the
  collectors, and the generated protobuf code beyond the fields of its messages: output or code of
  other packages, without decisions of its own.
\<close>

section \<open>Results with distinct ids\<close>

lemma filter_distinct_ids:
  assumes "distinct (map f xs)" and "x \<in> set xs"
  shows "filter (\<lambda>y. f y = f x) xs = [x]"
  using assms
proof (induction xs)
  case Nil
  then show ?case by simp
next
  case (Cons y xs)
  show ?case
  proof (cases "x = y")
    case True
    with Cons.prems have "filter (\<lambda>z. f z = f x) xs = []"
      by (auto simp: filter_empty_conv) (metis image_eqI)
    with True show ?thesis by simp
  next
    case False
    with Cons.prems have "x \<in> set xs" "f y \<noteq> f x" by auto
    with Cons show ?thesis by simp
  qed
qed

lemma count_distinct_ids:
  assumes "distinct (map f xs)"
  shows "length (filter (\<lambda>x. f x = i \<and> P x) xs) = (if \<exists>x \<in> set xs. f x = i \<and> P x then 1 else 0)"
proof (cases "\<exists>x \<in> set xs. f x = i \<and> P x")
  case True
  then obtain x where x: "x \<in> set xs" "f x = i" "P x" by blast
  have "filter (\<lambda>y. f y = i \<and> P y) xs = filter P (filter (\<lambda>y. f y = f x) xs)"
    using x(2) by (simp add: conj_commute)
  also have "\<dots> = [x]" using filter_distinct_ids [OF assms x(1)] x(3) by simp
  finally show ?thesis using True by simp
next
  case False
  then have "filter (\<lambda>x. f x = i \<and> P x) xs = []" by (auto simp: filter_empty_conv)
  with False show ?thesis by simp
qed

text \<open>The results of an engine with loaded rules.\<close>

lemma loaded_results:
  assumes "loads pf data opts f ordered snap" and "lawful_options opts" and "re_rules e = sn_Rules snap"
    and "collaborators_frame e" and "RuleEngine_Evaluate e c req w = (Inr response, w')"
  shows "\<exists>rs state. map rr_RuleID rs = map rule_ID (sn_Rules snap) \<and> distinct (map rr_RuleID rs) \<and>
    (\<forall>r \<in> set rs. rr_Matched r \<longrightarrow> well_formed (rr_RuleID r) r) \<and>
    evaluated_in_order c state (sn_Rules snap) Map.empty rs \<and>
    dp_Verdict response = dp_Verdict (Combine rs) \<and>
    dp_Reasons response = map rr_Reason (filter rr_Matched rs) \<and>
    dp_EvaluatedRules response = map rule_ID (sn_Rules snap) \<and>
    (\<forall>i m. RuleEvaluationsTotal (tel w') (i, m) = RuleEvaluationsTotal (tel w) (i, m) + evaluations i m rs) \<and>
    (\<forall>i. RuleEvalErrorsTotal (tel w') i = RuleEvalErrorsTotal (tel w) i + eval_errors i rs)"
proof -
  have "LoadBytes pf data opts = Inr snap" using assms(1) unfolding LoadBytes_Inr by blast
  then have L: "loaded_rules pf data opts = sn_Rules snap" by (simp add: loaded_rules_def assms(2))
  have "re_rules e = loaded_rules pf data opts" by (simp add: L assms(3))
  note loaded.decision [OF this assms(4,5), unfolded L]
  then
  obtain rs state where rs: "map rr_RuleID rs = map rule_ID (sn_Rules snap)"
    "\<forall>r \<in> set rs. rr_Matched r \<longrightarrow> well_formed (rr_RuleID r) r"
    "evaluated_in_order c state (sn_Rules snap) Map.empty rs"
    "dp_Verdict response = dp_Verdict (Combine rs)" "dp_Reasons response = dp_Reasons (Combine rs)"
    "dp_EvaluatedRules response = map rule_ID (sn_Rules snap)"
    "\<forall>i m. RuleEvaluationsTotal (tel w') (i, m) = RuleEvaluationsTotal (tel w) (i, m) + evaluations i m rs"
    "\<forall>i. RuleEvalErrorsTotal (tel w') i = RuleEvalErrorsTotal (tel w) i + eval_errors i rs"
    by (elim exE conjE) (rule that)
  have "distinct (map rr_RuleID rs)" unfolding rs(1) by (rule loads_distinct [OF assms(1)])
  moreover from explained_results(1) [OF this rs(2)] have "dp_Reasons response = map rr_Reason (filter rr_Matched rs)"
    by (simp add: rs(5))
  ultimately show ?thesis using rs by (intro exI conjI)
qed

section \<open>Properties of the loaded engine\<close>

text \<open>What a decision of loaded rules says and counts.\<close>

lemma loaded_decision:
  assumes "LoadBytes pf data opts = Inr snap" and "lawful_options opts" and "re_rules e = sn_Rules snap"
    and "collaborators_frame e" and "RuleEngine_Evaluate e c req w = (Inr response, w')"
  shows "dp_EvaluatedRules response = map rule_ID (sn_Rules snap) \<and>
    rs_Rule ` set (dp_Reasons response) \<subseteq> set (dp_EvaluatedRules response) \<and>
    distinct (map rs_Rule (dp_Reasons response)) \<and>
    (\<forall>reason \<in> set (dp_Reasons response). rs_Code reason \<noteq> []) \<and>
    (dp_Verdict response \<noteq> VerdictAllow \<longrightarrow> dp_Reasons response \<noteq> []) \<and>
    (\<forall>i. RuleEvaluationsTotal (tel w') (i, True) = RuleEvaluationsTotal (tel w) (i, True) +
       (if i \<in> rs_Rule ` set (dp_Reasons response) then 1 else 0)) \<and>
    (\<forall>i. RuleEvaluationsTotal (tel w') (i, False) = RuleEvaluationsTotal (tel w) (i, False) +
       (if i \<in> set (dp_EvaluatedRules response) - rs_Rule ` set (dp_Reasons response) then 1 else 0))"
proof -
  from assms(1) obtain f ordered where l: "loads pf data opts f ordered snap" unfolding LoadBytes_Inr by blast
  from loaded_results [OF l assms(2-5)] obtain rs state where ids: "map rr_RuleID rs = map rule_ID (sn_Rules snap)"
    and d: "distinct (map rr_RuleID rs)"
    and wf: "\<forall>r \<in> set rs. rr_Matched r \<longrightarrow> well_formed (rr_RuleID r) r"
    and v: "dp_Verdict response = dp_Verdict (Combine rs)"
    and reasons: "dp_Reasons response = map rr_Reason (filter rr_Matched rs)"
    and evaluated: "dp_EvaluatedRules response = map rule_ID (sn_Rules snap)"
    and count: "\<forall>i m. RuleEvaluationsTotal (tel w') (i, m) = RuleEvaluationsTotal (tel w) (i, m) + evaluations i m rs"
    by (elim exE conjE)
  note explained = explained_results [OF d wf]
  have combined: "dp_Reasons response = dp_Reasons (Combine rs)" by (simp add: reasons explained(1))
  note named = explained(2) [folded combined]
  have all: "set (dp_EvaluatedRules response) = rr_RuleID ` set rs" using ids evaluated by (metis list.set_map)
  have uniq: "r = r'" if "r \<in> set rs" "r' \<in> set rs" "rr_RuleID r = rr_RuleID r'" for r r'
    using d that by (meson distinct_map inj_onD)
  have "dp_Verdict response \<noteq> VerdictAllow \<longrightarrow> dp_Reasons response \<noteq> []" using explained(5) by (simp add: v combined)
  moreover have "evaluations i True rs = (if i \<in> rs_Rule ` set (dp_Reasons response) then 1 else 0)" for i
    unfolding named evaluations_def count_distinct_ids [OF d] by auto
  moreover have "evaluations i False rs =
      (if i \<in> set (dp_EvaluatedRules response) - rs_Rule ` set (dp_Reasons response) then 1 else 0)" for i
    unfolding named all evaluations_def count_distinct_ids [OF d] using uniq by (auto split: if_splits)
  moreover have "\<forall>reason \<in> set (dp_Reasons response). rs_Code reason \<noteq> []"
    "distinct (map rs_Rule (dp_Reasons response))"
    unfolding combined by (rule explained(4), rule explained(3))
  moreover have "rs_Rule ` set (dp_Reasons response) \<subseteq> set (dp_EvaluatedRules response)"
    unfolding named all by auto
  ultimately show ?thesis using evaluated count by simp
qed

text \<open>
  C13. Every decision of an engine with a loaded snapshot is explained. It lists all enabled rules of the
  file, in evaluation order. Its reasons name different rules of that list, each with a code, and a
  verdict other than allow has at least one. A rule's evaluation counter grows by one, with label
  true exactly when the rule is named in a reason, and counters of other rules do not move.
\<close>

theorem loaded_decision_explained:
  assumes "LoadBytes pf data opts = Inr snap" and "lawful_options opts" and "re_rules e = sn_Rules snap"
    and "collaborators_frame e" and "RuleEngine_Evaluate e c req w = (Inr response, w')"
  shows "dp_EvaluatedRules response = map rule_ID (sn_Rules snap) \<and>
    rs_Rule ` set (dp_Reasons response) \<subseteq> set (dp_EvaluatedRules response) \<and>
    distinct (map rs_Rule (dp_Reasons response)) \<and>
    (\<forall>reason \<in> set (dp_Reasons response). rs_Code reason \<noteq> []) \<and>
    (dp_Verdict response \<noteq> VerdictAllow \<longrightarrow> dp_Reasons response \<noteq> []) \<and>
    (\<forall>i. RuleEvaluationsTotal (tel w') (i, True) = RuleEvaluationsTotal (tel w) (i, True) +
       (if i \<in> rs_Rule ` set (dp_Reasons response) then 1 else 0)) \<and>
    (\<forall>i. RuleEvaluationsTotal (tel w') (i, False) = RuleEvaluationsTotal (tel w) (i, False) +
       (if i \<in> set (dp_EvaluatedRules response) - rs_Rule ` set (dp_Reasons response) then 1 else 0))"
  using assms by (rule loaded_decision)

text \<open>The engine of the sample file, without features and audit sink.\<close>

lemma sample_decision:
  assumes "loads (sample_platform sample_file) [] no_options sample_file ordered snap"
  shows "LoadBytes (sample_platform sample_file) [] no_options = Inr snap" and "lawful_options no_options"
    and "re_rules (NewRuleEngine (sn_Version snap) (sn_Rules snap)) = sn_Rules snap"
    and "collaborators_frame (NewRuleEngine (sn_Version snap) (sn_Rules snap))"
    and "\<exists>response w'. RuleEngine_Evaluate (NewRuleEngine (sn_Version snap) (sn_Rules snap)) background
      sample_request (start_world r) = (Inr response, w')"
proof -
  show "LoadBytes (sample_platform sample_file) [] no_options = Inr snap"
    using assms unfolding LoadBytes_Inr by blast
  show "\<exists>response w'. RuleEngine_Evaluate (NewRuleEngine (sn_Version snap) (sn_Rules snap)) background
      sample_request (start_world r) = (Inr response, w')"
    by (rule RuleEngine_Evaluate_live) simp
qed (simp_all add: lawful_options_def no_options_def NewRuleEngine_def collaborators_frame_def)

theorem loaded_decision_explained_witness:
  "\<exists>snap response w'. LoadBytes (sample_platform sample_file) [] no_options = Inr snap \<and>
     RuleEngine_Evaluate (NewRuleEngine (sn_Version snap) (sn_Rules snap)) background sample_request
       (start_world ()) = (Inr response, w') \<and>
     set (dp_EvaluatedRules response) = {''a'', ''c'', ''d''}"
proof -
  from sample_loads obtain ordered and snap :: "unit Snapshot"
    where l: "loads (sample_platform sample_file) [] no_options sample_file ordered snap" by blast
  note s = sample_decision [OF l]
  from s(5) [of "()"] obtain response w' where e: "RuleEngine_Evaluate (NewRuleEngine (sn_Version snap) (sn_Rules snap))
      background sample_request (start_world ()) = (Inr response, w')" by (elim exE)
  from loads_order(1) [OF l] have "set ordered = set (rf_Rules sample_file)" by (rule mset_eq_setD)
  then have "set (map rw_ID (enabled_rules ordered)) = set (map rw_ID (enabled_rules (rf_Rules sample_file)))"
    by (simp add: enabled_rules_def)
  also have "\<dots> = {''a'', ''c'', ''d''}" by code_simp
  finally have "set (map rule_ID (sn_Rules snap)) = {''a'', ''c'', ''d''}" by (simp only: loads_ids [OF l])
  then have "set (dp_EvaluatedRules response) = {''a'', ''c'', ''d''}"
    unfolding loaded_decision_explained [OF s(1-4) e, THEN conjunct1] .
  with s(1) e show ?thesis by (intro exI conjI)
qed

text \<open>A combiner in the middle of a load, and what it sees of the rules before it.\<close>

lemma list_all2_split:
  assumes "list_all2 P (xs @ x # zs) ys"
  shows "\<exists>as b cs. ys = as @ b # cs \<and> list_all2 P xs as \<and> P x b \<and> list_all2 P zs cs"
  using assms by (force simp: list_all2_append1 list_all2_Cons1)

lemma combiner_result_error:
  assumes "eval_one c state byID (combiner_rule r) w = (res, w')" and "\<forall>n. c n = None"
  shows "rr_Err res \<noteq> None \<longleftrightarrow> \<not> set (cr_of r) \<subseteq> dom byID"
    and "rr_Err res \<noteq> None \<Longrightarrow> \<not> rr_Matched res"
proof -
  have inv: "invoke (combiner_rule r) c state byID w = EvaluateWithResults r c state (Some byID) w"
    by (simp add: invoke_def combiner_rule_def)
  have "rr_Err res \<noteq> None \<longleftrightarrow> \<not> set (cr_of r) \<subseteq> dom byID \<and> (rr_Err res \<noteq> None \<longrightarrow> \<not> rr_Matched res)"
  proof (cases "set (cr_of r) \<subseteq> dom byID")
    case True
    then show ?thesis
      using assms EvaluateWithResults_available [OF True, of c w state]
      by (auto simp: eval_one_def inv combiner_result_def Let_def)
  next
    case False
    have "fst (EvaluateWithResults r c state (Some byID) w) =
        Inl (Errorf ''combiner dependency has not been evaluated'')"
      using combine_deps_missing [OF False, of "cr_id r" 0 "[]" "snd (poll c w)"] assms(2)
      by (auto simp: EvaluateWithResults_def with_live_def poll_def split: prod.splits sum.splits)
    with assms(1) False show ?thesis by (auto simp: eval_one_def inv failed_def split: prod.splits)
  qed
  then show "rr_Err res \<noteq> None \<longleftrightarrow> \<not> set (cr_of r) \<subseteq> dom byID"
    and "rr_Err res \<noteq> None \<Longrightarrow> \<not> rr_Matched res" by blast+
qed

definition refers_to_disabled :: "ruleFile \<Rightarrow> rawRule \<Rightarrow> bool" where
  "refers_to_disabled f raw \<longleftrightarrow>
     (\<exists>dep \<in> set (rf_Rules f). rw_ID dep \<in> set (deps raw) \<and> \<not> ruleEnabled (rw_Enabled dep))"

lemma loaded_combiner_result:
  assumes l: "loads pf data opts f ordered snap" and order: "evaluated_in_order c state (sn_Rules snap) Map.empty rs"
    and live: "\<forall>n. c n = None"
    and raw: "raw \<in> set (rf_Rules f)" "rw_Type raw = ''combiner''" "ruleEnabled (rw_Enabled raw)"
    and ids: "map rr_RuleID rs = map rule_ID (sn_Rules snap)"
  shows "\<exists>r \<in> set rs. rr_RuleID r = rw_ID raw \<and> (rr_Err r \<noteq> None \<longleftrightarrow> refers_to_disabled f raw) \<and>
    (rr_Err r \<noteq> None \<longrightarrow> \<not> rr_Matched r)"
proof -
  have same: "set ordered = set (rf_Rules f)" using loads_order(1) [OF l] by (rule mset_eq_setD)
  with raw(1) have "raw \<in> set ordered" by simp
  then obtain pre post where split: "ordered = pre @ raw # post" by (meson split_list)
  have all: "list_all2 (\<lambda>raw rule. buildRule pf opts raw = Inr rule) (enabled_rules pre @ raw # enabled_rules post) (sn_Rules snap)"
    using l raw(3) by (simp add: loads_def split enabled_rules_Cons)
  from list_all2_split [OF all] obtain before rule after where rules: "sn_Rules snap = before @ rule # after"
    and before: "list_all2 (\<lambda>raw rule. buildRule pf opts raw = Inr rule) (enabled_rules pre) before"
    and rule: "buildRule pf opts raw = Inr rule" by blast
  let ?r = "\<lparr>cr_id = rw_ID raw, cr_op = rw_Op raw, cr_of = rw_Of raw, cr_onMatch = rw_OnMatch raw\<rparr>"
  have comb: "rule = combiner_rule ?r" by (rule buildRule_combiner [OF rule raw(2)])
  from evaluated_in_order_middle [OF order [unfolded rules]] obtain pre_rs r post_rs byID w w'
    where rs: "rs = pre_rs @ r # post_rs" and len: "length pre_rs = length before"
    and one: "eval_one c state byID rule w = (r, w')" and seen: "dom byID = rule_ID ` set before"
    unfolding dom_empty Un_empty_left by (elim exE conjE) (rule that)
  have "map rr_RuleID rs ! length before = rw_ID raw"
    using ids rules buildRule_ID [OF rule] by (simp add: nth_append)
  then have id: "rr_RuleID r = rw_ID raw" using rs len by (simp add: nth_append)
  have "rule_ID ` set before = rw_ID ` set (enabled_rules pre)"
    using list_all2_ids [OF before] by (metis list.set_map)
  then have dom: "dom byID = rw_ID ` set (enabled_rules pre)" using seen by simp
  have needs: "set (deps raw) \<subseteq> rw_ID ` set pre"
    using loads_order(2) [OF l] split by (simp add: deps_before_def)
  have uniq: "x = y" if "x \<in> set ordered" "y \<in> set ordered" "rw_ID x = rw_ID y" for x y
    using loads_order(3) [OF l] that by (meson distinct_map inj_onD)
  have "set (rw_Of raw) \<subseteq> dom byID \<longleftrightarrow> \<not> refers_to_disabled f raw"
  proof
    assume sub: "set (rw_Of raw) \<subseteq> dom byID"
    show "\<not> refers_to_disabled f raw" unfolding refers_to_disabled_def
    proof (intro notI, elim bexE conjE)
      fix dep
      assume dep: "dep \<in> set (rf_Rules f)" "rw_ID dep \<in> set (deps raw)" "\<not> ruleEnabled (rw_Enabled dep)"
      then have "rw_ID dep \<in> rw_ID ` set (enabled_rules pre)" using sub raw(2) unfolding dom deps_def by auto
      then obtain x where x: "rw_ID dep = rw_ID x" "x \<in> set pre" "ruleEnabled (rw_Enabled x)" by auto
      have "dep \<in> set ordered" unfolding same by (rule dep(1))
      moreover have "x \<in> set ordered" using x(2) by (simp add: split)
      ultimately have "dep = x" using x(1) by (rule uniq)
      with dep(3) x(3) show False by simp
    qed
  next
    assume enabled: "\<not> refers_to_disabled f raw"
    show "set (rw_Of raw) \<subseteq> dom byID"
    proof
      fix ref
      assume ref: "ref \<in> set (rw_Of raw)"
      with needs raw(2) obtain x where x: "ref = rw_ID x" "x \<in> set pre" by (auto simp: deps_def)
      then have "x \<in> set (rf_Rules f)" unfolding same [symmetric] split by simp
      with enabled ref raw(2) x(1) have "ruleEnabled (rw_Enabled x)"
        unfolding refers_to_disabled_def deps_def by auto
      with x show "ref \<in> dom byID" unfolding dom by simp
    qed
  qed
  with combiner_result_error [OF one [unfolded comb] live] id rs show ?thesis
    by (intro bexI [of _ r]) simp_all
qed

text \<open>
  C31. A combiner works exactly when none of the rules it refers to is disabled. The loader accepts a
  reference to a disabled rule, but no result for it ever reaches the combiner: with a live context
  its error counter grows by one on every decision, and it never contributes a reason. If all the
  rules it refers to are enabled, it never fails.
\<close>

theorem loaded_combiner_dependencies:
  assumes "LoadBytes pf data opts = Inr snap" and "lawful_options opts" and "re_rules e = sn_Rules snap"
    and "collaborators_frame e" and "RuleEngine_Evaluate e c req w = (Inr response, w')"
    and "\<forall>n. c n = None" and "pf_Unmarshal pf data = Inr f"
    and "raw \<in> set (rf_Rules f)" and "rw_Type raw = ''combiner''" and "ruleEnabled (rw_Enabled raw)"
  shows "RuleEvalErrorsTotal (tel w') (rw_ID raw) = RuleEvalErrorsTotal (tel w) (rw_ID raw) +
      (if refers_to_disabled f raw then 1 else 0) \<and>
    (refers_to_disabled f raw \<longrightarrow> rw_ID raw \<notin> rs_Rule ` set (dp_Reasons response))"
proof -
  from assms(1) obtain f' ordered where "loads pf data opts f' ordered snap" unfolding LoadBytes_Inr by blast
  moreover from this assms(7) have "f' = f" by (simp add: loads_def)
  ultimately have l: "loads pf data opts f ordered snap" by simp
  from loaded_results [OF l assms(2-5)] obtain rs state where ids: "map rr_RuleID rs = map rule_ID (sn_Rules snap)"
    and d: "distinct (map rr_RuleID rs)"
    and wf: "\<forall>r \<in> set rs. rr_Matched r \<longrightarrow> well_formed (rr_RuleID r) r"
    and order: "evaluated_in_order c state (sn_Rules snap) Map.empty rs"
    and reasons: "dp_Reasons response = map rr_Reason (filter rr_Matched rs)"
    and count: "\<forall>i. RuleEvalErrorsTotal (tel w') i = RuleEvalErrorsTotal (tel w) i + eval_errors i rs"
    by (elim exE conjE)
  from loaded_combiner_result [OF l order assms(6,8-10) ids] obtain r where r: "r \<in> set rs"
    "rr_RuleID r = rw_ID raw" "rr_Err r \<noteq> None \<longleftrightarrow> refers_to_disabled f raw" "rr_Err r \<noteq> None \<longrightarrow> \<not> rr_Matched r"
    by blast
  have uniq: "r' = r" if "r' \<in> set rs" "rr_RuleID r' = rw_ID raw" for r'
    using d r(1,2) that unfolding distinct_map by (metis inj_onD)
  have "eval_errors (rw_ID raw) rs = (if refers_to_disabled f raw then 1 else 0)"
  proof -
    have "(\<exists>x \<in> set rs. rr_RuleID x = rw_ID raw \<and> rr_Err x \<noteq> None) \<longleftrightarrow> refers_to_disabled f raw"
      using uniq r(1-3) by metis
    then show ?thesis unfolding eval_errors_def count_distinct_ids [OF d] by presburger
  qed
  then have "RuleEvalErrorsTotal (tel w') (rw_ID raw) = RuleEvalErrorsTotal (tel w) (rw_ID raw) +
      (if refers_to_disabled f raw then 1 else 0)"
    unfolding count [rule_format, of "rw_ID raw"] by (rule arg_cong)
  moreover have "rw_ID raw \<notin> rs_Rule ` set (dp_Reasons response)" if "refers_to_disabled f raw"
  proof
    assume "rw_ID raw \<in> rs_Rule ` set (dp_Reasons response)"
    then obtain r' where r': "r' \<in> set rs" "rr_Matched r'" "rs_Rule (rr_Reason r') = rw_ID raw"
      by (auto simp: reasons)
    with wf have "rr_RuleID r' = rw_ID raw" by (auto simp: well_formed_def)
    with uniq r' r(3,4) that show False by blast
  qed
  ultimately show ?thesis by blast
qed

theorem loaded_combiner_dependencies_witness:
  "\<exists>snap response w'. LoadBytes (sample_platform sample_file) [] no_options = Inr snap \<and>
     RuleEngine_Evaluate (NewRuleEngine (sn_Version snap) (sn_Rules snap)) background sample_request
       (start_world ()) = (Inr response, w') \<and>
     RuleEvalErrorsTotal (tel w') ''d'' = 1 \<and> RuleEvalErrorsTotal (tel w') ''c'' = 0"
proof -
  from sample_loads obtain ordered and snap :: "unit Snapshot"
    where l: "loads (sample_platform sample_file) [] no_options sample_file ordered snap" by blast
  note s = sample_decision [OF l]
  from s(5) [of "()"] obtain response w' where e: "RuleEngine_Evaluate (NewRuleEngine (sn_Version snap) (sn_Rules snap))
      background sample_request (start_world ()) = (Inr response, w')" by (elim exE)
  have live: "\<forall>n. background n = None" by simp
  note t = loaded_combiner_dependencies [OF s(1-4) e live sample_parsed, THEN conjunct1]
  let ?c = "rf_Rules sample_file ! 0" and ?d = "rf_Rules sample_file ! 3"
  have c: "?c \<in> set (rf_Rules sample_file)" "rw_Type ?c = ''combiner''" "ruleEnabled (rw_Enabled ?c)"
      "rw_ID ?c = ''c''" "\<not> refers_to_disabled sample_file ?c"
    and d: "?d \<in> set (rf_Rules sample_file)" "rw_Type ?d = ''combiner''" "ruleEnabled (rw_Enabled ?d)"
      "rw_ID ?d = ''d''" "refers_to_disabled sample_file ?d"
    by code_simp+
  have zero: "RuleEvalErrorsTotal (tel (start_world ())) i = 0" for i
    by (simp add: start_world_def telemetry_init_def)
  have "RuleEvalErrorsTotal (tel w') ''d'' = 1" using t [OF d(1-3)] unfolding d(4) zero by (simp add: d(5))
  moreover have "RuleEvalErrorsTotal (tel w') ''c'' = 0" using t [OF c(1-3)] unfolding c(4) zero by (simp add: c(5))
  ultimately show ?thesis using s(1) e by (intro exI conjI)
qed

section \<open>The server\<close>

text \<open>
  What clients of the running server get is explained. Whatever requests and reloads came before, a
  decision in a 200 answer lists the enabled rules of one successful load in their order, its
  reasons name different rules of that list, each with a code, and a verdict other than
  allow has a reason.
\<close>

theorem served_decision_explained:
  fixes it :: "('env, 'ast, 'p) platform itself"
  assumes "serving os env ac st page it s (holder, w)" and "lawful_server s"
    and "HTTP_decide ac holder_Evaluate r (holder, w) = (writeJSON 200 (Decision response), app)"
  shows "\<exists>(pf0 :: ('env, 'ast, 'p) platform) snap. load_rules pf0 s = Inr snap \<and>
    dp_RulesVersion response = sn_Version snap \<and>
    dp_EvaluatedRules response = map rule_ID (sn_Rules snap) \<and>
    rs_Rule ` set (dp_Reasons response) \<subseteq> set (dp_EvaluatedRules response) \<and>
    distinct (map rs_Rule (dp_Reasons response)) \<and>
    (\<forall>reason \<in> set (dp_Reasons response). rs_Code reason \<noteq> []) \<and>
    (dp_Verdict response \<noteq> VerdictAllow \<longrightarrow> dp_Reasons response \<noteq> [])"
proof -
  from serving_holds_loaded [OF assms(1)] obtain pf0 :: "('env, 'ast, 'p) platform" and snap
    where load: "load_rules pf0 s = Inr snap" and holder: "holder = Some (buildEngine (os_net os) s snap)"
    by (auto simp: holds_loaded_def)
  let ?e = "buildEngine (os_net os) s snap"
  let ?opts = "loader_options s\<lparr>lo_BaseDir := Dir (cf_RulesPath (sv_cfg s))\<rparr>"
  obtain data where bytes: "LoadBytes pf0 data ?opts = Inr snap"
    using load by (auto simp: load_rules_def LoadFile_def loader_options_def split: sum.splits)
  have opts: "lawful_options ?opts" using assms(2) by (simp add: lawful_server_def lawful_options_def)
  have rules: "re_rules ?e = sn_Rules snap" and version: "re_rulesVersion ?e = (if sn_Version snap = [] then ''bootstrap'' else sn_Version snap)"
    by (simp_all add: buildEngine_def NewRuleEngine_def WithFeatureProvider_def WithAuditSink_def Let_def split: option.split)
  from bytes have "sn_Version snap \<noteq> []" by (auto simp: LoadBytes_Inr loads_def)
  moreover obtain req w0 w' where run: "RuleEngine_Evaluate ?e (hq_Context r) req w0 = (Inr response, w')"
    using assms(3) by (auto simp: HTTP_decide_def holder holder_Evaluate_def writeError_def writeJSON_def Let_def
        split: if_splits sum.splits option.splits prod.splits)
  moreover from this respond_fields(4) have "dp_RulesVersion response = re_rulesVersion ?e"
    by (cases rule: RuleEngine_Evaluate_cases [of "hq_Context r" ?e req w0]) auto
  ultimately have "dp_RulesVersion response = sn_Version snap" using version by simp
  with load loaded_decision [OF bytes opts rules buildEngine_frame [OF assms(2)] run] show ?thesis
    by blast
qed

theorem served_decision_explained_witness:
  "\<exists>holder w response app.
     serving sample_system no_env sample_codec sample_struct (\<lambda>r w. (writeJSON 404 (Page []), w))
       TYPE((unit, string, string) platform) sample_server (holder, w) \<and>
     HTTP_decide sample_codec holder_Evaluate sample_http (holder, w) = (writeJSON 200 (Decision response), app) \<and>
     distinct (map rs_Rule (dp_Reasons response))"
proof -
  from sample_server_loads obtain snap where snap: "load_rules (sample_platform sample_file) sample_server = Inr snap" ..
  let ?e = "buildEngine sample_net sample_server snap"
  note up = serving.start [OF sample_start [OF snap],
      of sample_codec sample_struct "\<lambda>r w. (writeJSON 404 (Page []), w)" "TYPE((unit, string, string) platform)" "start_world ()"]
  have law: "lawful_server sample_server"
    by (simp add: lawful_server_def lawful_http_def sample_server_def NewHTTPFeatureProvider_def sample_net_def
        lawful_options_def loader_options_def Redis_Client_def pointer_def)
  let ?req = "sample_request\<lparr>dr_ClientID := ''local'', dr_RequestID := ''local''\<rparr>"
  obtain response w' where "RuleEngine_Evaluate ?e background ?req (start_world ()) = (Inr response, w')"
    using RuleEngine_Evaluate_live [of background ?e ?req "start_world ()"] by auto
  then have run: "HTTP_decide sample_codec holder_Evaluate sample_http (Some ?e, start_world ()) =
      (writeJSON 200 (Decision response), Some ?e, w')"
    by (simp add: HTTP_decide_def Let_def sample_http_simps sample_trimmed sample_valid holder_Evaluate_def)
  from served_decision_explained [OF up law run] have "distinct (map rs_Rule (dp_Reasons response))"
    by (elim exE conjE)
  with up run show ?thesis by blast
qed

end
